(* ===== verification/Rumicos_Prelude.thy ===== *)
theory Rumicos_Prelude
  imports "HOL-Library.Word"
begin

text \<open>
  Shared vocabulary of the development: names for the machine integer types of
  the Rust sources, the errno values the system calls return, searches over
  fixed-size slot arrays (the kernel's tables are all arrays of optional entries
  scanned from index zero), windows of ring buffers, and the interfaces that
  several components implement.
\<close>

unbundle bit_operations_syntax

section \<open>Machine integers and error numbers\<close>

type_synonym u8 = "8 word"
type_synonym u16 = "16 word"
type_synonym u32 = "32 word"
type_synonym u64 = "64 word"

named_theorems layout "constants of the memory layout, unfolded together"
named_theorems errno "error numbers returned by the system calls"
named_theorems ring_simps "windows of ring buffers"
named_theorems slot_simps "searches over slot arrays"

abbreviation PAGE_SIZE :: nat where
  "PAGE_SIZE \<equiv> 4096"

section \<open>Masks and alignment\<close>

lemma and_mask_mod: "(n :: nat) AND (2 ^ k - 1) = n mod 2 ^ k"
  by (metis mask_eq_exp_minus_1 take_bit_eq_mask take_bit_eq_mod)

lemma and_4095: "(n :: nat) AND 4095 = n mod 4096"
  using and_mask_mod[of n 12] by simp

lemma and_65535: "(n :: nat) AND 65535 = n mod 65536"
  using and_mask_mod[of n 16] by simp

lemma or_is_add:
  fixes a b :: nat
  assumes "b < 2 ^ k"
  shows "push_bit k a OR b = a * 2 ^ k + b"
proof -
  have "push_bit k a OR b = push_bit k a + b"
  proof (rule disjunctive_add[symmetric])
    fix n
    have "take_bit k b = b" using assms by (simp add: take_bit_nat_eq_self)
    then have "bit b n \<Longrightarrow> n < k" by (metis bit_take_bit_iff)
    then show "\<not> bit (push_bit k a) n \<or> \<not> bit b n" by (auto simp: bit_simps)
  qed
  then show ?thesis by (simp add: push_bit_eq_mult)
qed

section \<open>Computations that may panic\<close>

text \<open>Sequencing of computations whose failure \<open>Inl e\<close> ends the whole computation.\<close>

definition and_then :: "'e + 'a \<Rightarrow> ('a \<Rightarrow> 'e + 'b) \<Rightarrow> 'e + 'b" where
  "and_then r f = (case r of Inl e \<Rightarrow> Inl e | Inr x \<Rightarrow> f x)"

lemma and_then_simps [simp]: "and_then (Inl e) f = Inl e" "and_then (Inr x) f = f x"
  by (simp_all add: and_then_def)

lemma and_then_Inr_iff: "and_then r f = Inr y \<longleftrightarrow> (\<exists>x. r = Inr x \<and> f x = Inr y)"
  by (cases r) auto

lemma and_then_Inl_iff: "and_then r f = Inl e \<longleftrightarrow> r = Inl e \<or> (\<exists>x. r = Inr x \<and> f x = Inl e)"
  by (cases r) auto

section \<open>Slot arrays\<close>

text \<open>The first index whose entry satisfies a predicate, as the scanning loops compute it.\<close>

primrec first_idx :: "('a \<Rightarrow> bool) \<Rightarrow> 'a list \<Rightarrow> nat option" where
  "first_idx P [] = None"
| "first_idx P (x # xs) = (if P x then Some 0 else map_option Suc (first_idx P xs))"

lemma first_idx_None_iff [slot_simps]: "first_idx P xs = None \<longleftrightarrow> (\<forall>x \<in> set xs. \<not> P x)"
  by (induction xs) auto

lemma first_idx_SomeD:
  "first_idx P xs = Some i \<Longrightarrow> i < length xs \<and> P (xs ! i) \<and> (\<forall>j < i. \<not> P (xs ! j))"
proof (induction xs arbitrary: i)
  case (Cons x xs)
  show ?case
  proof (cases "P x")
    case False
    with Cons.prems obtain k where k: "first_idx P xs = Some k" "i = Suc k" by auto
    with Cons.IH[OF k(1)] False show ?thesis by (auto simp: nth_Cons split: nat.split)
  qed (use Cons.prems in auto)
qed simp

lemma first_idx_SomeI:
  "i < length xs \<Longrightarrow> P (xs ! i) \<Longrightarrow> (\<And>j. j < i \<Longrightarrow> \<not> P (xs ! j)) \<Longrightarrow> first_idx P xs = Some i"
proof (cases "first_idx P xs")
  case (Some k)
  assume "i < length xs" "P (xs ! i)" "\<And>j. j < i \<Longrightarrow> \<not> P (xs ! j)"
  with first_idx_SomeD[OF Some] have "k = i" by (metis linorder_neqE_nat)
  with Some show ?thesis by simp
qed (auto simp: first_idx_None_iff)

lemma first_idx_less [dest]: "first_idx P xs = Some i \<Longrightarrow> i < length xs"
  by (simp add: first_idx_SomeD)

lemma first_idx_holds: "first_idx P xs = Some i \<Longrightarrow> P (xs ! i)"
  by (simp add: first_idx_SomeD)

lemma first_idx_ex: "x \<in> set xs \<Longrightarrow> P x \<Longrightarrow> \<exists>i. first_idx P xs = Some i"
  using first_idx_None_iff[of P xs] by (cases "first_idx P xs") auto

lemma first_idx_cong:
  "length xs = length ys \<Longrightarrow> (\<And>i. i < length ys \<Longrightarrow> P (xs ! i) = Q (ys ! i)) \<Longrightarrow>
   first_idx P xs = first_idx Q ys"
proof (induction xs ys rule: list_induct2)
  case (Cons x xs y ys)
  from Cons.prems[of 0] Cons.prems[of "Suc i" for i] Cons.IH show ?case by fastforce
qed simp

section \<open>Windows of ring buffers\<close>

text \<open>
  The \<open>n\<close> entries that start at index \<open>s\<close> of a circular array, in order: the
  abstract contents of every ring buffer of the kernel.
\<close>

definition window :: "'a list \<Rightarrow> nat \<Rightarrow> nat \<Rightarrow> 'a list" where
  "window buf s n = map (\<lambda>i. buf ! ((s + i) mod length buf)) [0..<n]"

lemma length_window [simp]: "length (window buf s n) = n"
  by (simp add: window_def)

lemma window_0 [simp]: "window buf s 0 = []"
  by (simp add: window_def)

lemma nth_window [ring_simps]: "i < n \<Longrightarrow> window buf s n ! i = buf ! ((s + i) mod length buf)"
  by (simp add: window_def)

lemma window_mod [simp]: "window buf (s mod length buf) n = window buf s n"
  by (simp add: window_def mod_add_left_eq)

lemma take_window [ring_simps]: "k \<le> n \<Longrightarrow> take k (window buf s n) = window buf s k"
  by (rule nth_equalityI) (auto simp: nth_window)

lemma drop_window [ring_simps]:
  "k \<le> n \<Longrightarrow> drop k (window buf s n) = window buf (s + k) (n - k)"
  by (rule nth_equalityI) (auto simp: nth_window add.assoc)

lemma window_Suc: "window buf s (Suc n) = window buf s n @ [buf ! ((s + n) mod length buf)]"
  by (simp add: window_def)

lemma window_Cons:
  "0 < n \<Longrightarrow> window buf s n = buf ! (s mod length buf) # window buf (Suc s) (n - 1)"
  by (rule nth_equalityI) (auto simp: nth_window nth_Cons split: nat.split)

lemma ring_index_inj:
  fixes i j :: nat
  assumes "i < N" "j < N" "(s + i) mod N = (s + j) mod N"
  shows "i = j"
proof -
  from assms(3) obtain q r where "s + i + N * q = s + j + N * r"
    using nat_mod_eq_iff by blast
  then have "i mod N = j mod N"
    using nat_mod_eq_iff[of i N j] by (metis add.assoc add_left_cancel)
  with assms(1,2) show ?thesis by simp
qed

lemma window_update_outside:
  assumes "n \<le> k" "k < length buf"
  shows "window (buf[(s + k) mod length buf := x]) s n = window buf s n"
proof (rule nth_equalityI)
  fix i assume "i < length (window (buf[(s + k) mod length buf := x]) s n)"
  then have "i < n" by simp
  moreover from this assms have "(s + k) mod length buf \<noteq> (s + i) mod length buf"
    using ring_index_inj[of k "length buf" i s] by auto
  ultimately show "window (buf[(s + k) mod length buf := x]) s n ! i = window buf s n ! i"
    by (simp add: nth_window)
qed simp

text \<open>Storing at the slot just past the window extends it at the end.\<close>

lemma window_push [ring_simps]:
  assumes "n < length buf"
  shows "window (buf[(s + n) mod length buf := x]) s (Suc n) = window buf s n @ [x]"
proof -
  from assms have "(s + n) mod length buf < length buf" by (intro mod_less_divisor) linarith
  with assms show ?thesis by (simp add: window_Suc window_update_outside)
qed

end
