(* ===== verification/Pipe_Ring.thy ===== *)
theory Pipe_Ring
  imports Rumicos_Prelude
begin

text \<open>
  The byte ring of an anonymous pipe (\<open>crates/fs/src/pipe.rs\<close>): the cursor
  record, the two copy loops, and the blocking decisions taken on an empty or
  full ring.  The abstract contents of a ring are the \<open>ring_len\<close> bytes that start
  at the read cursor; the lemmas show that the two copy operations are the
  take/append operations of a bounded byte stream.
\<close>

definition PIPE_BUF_SIZE :: nat where
  "PIPE_BUF_SIZE = 4096"

definition EPIPE :: int where
  "EPIPE = -32"

definition EBADF :: int where
  "EBADF = -9"

definition EFAULT :: int where
  "EFAULT = -14"

lemma PIPE_BUF_SIZE_pos [simp]: "0 < PIPE_BUF_SIZE"
  by (simp add: PIPE_BUF_SIZE_def)

record PipeRing =
  read_pos :: nat
  write_pos :: nat
  ring_len :: nat

definition PipeRing_new :: PipeRing where
  "PipeRing_new = \<lparr>read_pos = 0, write_pos = 0, ring_len = 0\<rparr>"

definition ring_is_empty :: "PipeRing \<Rightarrow> bool" where
  "ring_is_empty r \<longleftrightarrow> ring_len r = 0"

definition ring_is_full :: "PipeRing \<Rightarrow> bool" where
  "ring_is_full r \<longleftrightarrow> ring_len r = PIPE_BUF_SIZE"

text \<open>The copy loops, one indexed assignment per iteration.\<close>

definition read_into :: "PipeRing \<Rightarrow> 'b list \<Rightarrow> 'b list \<Rightarrow> nat \<times> 'b list \<times> PipeRing" where
  "read_into r data dst =
     (let n = min (length dst) (ring_len r);
          dst' = fold (\<lambda>i d. d[i := data ! ((read_pos r + i) mod PIPE_BUF_SIZE)]) [0..<n] dst
      in (n, dst', r\<lparr>read_pos := (read_pos r + n) mod PIPE_BUF_SIZE, ring_len := ring_len r - n\<rparr>))"

definition write_from :: "PipeRing \<Rightarrow> 'b list \<Rightarrow> 'b list \<Rightarrow> nat \<times> 'b list \<times> PipeRing" where
  "write_from r data src =
     (let space = PIPE_BUF_SIZE - ring_len r;
          n = min (length src) space;
          data' = fold (\<lambda>i d. d[(write_pos r + i) mod PIPE_BUF_SIZE := src ! i]) [0..<n] data
      in (n, data', r\<lparr>write_pos := (write_pos r + n) mod PIPE_BUF_SIZE, ring_len := ring_len r + n\<rparr>))"

datatype ReaderStep = ReturnR int | BlockR

datatype WriterStep = ReturnW int | BlockW

definition reader_step_when_empty :: "bool \<Rightarrow> ReaderStep" where
  "reader_step_when_empty writers_present = (if writers_present then BlockR else ReturnR 0)"

definition writer_step_when_full :: "bool \<Rightarrow> WriterStep" where
  "writer_step_when_full readers_present = (if readers_present then BlockW else ReturnW EPIPE)"

section \<open>Invariant and abstraction\<close>

definition ring_inv :: "PipeRing \<Rightarrow> 'b list \<Rightarrow> bool" where
  "ring_inv r data \<longleftrightarrow> length data = PIPE_BUF_SIZE \<and> read_pos r < PIPE_BUF_SIZE \<and>
     ring_len r \<le> PIPE_BUF_SIZE \<and> write_pos r = (read_pos r + ring_len r) mod PIPE_BUF_SIZE"

definition ring_bytes :: "PipeRing \<Rightarrow> 'b list \<Rightarrow> 'b list" where
  "ring_bytes r data = window data (read_pos r) (ring_len r)"

lemma length_ring_bytes [simp]: "length (ring_bytes r data) = ring_len r"
  by (simp add: ring_bytes_def)

lemma ring_inv_new: "length data = PIPE_BUF_SIZE \<Longrightarrow> ring_inv PipeRing_new data"
  by (simp add: ring_inv_def PipeRing_new_def)

lemma ring_bytes_new [simp]: "ring_bytes PipeRing_new data = []"
  by (simp add: ring_bytes_def PipeRing_new_def)

lemma fill_prefix:
  "n \<le> length dst \<Longrightarrow> fold (\<lambda>i d. d[i := f i]) [0..<n] dst = map f [0..<n] @ drop n dst"
proof (induction n)
  case (Suc n)
  then have "drop n dst = dst ! n # drop (Suc n) dst" by (simp add: Cons_nth_drop_Suc)
  with Suc show ?case by (simp add: list_update_append)
qed simp

lemma window_fill:
  assumes "length data = N" "k + n \<le> N"
  shows "length (fold (\<lambda>i d. d[(s + k + i) mod N := f i]) [0..<n] data) = N \<and>
         window (fold (\<lambda>i d. d[(s + k + i) mod N := f i]) [0..<n] data) s (k + n) =
           window data s k @ map f [0..<n]"
  using assms(2)
proof (induction n)
  case 0
  with assms(1) show ?case by simp
next
  case (Suc n)
  let ?d = "fold (\<lambda>i d. d[(s + k + i) mod N := f i]) [0..<n] data"
  from Suc have len: "length ?d = N" and win: "window ?d s (k + n) = window data s k @ map f [0..<n]"
    by auto
  with Suc.prems window_push[of "k + n" ?d s "f n"] show ?case by (simp add: add.assoc)
qed

text \<open>Reading takes a prefix of the contents, writing appends a prefix of the source.\<close>

lemma read_into_spec:
  assumes "ring_inv r data" "read_into r data dst = (n, dst', r')"
  shows "n = min (length dst) (ring_len r)"
    and "dst' = take n (ring_bytes r data) @ drop n dst"
    and "ring_bytes r' data = drop n (ring_bytes r data)"
    and "ring_inv r' data"
    and "ring_len r' = ring_len r - n"
proof -
  from assms show n: "n = min (length dst) (ring_len r)" by (simp add: read_into_def Let_def)
  from assms have "dst' = map (\<lambda>i. data ! ((read_pos r + i) mod PIPE_BUF_SIZE)) [0..<n] @ drop n dst"
    by (auto simp: read_into_def Let_def fill_prefix)
  with assms(1) n show "dst' = take n (ring_bytes r data) @ drop n dst"
    by (simp add: ring_inv_def ring_bytes_def take_window) (simp add: window_def)
  from assms have r': "r' = r\<lparr>read_pos := (read_pos r + n) mod PIPE_BUF_SIZE, ring_len := ring_len r - n\<rparr>"
    by (auto simp: read_into_def Let_def)
  with assms(1) n show "ring_bytes r' data = drop n (ring_bytes r data)"
    by (simp add: ring_inv_def ring_bytes_def drop_window) (metis window_mod)
  have "n \<le> ring_len r" using n by simp
  then have "((read_pos r + n) mod PIPE_BUF_SIZE + (ring_len r - n)) mod PIPE_BUF_SIZE =
      (read_pos r + ring_len r) mod PIPE_BUF_SIZE"
    unfolding mod_add_left_eq by (simp add: add.assoc)
  with r' assms(1) show "ring_inv r' data" by (auto simp: ring_inv_def)
  from r' show "ring_len r' = ring_len r - n" by simp
qed

lemma write_from_spec:
  assumes "ring_inv r data" "write_from r data src = (n, data', r')"
  shows "n = min (length src) (PIPE_BUF_SIZE - ring_len r)"
    and "ring_bytes r' data' = ring_bytes r data @ take n src"
    and "ring_inv r' data'"
    and "ring_len r' = ring_len r + n"
proof -
  from assms show n: "n = min (length src) (PIPE_BUF_SIZE - ring_len r)"
    by (simp add: write_from_def Let_def)
  from assms have data': "data' = fold (\<lambda>i d. d[(read_pos r + ring_len r + i) mod PIPE_BUF_SIZE := src ! i]) [0..<n] data"
    by (auto simp: write_from_def Let_def ring_inv_def mod_add_left_eq)
  from assms have r': "r' = r\<lparr>write_pos := (write_pos r + n) mod PIPE_BUF_SIZE, ring_len := ring_len r + n\<rparr>"
    by (auto simp: write_from_def Let_def)
  have room: "ring_len r + n \<le> PIPE_BUF_SIZE" using assms(1) n by (auto simp: ring_inv_def min_def)
  have "map ((!) src) [0..<n] = take n src" using n by (intro nth_equalityI) auto
  with window_fill[OF _ room, of data "read_pos r" "(!) src"] assms(1) data' r'
  show "ring_bytes r' data' = ring_bytes r data @ take n src" and "ring_inv r' data'"
    using room by (auto simp: ring_inv_def ring_bytes_def mod_add_left_eq mod_add_eq add.assoc)
  from r' show "ring_len r' = ring_len r + n" by simp
qed

end
