(* ===== verification/Wait_Queue.thy ===== *)
theory Wait_Queue
  imports Rumicos_Prelude
begin

text \<open>
  Wait queues (\<open>crates/sched/src/waitqueue.rs\<close>): a circular doubly linked list of
  nodes that live on the stacks of the blocked threads, threaded through a
  sentinel owned by the queue.  Nodes are cells of an explicit store, links are
  addresses and address 0 is the null pointer.  The abstraction of a queue is the
  list of node addresses from the sentinel's successor onwards; every operation
  is shown to implement the corresponding list operation, and the traversal of
  \<open>wake_n_matching\<close> is shown to return.
\<close>

record WaitNode =
  wn_thread :: nat
  wn_next :: nat
  wn_prev :: nat
  wn_woken :: bool
  wn_key :: nat

record WaitQueueInner =
  wq_head :: nat
  wq_len :: nat

type_synonym node_store = "nat \<Rightarrow> WaitNode"

definition WaitNode_new :: "nat \<Rightarrow> WaitNode" where
  "WaitNode_new thread =
     \<lparr>wn_thread = thread, wn_next = 0, wn_prev = 0, wn_woken = False, wn_key = 0\<rparr>"

definition WaitQueueInner_new :: WaitQueueInner where
  "WaitQueueInner_new = \<lparr>wq_head = 0, wq_len = 0\<rparr>"

abbreviation U32_MAX :: nat where
  "U32_MAX \<equiv> 4294967295"

definition ensure_initialized ::
  "nat \<Rightarrow> WaitQueueInner \<times> node_store \<Rightarrow> WaitQueueInner \<times> node_store" where
  "ensure_initialized sentinel = (\<lambda>(q, h).
     if wq_head q = 0 then
       (q\<lparr>wq_head := sentinel\<rparr>,
        h(sentinel := (h sentinel)\<lparr>wn_next := sentinel, wn_prev := sentinel, wn_thread := 0,
                                   wn_woken := False, wn_key := 0\<rparr>))
     else (q, h))"

definition enqueue_raw ::
  "nat \<Rightarrow> WaitQueueInner \<times> node_store \<Rightarrow> WaitQueueInner \<times> node_store" where
  "enqueue_raw node = (\<lambda>(q, h).
     let head = wq_head q;
         tail = wn_prev (h head);
         h1 = h(node := (h node)\<lparr>wn_next := head, wn_prev := tail, wn_woken := False\<rparr>);
         h2 = h1(tail := (h1 tail)\<lparr>wn_next := node\<rparr>);
         h3 = h2(head := (h2 head)\<lparr>wn_prev := node\<rparr>)
     in (q\<lparr>wq_len := min U32_MAX (wq_len q + 1)\<rparr>, h3))"

definition dequeue_raw ::
  "nat \<Rightarrow> WaitQueueInner \<times> node_store \<Rightarrow> WaitQueueInner \<times> node_store" where
  "dequeue_raw node = (\<lambda>(q, h).
     if wn_next (h node) = 0 \<or> wn_prev (h node) = 0 then (q, h)
     else
       let prev = wn_prev (h node);
           nxt = wn_next (h node);
           h1 = h(prev := (h prev)\<lparr>wn_next := nxt\<rparr>);
           h2 = h1(nxt := (h1 nxt)\<lparr>wn_prev := prev\<rparr>);
           h3 = h2(node := (h2 node)\<lparr>wn_next := 0, wn_prev := 0\<rparr>)
       in (q\<lparr>wq_len := wq_len q - 1\<rparr>, h3))"

text \<open>
  Making a thread runnable pushes it onto the boot processor's run queue.  The
  push takes the scheduler lock with a single attempt and can fail, on contention
  or on a full queue; it is tried twice.  The scheduler is a parameter: \<open>push s t\<close>
  is the outcome of one attempt.
\<close>

definition try_make_runnable :: "('s \<Rightarrow> nat \<Rightarrow> bool \<times> 's) \<Rightarrow> 's \<Rightarrow> nat \<Rightarrow> bool \<times> 's" where
  "try_make_runnable push s thread =
     (if thread = 0 then (False, s)
      else let (ok, s') = push s thread in if ok then (True, s') else push s' thread)"

partial_function (option) wake_loop ::
  "('s \<Rightarrow> nat \<Rightarrow> bool \<times> 's) \<Rightarrow> nat \<Rightarrow> nat \<Rightarrow> nat \<Rightarrow> nat \<Rightarrow> WaitQueueInner \<Rightarrow> node_store \<Rightarrow> 's \<Rightarrow>
   (nat \<times> WaitQueueInner \<times> node_store \<times> 's) option"
where
  "wake_loop push key n node woken q h s =
     (if node \<noteq> wq_head q \<and> woken < n then
        let nxt = wn_next (h node) in
        if key = 0 \<or> wn_key (h node) = key then
          (let (ok, s') = try_make_runnable push s (wn_thread (h node)) in
           if ok then
             (let (q', h') = dequeue_raw node (q, h(node := (h node)\<lparr>wn_woken := True\<rparr>)) in
              wake_loop push key n nxt (woken + 1) q' h' s')
           else wake_loop push key n nxt woken q h s')
        else wake_loop push key n nxt woken q h s
      else Some (woken, q, h, s))"

definition wake_n_matching ::
  "('s \<Rightarrow> nat \<Rightarrow> bool \<times> 's) \<Rightarrow> nat \<Rightarrow> nat \<Rightarrow> nat \<Rightarrow> WaitQueueInner \<times> node_store \<Rightarrow> 's \<Rightarrow>
   (nat \<times> WaitQueueInner \<times> node_store \<times> 's) option"
where
  "wake_n_matching push sentinel key n qh s =
     (if n = 0 then (case qh of (q, h) \<Rightarrow> Some (0, q, h, s))
      else case ensure_initialized sentinel qh of (q, h) \<Rightarrow>
        wake_loop push key n (wn_next (h (wq_head q))) 0 q h s)"

definition wake_n where
  "wake_n push sentinel n = wake_n_matching push sentinel 0 n"

definition wake_one where
  "wake_one push sentinel = wake_n push sentinel 1"

definition wake_all where
  "wake_all push sentinel = wake_n push sentinel U32_MAX"

text \<open>
  Requeueing moves matching nodes to another queue; within one queue it only
  rewrites their keys.
\<close>

partial_function (option) rekey_loop ::
  "nat \<Rightarrow> nat \<Rightarrow> nat \<Rightarrow> nat \<Rightarrow> nat \<Rightarrow> nat \<Rightarrow> node_store \<Rightarrow> (nat \<times> node_store) option"
where
  "rekey_loop head key new_key n node moved h =
     (if node \<noteq> head \<and> moved < n then
        (if wn_key (h node) = key then
           (let h' = h(node := (h node)\<lparr>wn_key := new_key\<rparr>) in
            rekey_loop head key new_key n (wn_next (h' node)) (moved + 1) h')
         else rekey_loop head key new_key n (wn_next (h node)) moved h)
      else Some (moved, h))"

partial_function (option) requeue_loop ::
  "nat \<Rightarrow> nat \<Rightarrow> nat \<Rightarrow> nat \<Rightarrow> nat \<Rightarrow> WaitQueueInner \<Rightarrow> WaitQueueInner \<Rightarrow> node_store \<Rightarrow>
   (nat \<times> WaitQueueInner \<times> WaitQueueInner \<times> node_store) option"
where
  "requeue_loop key new_key n node moved src dst h =
     (if node \<noteq> wq_head src \<and> moved < n then
        let nxt = wn_next (h node) in
        if wn_key (h node) = key then
          (let (src', h1) = dequeue_raw node (src, h);
               h2 = h1(node := (h1 node)\<lparr>wn_key := new_key, wn_woken := False\<rparr>);
               (dst', h3) = enqueue_raw node (dst, h2)
           in requeue_loop key new_key n nxt (moved + 1) src' dst' h3)
        else requeue_loop key new_key n nxt moved src dst h
      else Some (moved, src, dst, h))"

definition requeue_same ::
  "nat \<Rightarrow> nat \<Rightarrow> nat \<Rightarrow> nat \<Rightarrow> WaitQueueInner \<times> node_store \<Rightarrow> (nat \<times> WaitQueueInner \<times> node_store) option"
where
  "requeue_same sentinel key new_key n qh =
     (if n = 0 then (case qh of (q, h) \<Rightarrow> Some (0, q, h))
      else case ensure_initialized sentinel qh of (q, h) \<Rightarrow>
        map_option (\<lambda>(m, h'). (m, q, h'))
          (rekey_loop (wq_head q) key new_key n (wn_next (h (wq_head q))) 0 h))"

definition requeue_matching ::
  "nat \<Rightarrow> nat \<Rightarrow> nat \<Rightarrow> nat \<Rightarrow> nat \<Rightarrow> WaitQueueInner \<times> WaitQueueInner \<times> node_store \<Rightarrow>
   (nat \<times> WaitQueueInner \<times> WaitQueueInner \<times> node_store) option"
where
  "requeue_matching src_sentinel dst_sentinel key new_key n = (\<lambda>(src, dst, h).
     if n = 0 then Some (0, src, dst, h)
     else
       let (src', h1) = ensure_initialized src_sentinel (src, h);
           (dst', h2) = ensure_initialized dst_sentinel (dst, h1)
       in requeue_loop key new_key n (wn_next (h2 (wq_head src'))) 0 src' dst' h2)"

definition wq_enqueue :: "nat \<Rightarrow> nat \<Rightarrow> WaitQueueInner \<times> node_store \<Rightarrow> WaitQueueInner \<times> node_store" where
  "wq_enqueue sentinel node qh = enqueue_raw node (ensure_initialized sentinel qh)"

definition wq_dequeue :: "nat \<Rightarrow> nat \<Rightarrow> WaitQueueInner \<times> node_store \<Rightarrow> WaitQueueInner \<times> node_store" where
  "wq_dequeue sentinel node qh = dequeue_raw node (ensure_initialized sentinel qh)"

text \<open>\<open>thread_block_if\<close> up to the call of the scheduler: the condition is read under the queue lock.\<close>

definition block_if ::
  "nat \<Rightarrow> nat \<Rightarrow> bool \<Rightarrow> WaitQueueInner \<times> node_store \<Rightarrow> bool \<times> WaitQueueInner \<times> node_store" where
  "block_if sentinel node should_block qh =
     (let qh' = ensure_initialized sentinel qh in
      if should_block then (True, enqueue_raw node qh') else (False, qh'))"

section \<open>Chains of nodes\<close>

fun chain :: "node_store \<Rightarrow> nat \<Rightarrow> nat list \<Rightarrow> nat \<Rightarrow> bool" where
  "chain h a [] b \<longleftrightarrow> wn_next (h a) = b \<and> wn_prev (h b) = a"
| "chain h a (x # xs) b \<longleftrightarrow> wn_next (h a) = x \<and> wn_prev (h x) = a \<and> chain h x xs b"

lemma chain_append: "chain h a (xs @ x # ys) b \<longleftrightarrow> chain h a xs x \<and> chain h x ys b"
  by (induction xs arbitrary: a) auto

lemma chain_next: "chain h a xs b \<Longrightarrow> wn_next (h a) = hd (xs @ [b])"
  by (cases xs) auto

lemma chain_prev: "chain h a xs b \<Longrightarrow> wn_prev (h b) = last (a # xs)"
  by (induction xs arbitrary: a) auto

lemma chain_cong:
  "(\<And>x. x \<in> set (a # xs) \<Longrightarrow> wn_next (h' x) = wn_next (h x)) \<Longrightarrow>
   (\<And>x. x \<in> set (xs @ [b]) \<Longrightarrow> wn_prev (h' x) = wn_prev (h x)) \<Longrightarrow>
   chain h' a xs b = chain h a xs b"
  by (induction xs arbitrary: a) auto

definition queue_rep :: "WaitQueueInner \<times> node_store \<Rightarrow> nat list \<Rightarrow> bool" where
  "queue_rep = (\<lambda>(q, h) ns. wq_head q \<noteq> 0 \<and> 0 \<notin> set ns \<and> distinct (wq_head q # ns) \<and>
     chain h (wq_head q) ns (wq_head q) \<and> wq_len q = length ns \<and> length ns \<le> U32_MAX)"

text \<open>A queue that no operation has touched yet has a null head and stands for the empty list.\<close>

definition wq_rep :: "nat \<Rightarrow> WaitQueueInner \<times> node_store \<Rightarrow> nat list \<Rightarrow> bool" where
  "wq_rep sentinel qh ns \<longleftrightarrow> sentinel \<noteq> 0 \<and>
     (fst qh = WaitQueueInner_new \<and> ns = [] \<or> wq_head (fst qh) = sentinel \<and> queue_rep qh ns)"

lemma ensure_initialized_rep:
  "wq_rep sentinel qh ns \<Longrightarrow> queue_rep (ensure_initialized sentinel qh) ns \<and>
     wq_head (fst (ensure_initialized sentinel qh)) = sentinel"
  by (cases qh) (auto simp: wq_rep_def queue_rep_def ensure_initialized_def WaitQueueInner_new_def)

lemma enqueue_raw_rep:
  assumes rep: "queue_rep (q, h) ns" and node: "node \<noteq> 0" "node \<noteq> wq_head q" "node \<notin> set ns"
    and room: "length ns < U32_MAX"
  shows "queue_rep (enqueue_raw node (q, h)) (ns @ [node])"
proof (cases ns rule: rev_cases)
  case Nil
  with assms show ?thesis by (auto simp: queue_rep_def enqueue_raw_def Let_def)
next
  case (snoc xs t)
  let ?head = "wq_head q"
  let ?h' = "snd (enqueue_raw node (q, h))"
  from rep snoc have t: "wn_prev (h ?head) = t" and c: "chain h ?head xs t"
    and d: "distinct (?head # xs @ [t])"
    by (auto simp: queue_rep_def chain_append)
  have "chain ?h' ?head xs t = chain h ?head xs t"
    by (rule chain_cong) (use d t node snoc in \<open>auto simp: enqueue_raw_def Let_def\<close>)
  with rep snoc t c d node room show ?thesis
    by (auto simp: queue_rep_def enqueue_raw_def chain_append Let_def)
qed

text \<open>Cutting a node out of a chain: its neighbours are linked to each other.\<close>

lemma chain_relink:
  assumes "chain h a xs x" "chain h x ys b"
    and "wn_next (h' (last (a # xs))) = hd (ys @ [b])" "wn_prev (h' (hd (ys @ [b]))) = last (a # xs)"
    and "\<And>y. y \<in> set (butlast (a # xs)) \<union> set ys \<Longrightarrow> wn_next (h' y) = wn_next (h y)"
    and "\<And>y. y \<in> set xs \<union> set (tl (ys @ [b])) \<Longrightarrow> wn_prev (h' y) = wn_prev (h y)"
  shows "chain h' a (xs @ ys) b"
  using assms
proof (induction xs arbitrary: a)
  case Nil
  show ?case
  proof (cases ys)
    case (Cons y ys')
    with Nil have "chain h y ys' b" by simp
    moreover have "chain h' y ys' b = chain h y ys' b"
      by (rule chain_cong) (use Nil.prems Cons in auto)
    ultimately show ?thesis using Nil Cons by simp
  qed (use Nil in simp)
next
  case (Cons z zs)
  have "chain h' z (zs @ ys) b" by (rule Cons.IH) (use Cons.prems in auto)
  with Cons.prems show ?case by simp
qed

lemma dequeue_raw_rep:
  assumes rep: "queue_rep (q, h) (xs @ x # ys)"
  shows "queue_rep (dequeue_raw x (q, h)) (xs @ ys)"
    and "wn_next (snd (dequeue_raw x (q, h)) x) = 0" "wn_prev (snd (dequeue_raw x (q, h)) x) = 0"
proof -
  let ?a = "wq_head q"
  let ?p = "last (?a # xs)" and ?n = "hd (ys @ [?a])"
  have l: "chain h ?a xs x" and r: "chain h x ys ?a" and d: "distinct (?a # xs @ x # ys)"
    and nz: "0 \<notin> set (?a # xs @ x # ys)"
    using rep by (auto simp: queue_rep_def chain_append)
  have p: "wn_prev (h x) = ?p" and n: "wn_next (h x) = ?n"
    using chain_prev[OF l] chain_next[OF r] by auto
  have pin: "?p \<in> set (?a # xs)" by (rule last_in_set) simp
  have nin: "?n \<in> set (ys @ [?a])" by (rule hd_in_set) simp
  have ne: "?p \<noteq> 0" "?n \<noteq> 0" "?p \<noteq> x" "?n \<noteq> x"
    using pin nin nz d by (auto simp del: last.simps)
  have dq: "dequeue_raw x (q, h) =
     (q\<lparr>wq_len := wq_len q - 1\<rparr>,
      (let h1 = h(?p := (h ?p)\<lparr>wn_next := ?n\<rparr>);
           h2 = h1(?n := (h1 ?n)\<lparr>wn_prev := ?p\<rparr>)
       in h2(x := (h2 x)\<lparr>wn_next := 0, wn_prev := 0\<rparr>)))"
    using ne p n by (simp add: dequeue_raw_def Let_def del: last.simps)
  let ?h' = "snd (dequeue_raw x (q, h))"
  have bl: "y \<noteq> ?p" if "y \<in> set (butlast (?a # xs))" for y
    using that d by (metis append_butlast_last_id distinct_append disjoint_iff list.set_intros(1) list.distinct(1) append_Cons)
  have tn: "y \<noteq> ?n" if "y \<in> set (tl (ys @ [?a]))" for y
    using that d by (cases ys) auto
  have nx: "wn_next (?h' y) = (if y = x then 0 else if y = ?p then ?n else wn_next (h y))" for y
    using ne by (simp add: dq Let_def del: last.simps)
  have px: "wn_prev (?h' y) = (if y = x then 0 else if y = ?n then ?p else wn_prev (h y))" for y
    using ne by (simp add: dq Let_def del: last.simps)
  show "wn_next (?h' x) = 0" "wn_prev (?h' x) = 0" by (simp_all add: nx px)
  have "chain ?h' ?a (xs @ ys) ?a"
  proof (rule chain_relink[OF l r])
    fix y assume y: "y \<in> set (butlast (?a # xs)) \<union> set ys"
    then have "y \<in> set (?a # xs) \<union> set ys"
      by (auto dest: in_set_butlastD simp del: butlast.simps list.set)
    then have "y \<noteq> x" using d by auto
    moreover have "y \<noteq> ?p" using y bl pin d by (auto simp del: last.simps butlast.simps)
    ultimately show "wn_next (?h' y) = wn_next (h y)" by (simp add: nx del: last.simps)
  next
    fix y assume y: "y \<in> set xs \<union> set (tl (ys @ [?a]))"
    then have "y \<noteq> x" using d by (cases ys) auto
    moreover have "y \<noteq> ?n" using y tn nin d by auto
    ultimately show "wn_prev (?h' y) = wn_prev (h y)" by (simp add: px)
  qed (use ne in \<open>simp_all add: nx px del: last.simps\<close>)
  with rep dq show "queue_rep (dequeue_raw x (q, h)) (xs @ ys)"
    by (auto simp: queue_rep_def simp del: last.simps)
qed

section \<open>Waking\<close>

text \<open>The list operation that a wake performs: who stays queued, who is woken, the scheduler after it.\<close>

fun wake_list ::
  "('s \<Rightarrow> nat \<Rightarrow> bool \<times> 's) \<Rightarrow> nat \<Rightarrow> nat \<Rightarrow> node_store \<Rightarrow> nat list \<Rightarrow> 's \<Rightarrow> nat list \<times> nat list \<times> 's"
where
  "wake_list push key n h [] s = ([], [], s)"
| "wake_list push key n h (x # xs) s =
     (if n = 0 then (x # xs, [], s)
      else if key = 0 \<or> wn_key (h x) = key then
        (let (ok, s') = try_make_runnable push s (wn_thread (h x)) in
         if ok then (let (r, w, s'') = wake_list push key (n - 1) h xs s' in (r, x # w, s''))
         else (let (r, w, s'') = wake_list push key n h xs s' in (x # r, w, s'')))
      else (let (r, w, s'') = wake_list push key n h xs s in (x # r, w, s'')))"

lemma wake_list_0 [simp]: "wake_list push key 0 h xs s = (xs, [], s)"
  by (cases xs) auto

lemma wake_list_cong:
  "(\<And>x. x \<in> set xs \<Longrightarrow> wn_key (h' x) = wn_key (h x) \<and> wn_thread (h' x) = wn_thread (h x)) \<Longrightarrow>
   wake_list push key n h' xs s = wake_list push key n h xs s"
proof (induction xs arbitrary: n s)
  case (Cons x xs)
  then have "wake_list push key m h' xs t = wake_list push key m h xs t" for m t by simp
  with Cons.prems[of x] show ?case by (auto simp: case_prod_unfold Let_def)
qed simp

lemma wake_list_partition:
  "wake_list push key n h ns s = (r, w, s') \<Longrightarrow>
   set ns = set r \<union> set w \<and> length ns = length r + length w \<and> length w \<le> n \<and>
   (\<forall>x \<in> set w. key = 0 \<or> wn_key (h x) = key)"
proof (induction ns arbitrary: n s r w)
  case (Cons x xs)
  then show ?case
    by (auto simp: Let_def split: if_splits prod.splits) (fastforce dest!: Cons.IH)+
qed simp

lemma wake_list_disjoint:
  assumes "wake_list push key n h ns s = (r, w, s')" "distinct ns"
  shows "set r \<inter> set w = {}"
proof -
  from wake_list_partition[OF assms(1)] assms(2)
  have "card (set r \<union> set w) = length r + length w" by (metis distinct_card)
  moreover have "card (set r) + card (set w) = card (set r \<union> set w) + card (set r \<inter> set w)"
    by (rule card_Un_Int) auto
  moreover have "card (set r) \<le> length r" "card (set w) \<le> length w" by (rule card_length)+
  ultimately have "card (set r \<inter> set w) = 0" by linarith
  then show ?thesis by simp
qed

text \<open>Writes that keep every link keep the queue.\<close>

lemma queue_rep_woken [simp]:
  "queue_rep (q, h(x := (h x)\<lparr>wn_woken := b\<rparr>)) ns = queue_rep (q, h) ns"
proof -
  have "chain (h(x := (h x)\<lparr>wn_woken := b\<rparr>)) a xs c = chain h a xs c" for a xs c
    by (rule chain_cong) auto
  then show ?thesis by (simp add: queue_rep_def)
qed

lemma dequeue_raw_fields:
  "wq_head (fst (dequeue_raw x (q, h))) = wq_head q"
  "wn_key (snd (dequeue_raw x (q, h)) y) = wn_key (h y)"
  "wn_thread (snd (dequeue_raw x (q, h)) y) = wn_thread (h y)"
  "wn_woken (snd (dequeue_raw x (q, h)) y) = wn_woken (h y)"
  by (simp_all add: dequeue_raw_def Let_def)

lemma wake_loop_rep:
  assumes "queue_rep (q, h) (kept @ rest)" "woken \<le> n" "node = hd (rest @ [wq_head q])"
    and "wake_list push key (n - woken) h rest s = (r, w, s')"
  shows "\<exists>q' h'. wake_loop push key n node woken q h s = Some (woken + length w, q', h', s') \<and>
     queue_rep (q', h') (kept @ r) \<and> wq_head q' = wq_head q \<and>
     (\<forall>x \<in> set w. wn_woken (h' x)) \<and>
     (\<forall>x. wn_key (h' x) = wn_key (h x) \<and> wn_thread (h' x) = wn_thread (h x) \<and> 
          (x \<notin> set w \<longrightarrow> wn_woken (h' x) = wn_woken (h x)))"
  using assms
proof (induction rest arbitrary: kept woken node q h s r w s')
  case Nil
  then show ?case by (subst wake_loop.simps) (auto simp: queue_rep_def)
next
  case (Cons x xs)
  show ?case
  proof (cases "woken < n")
    case False
    with Cons.prems show ?thesis by (subst wake_loop.simps) auto
  next
    case True
    have node: "node = x" "x \<noteq> wq_head q" and nxt: "wn_next (h x) = hd (xs @ [wq_head q])"
      using Cons.prems chain_next[of h x xs] by (auto simp: queue_rep_def chain_append)
    let ?m = "key = 0 \<or> wn_key (h x) = key"
    show ?thesis
    proof (cases "?m \<and> fst (try_make_runnable push s (wn_thread (h x)))")
      case ok: True
      then obtain s1 where s1: "try_make_runnable push s (wn_thread (h x)) = (True, s1)"
        by (metis prod.collapse)
      obtain q1 h1 where qh1: "dequeue_raw x (q, h(x := (h x)\<lparr>wn_woken := True\<rparr>)) = (q1, h1)"
        by fastforce
      have rep1: "queue_rep (q1, h1) (kept @ xs)"
        using dequeue_raw_rep(1)[of q "h(x := (h x)\<lparr>wn_woken := True\<rparr>)" kept x xs] Cons.prems(1) qh1 by simp
      have f: "wq_head q1 = wq_head q" "\<And>y. wn_key (h1 y) = wn_key (h y)" "\<And>y. wn_thread (h1 y) = wn_thread (h y)"
          "\<And>y. wn_woken (h1 y) = (y = x \<or> wn_woken (h y))"
        using dequeue_raw_fields[of x q "h(x := (h x)\<lparr>wn_woken := True\<rparr>)"] qh1 by auto
      from Cons.prems(4) True ok s1 obtain w1 where
        w1: "w = x # w1" "wake_list push key (n - Suc woken) h xs s1 = (r, w1, s')"
        by (auto split: prod.splits)
      have "wake_list push key (n - Suc woken) h1 xs s1 = (r, w1, s')"
        using w1(2) f wake_list_cong[of xs h1 h push key] by simp
      from Cons.IH[OF rep1 _ _ this] True f nxt obtain q' h' where
        ih: "wake_loop push key n (wn_next (h x)) (Suc woken) q1 h1 s1 = Some (Suc woken + length w1, q', h', s')"
          "queue_rep (q', h') (kept @ r)" "wq_head q' = wq_head q" "\<forall>x\<in>set w1. wn_woken (h' x)"
          "\<forall>y. wn_key (h' y) = wn_key (h y) \<and> wn_thread (h' y) = wn_thread (h y) \<and>
               (y \<notin> set w1 \<longrightarrow> wn_woken (h' y) = wn_woken (h1 y))"
        by auto
      have "wn_woken (h' y)" if "y \<in> set w" for y using that w1 ih(4,5) f(4) by auto
      with ih w1 f show ?thesis
        using True ok s1 node qh1 by (subst wake_loop.simps) auto
    next
      case no: False
      let ?s1 = "if ?m then snd (try_make_runnable push s (wn_thread (h x))) else s"
      from Cons.prems(4) True no obtain r1 where
        r1: "r = x # r1" "wake_list push key (n - woken) h xs ?s1 = (r1, w, s')"
        by (auto split: prod.splits if_splits)
      from Cons.IH[of q h "kept @ [x]" woken "hd (xs @ [wq_head q])" ?s1] Cons.prems r1 nxt obtain q' h' where
        ih: "wake_loop push key n (wn_next (h x)) woken q h ?s1 = Some (woken + length w, q', h', s')"
          "queue_rep (q', h') (kept @ r)" "wq_head q' = wq_head q" "\<forall>x\<in>set w. wn_woken (h' x)"
          "\<forall>y. wn_key (h' y) = wn_key (h y) \<and> wn_thread (h' y) = wn_thread (h y) \<and>
               (y \<notin> set w \<longrightarrow> wn_woken (h' y) = wn_woken (h y))"
        by auto
      then show ?thesis
        using True no node by (subst wake_loop.simps) (auto simp: Let_def case_prod_unfold)
    qed
  qed
qed

lemma wake_n_matching_rep:
  assumes "wq_rep sentinel (q, h) ns" "wake_list push key n h ns s = (r, w, s')" "sentinel \<notin> set ns"
  shows "\<exists>q' h'. wake_n_matching push sentinel key n (q, h) s = Some (length w, q', h', s') \<and>
     wq_rep sentinel (q', h') r \<and> (\<forall>x \<in> set w. wn_woken (h' x)) \<and>
     (\<forall>x \<in> set r. wn_woken (h' x) = wn_woken (h x))"
proof (cases "n = 0")
  case True
  with assms show ?thesis by (auto simp: wake_n_matching_def)
next
  case False
  obtain q1 h1 where i: "ensure_initialized sentinel (q, h) = (q1, h1)" by fastforce
  have rep1: "queue_rep (q1, h1) ns" and hd1: "wq_head q1 = sentinel"
    using ensure_initialized_rep[OF assms(1)] i by auto
  have same: "h1 x = h x" if "x \<noteq> sentinel" for x
    using i that by (auto simp: ensure_initialized_def split: if_splits)
  have "wake_list push key n h1 ns s = (r, w, s')"
    using wake_list_cong[of ns h1 h push key n s] same assms(2,3) by fastforce
  moreover have "wn_next (h1 sentinel) = hd (ns @ [sentinel])"
    using rep1 hd1 chain_next[of h1 sentinel ns sentinel] by (simp add: queue_rep_def)
  ultimately obtain q' h' where
    l: "wake_loop push key n (wn_next (h1 sentinel)) 0 q1 h1 s = Some (length w, q', h', s')"
      "queue_rep (q', h') r" "wq_head q' = sentinel" "\<forall>x\<in>set w. wn_woken (h' x)"
      "\<forall>x. x \<notin> set w \<longrightarrow> wn_woken (h' x) = wn_woken (h1 x)"
    using wake_loop_rep[of q1 h1 "[]" ns 0 n _ push key s r w s'] rep1 hd1 by auto
  have "set r \<inter> set w = {}" "set r \<subseteq> set ns"
    using wake_list_disjoint[OF assms(2)] wake_list_partition[OF assms(2)] rep1
    by (auto simp: queue_rep_def)
  then have "\<forall>x \<in> set r. wn_woken (h' x) = wn_woken (h x)"
    using l(5) same assms(3) by (metis disjoint_iff subset_iff)
  with l hd1 assms(1) i False show ?thesis by (auto simp: wake_n_matching_def wq_rep_def)
qed

section \<open>Requeueing\<close>

fun requeue_list :: "nat \<Rightarrow> nat \<Rightarrow> node_store \<Rightarrow> nat list \<Rightarrow> nat list \<times> nat list" where
  "requeue_list key n h [] = ([], [])"
| "requeue_list key n h (x # xs) =
     (if n = 0 then (x # xs, [])
      else if wn_key (h x) = key then (let (r, m) = requeue_list key (n - 1) h xs in (r, x # m))
      else (let (r, m) = requeue_list key n h xs in (x # r, m)))"

lemma requeue_list_cong:
  "(\<And>x. x \<in> set xs \<Longrightarrow> wn_key (h' x) = wn_key (h x)) \<Longrightarrow>
   requeue_list key n h' xs = requeue_list key n h xs"
  by (induction xs arbitrary: n) (auto simp: Let_def)

lemma queue_rep_frame:
  assumes "\<And>x. x \<in> set (wq_head q # ns) \<Longrightarrow> wn_next (h' x) = wn_next (h x) \<and> wn_prev (h' x) = wn_prev (h x)"
  shows "queue_rep (q, h') ns = queue_rep (q, h) ns"
proof -
  have "chain h' (wq_head q) ns (wq_head q) = chain h (wq_head q) ns (wq_head q)"
    by (rule chain_cong) (use assms in auto)
  then show ?thesis by (simp add: queue_rep_def)
qed

lemma dequeue_raw_outside:
  assumes "queue_rep (q, h) ns" "x \<in> set ns" "y \<notin> set (wq_head q # ns)"
  shows "snd (dequeue_raw x (q, h)) y = h y"
proof -
  from assms(2) obtain xs ys where ns: "ns = xs @ x # ys" by (auto simp: in_set_conv_decomp)
  have "wn_prev (h x) = last (wq_head q # xs)" "wn_next (h x) = hd (ys @ [wq_head q])"
    using assms(1) ns chain_prev[of h _ xs x] chain_next[of h x ys] by (auto simp: queue_rep_def chain_append)
  moreover have "last (wq_head q # xs) \<in> set (wq_head q # xs)" "hd (ys @ [wq_head q]) \<in> set (ys @ [wq_head q])"
    by (rule last_in_set hd_in_set; simp)+
  ultimately have "y \<noteq> wn_prev (h x)" "y \<noteq> wn_next (h x)" "y \<noteq> x"
    using assms(2,3) ns by (auto simp del: last.simps)
  then show ?thesis by (simp add: dequeue_raw_def Let_def)
qed

lemma enqueue_raw_outside:
  assumes "queue_rep (q, h) ns" "y \<notin> set (node # wq_head q # ns)"
  shows "snd (enqueue_raw node (q, h)) y = h y"
proof -
  have "wn_prev (h (wq_head q)) = last (wq_head q # ns)"
    using assms(1) chain_prev by (auto simp: queue_rep_def)
  moreover have "last (wq_head q # ns) \<in> set (wq_head q # ns)" by (rule last_in_set) simp
  ultimately have "y \<noteq> wn_prev (h (wq_head q))" using assms(2) by auto
  with assms(2) show ?thesis by (simp add: enqueue_raw_def Let_def)
qed

lemma enqueue_raw_fields:
  "wq_head (fst (enqueue_raw x (q, h))) = wq_head q"
  "wn_key (snd (enqueue_raw x (q, h)) y) = wn_key (h y)"
  "wn_thread (snd (enqueue_raw x (q, h)) y) = wn_thread (h y)"
  by (simp_all add: enqueue_raw_def Let_def)

text \<open>Moving one node from a queue to another keeps both.\<close>

lemma requeue_step:
  assumes src: "queue_rep (src, h) (xs @ x # ys)" and dst: "queue_rep (dst, h) ds"
    and dis: "set (wq_head src # xs @ x # ys) \<inter> set (wq_head dst # ds) = {}"
    and room: "length ds < U32_MAX"
    and d: "dequeue_raw x (src, h) = (src', h1)"
    and e: "enqueue_raw x (dst, h1(x := (h1 x)\<lparr>wn_key := k, wn_woken := False\<rparr>)) = (dst', h3)"
  shows "queue_rep (src', h3) (xs @ ys)" "queue_rep (dst', h3) (ds @ [x])"
    "wq_head src' = wq_head src" "wq_head dst' = wq_head dst"
    "\<And>y. wn_key (h3 y) = (if y = x then k else wn_key (h y))"
proof -
  let ?h2 = "h1(x := (h1 x)\<lparr>wn_key := k, wn_woken := False\<rparr>)"
  have h1: "queue_rep (src', h1) (xs @ ys)" "wq_head src' = wq_head src" "\<And>y. wn_key (h1 y) = wn_key (h y)"
    using dequeue_raw_rep(1)[OF src] dequeue_raw_fields[of x src h] d by auto
  have h1d: "h1 y = h y" if "y \<in> set (wq_head dst # ds)" for y
    using dequeue_raw_outside[OF src, of x y] d that dis by auto
  have "x \<notin> set (wq_head dst # ds)" using dis by auto
  then have "queue_rep (dst, ?h2) ds = queue_rep (dst, h) ds"
    by (intro queue_rep_frame) (use h1d in auto)
  with dst have dst2: "queue_rep (dst, ?h2) ds" by simp
  have x: "x \<noteq> 0" "x \<noteq> wq_head dst" "x \<notin> set ds" using src dis by (auto simp: queue_rep_def)
  from enqueue_raw_rep[OF dst2 x room] e show "queue_rep (dst', h3) (ds @ [x])" by simp
  have h3: "h3 y = ?h2 y" if "y \<notin> set (x # wq_head dst # ds)" for y
    using enqueue_raw_outside[OF dst2 that] e by simp
  have "distinct (wq_head src # xs @ x # ys)" using src by (simp add: queue_rep_def)
  then have "h3 y = h1 y" if "y \<in> set (wq_head src # xs @ ys)" for y
    using h3[of y] that dis by auto
  then show "queue_rep (src', h3) (xs @ ys)" using queue_rep_frame[of src' "xs @ ys" h3 h1] h1 by auto
  show "wq_head src' = wq_head src" "wq_head dst' = wq_head dst"
    using h1 enqueue_raw_fields(1)[of x dst ?h2] e by auto
  show "wn_key (h3 y) = (if y = x then k else wn_key (h y))" for y
    using enqueue_raw_fields(2)[of x dst ?h2 y] e h1 by auto
qed

lemma requeue_loop_rep:
  assumes "queue_rep (src, h) (kept @ rest)" "queue_rep (dst, h) ds"
    and "set (wq_head src # kept @ rest) \<inter> set (wq_head dst # ds) = {}"
    and "length ds + length rest \<le> U32_MAX" "moved \<le> n" "node = hd (rest @ [wq_head src])"
    and "requeue_list key (n - moved) h rest = (r, m)"
  shows "\<exists>src' dst' h'. requeue_loop key new_key n node moved src dst h = Some (moved + length m, src', dst', h') \<and>
     queue_rep (src', h') (kept @ r) \<and> queue_rep (dst', h') (ds @ m) \<and>
     wq_head src' = wq_head src \<and> wq_head dst' = wq_head dst \<and>
     (\<forall>y. wn_key (h' y) = (if y \<in> set m then new_key else wn_key (h y)))"
  using assms
proof (induction rest arbitrary: kept moved node src dst ds h r m)
  case Nil
  then show ?case by (subst requeue_loop.simps) auto
next
  case (Cons x xs)
  show ?case
  proof (cases "moved < n")
    case False
    with Cons.prems show ?thesis by (subst requeue_loop.simps) auto
  next
    case True
    have node: "node = x" "x \<noteq> wq_head src" and nxt: "wn_next (h x) = hd (xs @ [wq_head src])"
      and dist: "x \<notin> set xs" "x \<notin> set kept"
      using Cons.prems chain_next[of h x xs] by (auto simp: queue_rep_def chain_append)
    show ?thesis
    proof (cases "wn_key (h x) = key")
      case hit: True
      obtain src1 h1 where d: "dequeue_raw x (src, h) = (src1, h1)" by fastforce
      obtain dst1 h3 where e: "enqueue_raw x (dst, h1(x := (h1 x)\<lparr>wn_key := new_key, wn_woken := False\<rparr>)) = (dst1, h3)"
        by fastforce
      have room: "length ds < U32_MAX" using Cons.prems(4) by simp
      note st = requeue_step[OF Cons.prems(1-3) room d e]
      from Cons.prems(7) True hit obtain m1 where
        m1: "m = x # m1" "requeue_list key (n - Suc moved) h xs = (r, m1)"
        by (auto split: prod.splits)
      have "requeue_list key (n - Suc moved) h3 xs = (r, m1)"
        using m1(2) st(5) dist requeue_list_cong[of xs h3 h] by fastforce
      from Cons.IH[OF st(1,2) _ _ _ _ this] Cons.prems(3,4) True st(3,4) nxt node dist obtain src' dst' h' where
        ih: "requeue_loop key new_key n (wn_next (h x)) (Suc moved) src1 dst1 h3 =
               Some (Suc moved + length m1, src', dst', h')"
          "queue_rep (src', h') (kept @ r)" "queue_rep (dst', h') ((ds @ [x]) @ m1)"
          "wq_head src' = wq_head src" "wq_head dst' = wq_head dst"
          "\<forall>y. wn_key (h' y) = (if y \<in> set m1 then new_key else wn_key (h3 y))"
        by auto
      have "\<forall>y. wn_key (h' y) = (if y \<in> set m then new_key else wn_key (h y))"
        using ih(6) st(5) m1 by auto
      with ih m1 show ?thesis
        using True hit node d e by (subst requeue_loop.simps) (auto simp: Let_def)
    next
      case miss: False
      from Cons.prems(7) True miss obtain r1 where
        r1: "r = x # r1" "requeue_list key (n - moved) h xs = (r1, m)"
        by (auto split: prod.splits)
      from Cons.IH[of src h "kept @ [x]" dst ds moved "wn_next (h x)" r1 m] Cons.prems r1 nxt show ?thesis
        using True miss node by (subst requeue_loop.simps) (auto simp: Let_def)
    qed
  qed
qed

lemma rekey_loop_rep:
  assumes "queue_rep (q, h) (kept @ rest)" "moved \<le> n" "node = hd (rest @ [wq_head q])"
    and "requeue_list key (n - moved) h rest = (r, m)"
  shows "\<exists>h'. rekey_loop (wq_head q) key new_key n node moved h = Some (moved + length m, h') \<and>
     queue_rep (q, h') (kept @ rest) \<and>
     (\<forall>y. wn_key (h' y) = (if y \<in> set m then new_key else wn_key (h y)))"
  using assms
proof (induction rest arbitrary: kept moved node h r m)
  case Nil
  then show ?case by (subst rekey_loop.simps) auto
next
  case (Cons x xs)
  have node: "node = x" "x \<noteq> wq_head q" and nxt: "wn_next (h x) = hd (xs @ [wq_head q])"
    and dist: "x \<notin> set xs"
    using Cons.prems chain_next[of h x xs] by (auto simp: queue_rep_def chain_append)
  show ?case
  proof (cases "moved < n \<and> wn_key (h x) = key")
    case True
    let ?h = "h(x := (h x)\<lparr>wn_key := new_key\<rparr>)"
    from Cons.prems(4) True obtain m1 where
      m1: "m = x # m1" "requeue_list key (n - Suc moved) h xs = (r, m1)"
      by (auto split: prod.splits)
    have rl: "requeue_list key (n - Suc moved) ?h xs = (r, m1)"
      using m1(2) dist requeue_list_cong[of xs ?h h] by fastforce
    have rp: "queue_rep (q, ?h) ((kept @ [x]) @ xs)"
      using queue_rep_frame[of q "kept @ x # xs" ?h h] Cons.prems(1) by simp
    obtain h' where
      "rekey_loop (wq_head q) key new_key n (wn_next (h x)) (Suc moved) ?h = Some (Suc moved + length m1, h')"
      "queue_rep (q, h') (kept @ x # xs)"
      "\<forall>y. wn_key (h' y) = (if y \<in> set m1 then new_key else wn_key (?h y))"
      using Cons.IH[OF rp _ refl rl] True nxt by (auto simp del: fun_upd_apply)
    with m1 True node show ?thesis by (subst rekey_loop.simps) (auto simp: Let_def)
  next
    case False
    show ?thesis
    proof (cases "moved < n")
      case True
      with Cons.prems(4) False obtain r1 where
        "r = x # r1" "requeue_list key (n - moved) h xs = (r1, m)" by (auto split: prod.splits)
      with Cons.IH[of h "kept @ [x]" moved "wn_next (h x)" r1 m] Cons.prems nxt True False node
      show ?thesis by (subst rekey_loop.simps) auto
    qed (use Cons.prems in \<open>subst rekey_loop.simps, auto\<close>)
  qed
qed

lemma ensure_initialized_frame:
  assumes "ensure_initialized sentinel (q, h) = (q', h')" "y \<noteq> sentinel"
  shows "h' y = h y"
  using assms by (auto simp: ensure_initialized_def split: if_splits)

lemma wq_rep_set: "wq_rep sentinel qh ns \<Longrightarrow> queue_rep (ensure_initialized sentinel qh) ns \<and> sentinel \<notin> set ns"
  using ensure_initialized_rep[of sentinel qh ns] by (auto simp: queue_rep_def split: prod.splits)

lemma requeue_matching_rep:
  assumes src: "wq_rep s1 (src, h) ns" and dst: "wq_rep s2 (dst, h) ds"
    and dis: "set (s1 # ns) \<inter> set (s2 # ds) = {}" and room: "length ds + length ns \<le> U32_MAX"
    and l: "requeue_list key n h ns = (stay, moved)" and n: "n \<noteq> 0"
  shows "\<exists>src' dst' h'. requeue_matching s1 s2 key new_key n (src, dst, h) =
       Some (length moved, src', dst', h') \<and>
     wq_rep s1 (src', h') stay \<and> wq_rep s2 (dst', h') (ds @ moved) \<and>
     (\<forall>y \<in> set moved. wn_key (h' y) = new_key)"
proof -
  obtain q1 h1 where i1: "ensure_initialized s1 (src, h) = (q1, h1)" by fastforce
  obtain q2 h2 where i2: "ensure_initialized s2 (dst, h1) = (q2, h2)" by fastforce
  note f1 = ensure_initialized_frame[OF i1] and f2 = ensure_initialized_frame[OF i2]
  have f1': "h1 y = h y" if "y \<in> set (s2 # ds)" for y using f1[of y] that dis by auto
  have f2': "h2 y = h1 y" if "y \<in> set (s1 # ns)" for y using f2[of y] that dis by auto
  have r1: "queue_rep (q1, h1) ns" "wq_head q1 = s1" using ensure_initialized_rep[OF src] i1 by auto
  have "queue_rep (dst, h1) ds = queue_rep (dst, h) ds" if "wq_head dst = s2"
    by (rule queue_rep_frame) (use that f1' in auto)
  with dst have "wq_rep s2 (dst, h1) ds" by (auto simp: wq_rep_def)
  then have r2: "queue_rep (q2, h2) ds" "wq_head q2 = s2" using ensure_initialized_rep i2 by fastforce+
  have "queue_rep (q1, h2) ns = queue_rep (q1, h1) ns"
    by (rule queue_rep_frame) (use r1(2) f2' in auto)
  with r1 have r1': "queue_rep (q1, h2) ns" by simp
  have "s1 \<notin> set ns" using r1 by (auto simp: queue_rep_def)
  then have "requeue_list key n h2 ns = (stay, moved)"
    using l dis f1 f2 requeue_list_cong[of ns h2 h key n]
    by (metis IntI empty_iff list.set_intros(1) list.set_intros(2))
  moreover have "wn_next (h2 s1) = hd (ns @ [s1])"
    using r1' r1(2) chain_next[of h2 s1 ns s1] by (simp add: queue_rep_def)
  ultimately obtain src' dst' h' where
    "requeue_loop key new_key n (wn_next (h2 (wq_head q1))) 0 q1 q2 h2 = Some (length moved, src', dst', h')"
    "queue_rep (src', h') stay" "queue_rep (dst', h') (ds @ moved)"
    "wq_head src' = s1" "wq_head dst' = s2"
    "\<forall>y. wn_key (h' y) = (if y \<in> set moved then new_key else wn_key (h2 y))"
    using requeue_loop_rep[of q1 h2 "[]" ns q2 ds 0 n "wn_next (h2 s1)" key stay moved new_key]
      r1' r2 r1(2) dis room by (auto simp: Int_commute)
  with i1 i2 n src dst show ?thesis
    by (auto simp: requeue_matching_def wq_rep_def)
qed

section \<open>Main properties\<close>

text \<open>
  C16: waking is list removal.  On a wait queue that represents the node list
  \<open>ns\<close>, \<open>wake_n_matching\<close> returns (its traversal of the circular list ends), the
  count it returns is the number of nodes the list operation \<open>wake_list\<close> selects,
  at most \<open>n\<close>, the queue afterwards represents exactly the nodes that stay, in
  their order, and precisely the selected nodes get their \<open>woken\<close> flag.
\<close>

theorem wake_n_matching_refines:
  assumes "wq_rep sentinel (q, h) ns" "sentinel \<notin> set ns"
    and "wake_list push key n h ns s = (stay, woken, s')"
  shows "\<exists>q' h'. wake_n_matching push sentinel key n (q, h) s = Some (length woken, q', h', s') \<and>
     length woken \<le> n \<and> wq_rep sentinel (q', h') stay \<and>
     (\<forall>x \<in> set woken. wn_woken (h' x)) \<and> (\<forall>x \<in> set stay. wn_woken (h' x) = wn_woken (h x))"
  using wake_n_matching_rep[OF assms(1,3,2)] wake_list_partition[OF assms(3)] by blast

text \<open>A store with two queued nodes, built by the operations themselves.\<close>

definition demo_queue :: "WaitQueueInner \<times> node_store" where
  "demo_queue =
     wq_enqueue 1 3 (wq_enqueue 1 2 (WaitQueueInner_new, (\<lambda>a. WaitNode_new (10 + a))))"

lemma demo_queue_rep: "wq_rep 1 demo_queue [2, 3]"
  by (simp add: demo_queue_def wq_enqueue_def enqueue_raw_def ensure_initialized_def
      WaitQueueInner_new_def WaitNode_new_def wq_rep_def queue_rep_def Let_def)

theorem wake_n_matching_refines_witness:
  "\<exists>q' h'. wake_n_matching (\<lambda>s t. (t = 13, s)) 1 0 1 demo_queue () = Some (1, q', h', ()) \<and>
     wq_rep 1 (q', h') [2] \<and> wn_woken (h' 3)"
proof -
  have "wake_list (\<lambda>s t. (t = 13, s)) 0 1 (snd demo_queue) [2, 3] () = ([2], [3], ())"
    by (simp add: demo_queue_def wq_enqueue_def enqueue_raw_def ensure_initialized_def
        WaitQueueInner_new_def WaitNode_new_def try_make_runnable_def Let_def)
  then show ?thesis
    using wake_n_matching_refines[of 1 "fst demo_queue" "snd demo_queue" "[2, 3]"] demo_queue_rep
    by fastforce
qed

end
