(* ===== verification/Pipe.thy ===== *)
theory Pipe
  imports Pipe_Ring Wait_Queue
begin

text \<open>
  Anonymous pipes under concurrency (\<open>crates/fs/src/pipe.rs\<close>).  The control block
  is a record; every thread inside \<open>pipe_read\<close>, \<open>pipe_write\<close> or one of the release
  functions has a program counter, and one step of a thread is one of the atomic
  actions of the source: a load or increment of a sequence counter, the section
  under the ring lock, a load of a reference count, the section under a wait-queue
  lock.  Wait queues are the lists of blocked threads (theory \<open>Wait_Queue\<close> shows
  that the linked queues implement them).  Whether the scheduler accepts a thread
  that is being woken is the parameter \<open>ok\<close>.
\<close>

type_synonym tid = nat

record 'b Pipe =
  ring :: PipeRing
  data :: "'b list"
  read_waiters :: "tid list"
  write_waiters :: "tid list"
  read_seq :: u32
  write_seq :: u32
  read_refs :: u32
  write_refs :: u32

datatype 'b pc =
    Idle
  | RTop "'b list" | RRing "'b list" u32 | RBump nat "'b list" | RWake nat "'b list"
  | RLive "'b list" u32 | RPark "'b list" u32 | RSleep "'b list" | RRet int "'b list"
  | WEnter "'b list" | WTop "'b list" | WRing "'b list" u32 | WBump nat | WWake nat
  | WLive "'b list" u32 | WPark "'b list" u32 | WSleep "'b list" | WRet int
  | CRead | CReadBump | CReadWake | CWrite | CWriteBump | CWriteWake | CDone

text \<open>The two lists are ghost state: the bytes accepted from writers and handed to readers so far.\<close>

record 'b psys =
  pipe :: "'b Pipe"
  pcs :: "tid \<Rightarrow> 'b pc"
  sent :: "'b list"
  received :: "'b list"

definition goto :: "tid \<Rightarrow> 'b pc \<Rightarrow> 'b psys \<Rightarrow> 'b psys" where
  "goto t c s = s\<lparr>pcs := (pcs s)(t := c)\<rparr>"

fun resume_reader :: "'b pc \<Rightarrow> 'b pc" where
  "resume_reader (RSleep buf) = RTop buf"
| "resume_reader c = c"

fun resume_writer :: "'b pc \<Rightarrow> 'b pc" where
  "resume_writer (WSleep src) = WTop src"
| "resume_writer c = c"

text \<open>A wake of at most \<open>n\<close> blocked threads, as a list operation; the woken threads leave \<open>thread_block_if\<close>.\<close>

definition wake_waiters :: "(tid \<Rightarrow> bool) \<Rightarrow> nat \<Rightarrow> tid list \<Rightarrow> tid list \<times> tid list" where
  "wake_waiters ok n ws =
     (case wake_list (\<lambda>u t. (ok t, u)) 0 n WaitNode_new ws () of (stay, woken, _) \<Rightarrow> (stay, woken))"

definition wake_readers :: "(tid \<Rightarrow> bool) \<Rightarrow> nat \<Rightarrow> 'b psys \<Rightarrow> 'b psys" where
  "wake_readers ok n s =
     (let (stay, woken) = wake_waiters ok n (read_waiters (pipe s)) in
      s\<lparr>pipe := (pipe s)\<lparr>read_waiters := stay\<rparr>,
        pcs := (\<lambda>t. if t \<in> set woken then resume_reader (pcs s t) else pcs s t)\<rparr>)"

definition wake_writers :: "(tid \<Rightarrow> bool) \<Rightarrow> nat \<Rightarrow> 'b psys \<Rightarrow> 'b psys" where
  "wake_writers ok n s =
     (let (stay, woken) = wake_waiters ok n (write_waiters (pipe s)) in
      s\<lparr>pipe := (pipe s)\<lparr>write_waiters := stay\<rparr>,
        pcs := (\<lambda>t. if t \<in> set woken then resume_writer (pcs s t) else pcs s t)\<rparr>)"

section \<open>Reading\<close>

text \<open>The section under the ring lock, and the branch on its outcome.\<close>

definition read_locked :: "tid \<Rightarrow> 'b list \<Rightarrow> u32 \<Rightarrow> 'b psys \<Rightarrow> 'b psys" where
  "read_locked t buf snap s =
     (let p = pipe s in
      if ring_is_empty (ring p) then goto t (RLive buf snap) s
      else
        (let was_full = ring_is_full (ring p);
             (n, buf', ring') = read_into (ring p) (data p) buf;
             s' = s\<lparr>pipe := p\<lparr>ring := ring'\<rparr>, received := received s @ take n buf'\<rparr>
         in if n > 0 then goto t (if was_full then RBump n buf' else RRet (int n) buf') s'
            else goto t (RLive buf' snap) s'))"

definition pipe_read_step :: "(tid \<Rightarrow> bool) \<Rightarrow> tid \<Rightarrow> 'b psys \<Rightarrow> 'b psys option" where
  "pipe_read_step ok t s =
     (let p = pipe s in
      case pcs s t of
        RTop buf \<Rightarrow> Some (goto t (RRing buf (read_seq p)) s)
      | RRing buf snap \<Rightarrow> Some (read_locked t buf snap s)
      | RBump n buf \<Rightarrow> Some (goto t (RWake n buf) (s\<lparr>pipe := p\<lparr>write_seq := write_seq p + 1\<rparr>\<rparr>))
      | RWake n buf \<Rightarrow> Some (goto t (RRet (int n) buf) (wake_writers ok 1 s))
      | RLive buf snap \<Rightarrow>
          (case reader_step_when_empty (write_refs p > 0) of
             ReturnR v \<Rightarrow> Some (goto t (RRet v buf) s)
           | BlockR \<Rightarrow> Some (goto t (RPark buf snap) s))
      | RPark buf snap \<Rightarrow>
          (if read_seq p = snap
           then Some (goto t (RSleep buf) (s\<lparr>pipe := p\<lparr>read_waiters := read_waiters p @ [t]\<rparr>\<rparr>))
           else Some (goto t (RTop buf) s))
      | _ \<Rightarrow> None)"

section \<open>Writing\<close>

definition write_locked :: "tid \<Rightarrow> 'b list \<Rightarrow> u32 \<Rightarrow> 'b psys \<Rightarrow> 'b psys" where
  "write_locked t src snap s =
     (let p = pipe s in
      if ring_is_full (ring p) then goto t (WLive src snap) s
      else
        (let was_empty = ring_is_empty (ring p);
             (n, data', ring') = write_from (ring p) (data p) src;
             s' = s\<lparr>pipe := p\<lparr>ring := ring', data := data'\<rparr>, sent := sent s @ take n src\<rparr>
         in if n > 0 then goto t (if was_empty then WBump n else WRet (int n)) s'
            else goto t (WLive src snap) s'))"

definition pipe_write_step :: "(tid \<Rightarrow> bool) \<Rightarrow> tid \<Rightarrow> 'b psys \<Rightarrow> 'b psys option" where
  "pipe_write_step ok t s =
     (let p = pipe s in
      case pcs s t of
        WEnter src \<Rightarrow> Some (goto t (if read_refs p = 0 then WRet EPIPE else WTop src) s)
      | WTop src \<Rightarrow> Some (goto t (WRing src (write_seq p)) s)
      | WRing src snap \<Rightarrow> Some (write_locked t src snap s)
      | WBump n \<Rightarrow> Some (goto t (WWake n) (s\<lparr>pipe := p\<lparr>read_seq := read_seq p + 1\<rparr>\<rparr>))
      | WWake n \<Rightarrow> Some (goto t (WRet (int n)) (wake_readers ok 1 s))
      | WLive src snap \<Rightarrow>
          (case writer_step_when_full (read_refs p > 0) of
             ReturnW v \<Rightarrow> Some (goto t (WRet v) s)
           | BlockW \<Rightarrow> Some (goto t (WPark src snap) s))
      | WPark src snap \<Rightarrow>
          (if write_seq p = snap
           then Some (goto t (WSleep src) (s\<lparr>pipe := p\<lparr>write_waiters := write_waiters p @ [t]\<rparr>\<rparr>))
           else Some (goto t (WTop src) s))
      | _ \<Rightarrow> None)"

section \<open>Closing an end\<close>

definition pipe_read_release_step :: "(tid \<Rightarrow> bool) \<Rightarrow> tid \<Rightarrow> 'b psys \<Rightarrow> 'b psys option" where
  "pipe_read_release_step ok t s =
     (let p = pipe s in
      case pcs s t of
        CRead \<Rightarrow>
          Some (goto t (if read_refs p = 1 then CReadBump else CDone)
                  (s\<lparr>pipe := p\<lparr>read_refs := read_refs p - 1\<rparr>\<rparr>))
      | CReadBump \<Rightarrow> Some (goto t CReadWake (s\<lparr>pipe := p\<lparr>write_seq := write_seq p + 1\<rparr>\<rparr>))
      | CReadWake \<Rightarrow> Some (goto t CDone (wake_writers ok U32_MAX s))
      | _ \<Rightarrow> None)"

definition pipe_write_release_step :: "(tid \<Rightarrow> bool) \<Rightarrow> tid \<Rightarrow> 'b psys \<Rightarrow> 'b psys option" where
  "pipe_write_release_step ok t s =
     (let p = pipe s in
      case pcs s t of
        CWrite \<Rightarrow>
          Some (goto t (if write_refs p = 1 then CWriteBump else CDone)
                  (s\<lparr>pipe := p\<lparr>write_refs := write_refs p - 1\<rparr>\<rparr>))
      | CWriteBump \<Rightarrow> Some (goto t CWriteWake (s\<lparr>pipe := p\<lparr>read_seq := read_seq p + 1\<rparr>\<rparr>))
      | CWriteWake \<Rightarrow> Some (goto t CDone (wake_readers ok U32_MAX s))
      | _ \<Rightarrow> None)"

section \<open>The system\<close>

text \<open>The control block as \<open>sys_pipe\<close> writes it: an empty ring over the data frame, one descriptor per end.\<close>

definition sys_pipe_init :: "'b list \<Rightarrow> 'b psys" where
  "sys_pipe_init frame =
     \<lparr>pipe = \<lparr>ring = PipeRing_new, data = frame, read_waiters = [], write_waiters = [],
              read_seq = 0, write_seq = 0, read_refs = 1, write_refs = 1\<rparr>,
      pcs = (\<lambda>_. Idle), sent = [], received = []\<rparr>"

fun entry :: "'b pc \<Rightarrow> bool" where
  "entry (RTop _) \<longleftrightarrow> True"
| "entry (WEnter _) \<longleftrightarrow> True"
| "entry CRead \<longleftrightarrow> True"
| "entry CWrite \<longleftrightarrow> True"
| "entry _ \<longleftrightarrow> False"

fun outside :: "'b pc \<Rightarrow> bool" where
  "outside Idle \<longleftrightarrow> True"
| "outside (RRet _ _) \<longleftrightarrow> True"
| "outside (WRet _) \<longleftrightarrow> True"
| "outside CDone \<longleftrightarrow> True"
| "outside _ \<longleftrightarrow> False"

text \<open>
  Executions of \<open>n\<close> steps.  A thread outside the pipe code may call in (which calls
  are made is the parameter \<open>calls\<close>); an open descriptor may be duplicated.
\<close>

inductive pipe_run :: "(tid \<Rightarrow> bool) \<Rightarrow> (tid \<Rightarrow> 'b pc \<Rightarrow> bool) \<Rightarrow> nat \<Rightarrow> 'b psys \<Rightarrow> bool"
  for ok calls
where
  run_init: "length frame = PIPE_BUF_SIZE \<Longrightarrow> pipe_run ok calls 0 (sys_pipe_init frame)"
| run_call: "pipe_run ok calls n s \<Longrightarrow> outside (pcs s t) \<Longrightarrow> entry c \<Longrightarrow> calls t c \<Longrightarrow>
    pipe_run ok calls (Suc n) (goto t c s)"
| run_read: "pipe_run ok calls n s \<Longrightarrow> pipe_read_step ok t s = Some s' \<Longrightarrow> pipe_run ok calls (Suc n) s'"
| run_write: "pipe_run ok calls n s \<Longrightarrow> pipe_write_step ok t s = Some s' \<Longrightarrow> pipe_run ok calls (Suc n) s'"
| run_rclose: "pipe_run ok calls n s \<Longrightarrow> pipe_read_release_step ok t s = Some s' \<Longrightarrow>
    pipe_run ok calls (Suc n) s'"
| run_wclose: "pipe_run ok calls n s \<Longrightarrow> pipe_write_release_step ok t s = Some s' \<Longrightarrow>
    pipe_run ok calls (Suc n) s'"
| run_dup_read: "pipe_run ok calls n s \<Longrightarrow> 0 < read_refs (pipe s) \<Longrightarrow> read_refs (pipe s) < - 1 \<Longrightarrow>
    pipe_run ok calls (Suc n) (s\<lparr>pipe := (pipe s)\<lparr>read_refs := read_refs (pipe s) + 1\<rparr>\<rparr>)"
| run_dup_write: "pipe_run ok calls n s \<Longrightarrow> 0 < write_refs (pipe s) \<Longrightarrow> write_refs (pipe s) < - 1 \<Longrightarrow>
    pipe_run ok calls (Suc n) (s\<lparr>pipe := (pipe s)\<lparr>write_refs := write_refs (pipe s) + 1\<rparr>\<rparr>)"

section \<open>The pipe is a byte stream\<close>

lemma goto_fields [simp]:
  "pipe (goto t c s) = pipe s" "sent (goto t c s) = sent s" "received (goto t c s) = received s"
  "pcs (goto t c s) = (pcs s)(t := c)"
  by (simp_all add: goto_def)

lemma wake_readers_fields [simp]:
  "ring (pipe (wake_readers ok n s)) = ring (pipe s)" "data (pipe (wake_readers ok n s)) = data (pipe s)"
  "sent (wake_readers ok n s) = sent s" "received (wake_readers ok n s) = received s"
  "read_seq (pipe (wake_readers ok n s)) = read_seq (pipe s)"
  "write_seq (pipe (wake_readers ok n s)) = write_seq (pipe s)"
  "write_refs (pipe (wake_readers ok n s)) = write_refs (pipe s)"
  "read_refs (pipe (wake_readers ok n s)) = read_refs (pipe s)"
  "write_waiters (pipe (wake_readers ok n s)) = write_waiters (pipe s)"
  by (simp_all add: wake_readers_def case_prod_unfold Let_def)

lemma wake_writers_fields [simp]:
  "ring (pipe (wake_writers ok n s)) = ring (pipe s)" "data (pipe (wake_writers ok n s)) = data (pipe s)"
  "sent (wake_writers ok n s) = sent s" "received (wake_writers ok n s) = received s"
  "read_seq (pipe (wake_writers ok n s)) = read_seq (pipe s)"
  "write_seq (pipe (wake_writers ok n s)) = write_seq (pipe s)"
  "write_refs (pipe (wake_writers ok n s)) = write_refs (pipe s)"
  "read_refs (pipe (wake_writers ok n s)) = read_refs (pipe s)"
  "read_waiters (pipe (wake_writers ok n s)) = read_waiters (pipe s)"
  by (simp_all add: wake_writers_def case_prod_unfold Let_def)

definition stream_inv :: "'b psys \<Rightarrow> bool" where
  "stream_inv s \<longleftrightarrow> ring_inv (ring (pipe s)) (data (pipe s)) \<and>
     sent s = received s @ ring_bytes (ring (pipe s)) (data (pipe s))"

lemma stream_inv_frame [simp]:
  "stream_inv (goto t c s) = stream_inv s"
  "stream_inv (s\<lparr>pipe := (pipe s)\<lparr>read_refs := v\<rparr>\<rparr>) = stream_inv s"
  "stream_inv (s\<lparr>pipe := (pipe s)\<lparr>write_refs := v\<rparr>\<rparr>) = stream_inv s"
  by (simp_all add: stream_inv_def)

lemma read_locked_stream:
  assumes "stream_inv s"
  shows "stream_inv (read_locked t buf snap s)"
proof -
  obtain n buf' r' where r: "read_into (ring (pipe s)) (data (pipe s)) buf = (n, buf', r')"
    by (metis prod_cases3)
  from assms have inv: "ring_inv (ring (pipe s)) (data (pipe s))" by (simp add: stream_inv_def)
  note sp = read_into_spec[OF inv r]
  have "take n buf' @ ring_bytes r' (data (pipe s)) = ring_bytes (ring (pipe s)) (data (pipe s))"
    using sp(1-3) by simp
  with assms r sp(4) show ?thesis
    by (auto simp: read_locked_def stream_inv_def Let_def)
qed

lemma write_locked_stream:
  assumes "stream_inv s"
  shows "stream_inv (write_locked t src snap s)"
proof -
  obtain n d' r' where w: "write_from (ring (pipe s)) (data (pipe s)) src = (n, d', r')"
    by (metis prod_cases3)
  from assms have inv: "ring_inv (ring (pipe s)) (data (pipe s))" by (simp add: stream_inv_def)
  from assms w write_from_spec[OF inv w] show ?thesis
    by (auto simp: write_locked_def stream_inv_def Let_def)
qed

lemmas step_defs = pipe_read_step_def pipe_write_step_def pipe_read_release_step_def
  pipe_write_release_step_def

lemma pipe_read_step_stream: "stream_inv s \<Longrightarrow> pipe_read_step ok t s = Some s' \<Longrightarrow> stream_inv s'"
  using read_locked_stream[of s t]
  by (auto simp: pipe_read_step_def Let_def stream_inv_def split: pc.splits ReaderStep.splits if_splits)

lemma pipe_write_step_stream: "stream_inv s \<Longrightarrow> pipe_write_step ok t s = Some s' \<Longrightarrow> stream_inv s'"
  using write_locked_stream[of s t]
  by (auto simp: pipe_write_step_def Let_def stream_inv_def split: pc.splits WriterStep.splits if_splits)

lemma release_stream:
  "stream_inv s \<Longrightarrow> pipe_read_release_step ok t s = Some s' \<Longrightarrow> stream_inv s'"
  "stream_inv s \<Longrightarrow> pipe_write_release_step ok t s = Some s' \<Longrightarrow> stream_inv s'"
  by (auto simp: step_defs Let_def stream_inv_def split: pc.splits if_splits)

lemma pipe_run_stream: "pipe_run ok calls n s \<Longrightarrow> stream_inv s"
proof (induction rule: pipe_run.induct)
  case (run_init frame)
  then show ?case by (simp add: stream_inv_def sys_pipe_init_def ring_inv_new)
qed (auto intro: pipe_read_step_stream pipe_write_step_stream release_stream)

section \<open>No wakeup is lost\<close>

text \<open>Threads that still owe the readers an increment of \<open>read_seq\<close>, or a wake.\<close>

fun owes_bump :: "'b pc \<Rightarrow> bool" where
  "owes_bump (WBump _) \<longleftrightarrow> True"
| "owes_bump CWriteBump \<longleftrightarrow> True"
| "owes_bump _ \<longleftrightarrow> False"

fun owes_wake :: "'b pc \<Rightarrow> bool" where
  "owes_wake (WWake _) \<longleftrightarrow> True"
| "owes_wake CWriteWake \<longleftrightarrow> True"
| "owes_wake _ \<longleftrightarrow> False"

definition bumpers :: "'b psys \<Rightarrow> tid set" where
  "bumpers s = {t. owes_bump (pcs s t)}"

definition wakers :: "'b psys \<Rightarrow> tid set" where
  "wakers s = {t. owes_wake (pcs s t)}"

fun reading :: "'b pc \<Rightarrow> bool" where
  "reading (RTop _) \<longleftrightarrow> True"
| "reading (RRing _ _) \<longleftrightarrow> True"
| "reading (RLive _ _) \<longleftrightarrow> True"
| "reading (RPark _ _) \<longleftrightarrow> True"
| "reading (RSleep _) \<longleftrightarrow> True"
| "reading _ \<longleftrightarrow> False"

definition nothing_to_read :: "'b Pipe \<Rightarrow> bool" where
  "nothing_to_read p \<longleftrightarrow> ring_len (ring p) = 0 \<and> 0 < write_refs p"

text \<open>What the sampled counter of the reading thread guarantees at each of its locations.\<close>

fun loc_ok :: "tid \<Rightarrow> 'b Pipe \<Rightarrow> bool \<Rightarrow> bool \<Rightarrow> 'b pc \<Rightarrow> bool" where
  "loc_ok r p bump wake (RTop buf) \<longleftrightarrow> buf \<noteq> []"
| "loc_ok r p bump wake (RRing buf snap) \<longleftrightarrow> buf \<noteq> [] \<and> snap \<le> read_seq p"
| "loc_ok r p bump wake (RLive buf snap) \<longleftrightarrow> buf \<noteq> [] \<and> snap \<le> read_seq p \<and>
     (ring_len (ring p) = 0 \<or> snap \<noteq> read_seq p \<or> bump)"
| "loc_ok r p bump wake (RPark buf snap) \<longleftrightarrow> buf \<noteq> [] \<and> snap \<le> read_seq p \<and>
     (nothing_to_read p \<or> snap \<noteq> read_seq p \<or> bump)"
| "loc_ok r p bump wake (RSleep buf) \<longleftrightarrow> buf \<noteq> [] \<and> read_waiters p = [r] \<and>
     (nothing_to_read p \<or> bump \<or> wake)"
| "loc_ok r p bump wake _ \<longleftrightarrow> True"

fun asleep :: "'b pc \<Rightarrow> bool" where
  "asleep (RSleep _) \<longleftrightarrow> True"
| "asleep _ \<longleftrightarrow> False"

definition reader_ok :: "tid \<Rightarrow> 'b psys \<Rightarrow> bool" where
  "reader_ok r s \<longleftrightarrow>
     loc_ok r (pipe s) (bumpers s \<noteq> {}) (wakers s \<noteq> {}) (pcs s r) \<and>
     (\<forall>t. reading (pcs s t) \<longrightarrow> t = r) \<and>
     (read_waiters (pipe s) \<noteq> [] \<longrightarrow> asleep (pcs s r))"

lemma loc_ok_outside: "\<not> reading c \<Longrightarrow> loc_ok r p b w c"
  by (cases c) auto

lemma loc_ok_mono: "loc_ok r p b w c \<Longrightarrow> (b \<Longrightarrow> b') \<Longrightarrow> (w \<Longrightarrow> w') \<Longrightarrow> loc_ok r p b' w' c"
  by (cases c) auto

lemma loc_ok_cong:
  "ring_len (ring p) = ring_len (ring p') \<Longrightarrow> read_seq p = read_seq p' \<Longrightarrow>
   write_refs p = write_refs p' \<Longrightarrow> read_waiters p = read_waiters p' \<Longrightarrow> loc_ok r p b w c = loc_ok r p' b w c"
  by (cases c) (auto simp: nothing_to_read_def)

lemma asleep_reading: "asleep c \<Longrightarrow> reading c"
  by (cases c) auto

lemma seq_bump:
  fixes q v :: u32
  assumes "v \<le> q" "q \<noteq> - 1"
  shows "v \<le> q + 1" "v \<noteq> q + 1"
proof -
  from assms(2) have "1 + q \<noteq> 0" by (metis add.commute eq_neg_iff_add_eq_0)
  then have "unat (q + 1) = Suc (unat q)" using unatSuc[of q] by (simp add: add.commute)
  with assms(1) have "unat v < unat (q + 1)" by (simp add: word_le_nat_alt)
  then show "v \<le> q + 1" "v \<noteq> q + 1" by (auto simp: word_le_nat_alt)
qed

lemma refs_dec: fixes v :: u32 shows "0 < v \<Longrightarrow> v \<noteq> 1 \<Longrightarrow> 0 < v - 1"
  by (simp add: word_greater_zero_iff)

lemma refs_inc: fixes v :: u32 shows "v < - 1 \<Longrightarrow> 0 < v + 1"
  by (metis add.commute eq_neg_iff_add_eq_0 less_irrefl word_greater_zero_iff)

lemma resume_class [simp]:
  "owes_bump (resume_reader c) = owes_bump c" "owes_wake (resume_reader c) = owes_wake c"
  "reading (resume_reader c) = reading c" "owes_bump (resume_writer c) = owes_bump c"
  "owes_wake (resume_writer c) = owes_wake c" "reading (resume_writer c) = reading c"
  "asleep (resume_writer c) = asleep c"
  by (cases c; simp)+

lemma loc_ok_resume_writer [simp]: "loc_ok r p b w (resume_writer c) = loc_ok r p b w c"
  by (cases c) auto

lemma loc_ok_resume_reader: "asleep c \<Longrightarrow> loc_ok r p b w c \<Longrightarrow> loc_ok r p' b' w' (resume_reader c)"
  by (cases c) auto

lemma goto_owes [simp]:
  "bumpers (goto t c s) = (if owes_bump c then insert t (bumpers s) else bumpers s - {t})"
  "wakers (goto t c s) = (if owes_wake c then insert t (wakers s) else wakers s - {t})"
  by (auto simp: bumpers_def wakers_def)

lemma wake_pcs:
  "pcs (wake_readers ok n s) t =
     (if t \<in> set (snd (wake_waiters ok n (read_waiters (pipe s)))) then resume_reader (pcs s t) else pcs s t)"
  "pcs (wake_writers ok n s) t =
     (if t \<in> set (snd (wake_waiters ok n (write_waiters (pipe s)))) then resume_writer (pcs s t) else pcs s t)"
  by (simp_all add: wake_readers_def wake_writers_def case_prod_unfold Let_def)

lemma wake_owes [simp]:
  "bumpers (wake_readers ok n s) = bumpers s" "wakers (wake_readers ok n s) = wakers s"
  "bumpers (wake_writers ok n s) = bumpers s" "wakers (wake_writers ok n s) = wakers s"
  by (auto simp: bumpers_def wakers_def wake_pcs)

lemma wake_readers_queue [simp]:
  "read_waiters (pipe (wake_readers ok n s)) = fst (wake_waiters ok n (read_waiters (pipe s)))"
  by (simp add: wake_readers_def case_prod_unfold Let_def)

lemma wake_waiters_simps [simp]:
  "wake_waiters ok n [] = ([], [])"
  "0 < n \<Longrightarrow> ok t \<Longrightarrow> t \<noteq> 0 \<Longrightarrow> wake_waiters ok n [t] = ([], [t])"
  by (simp_all add: wake_waiters_def try_make_runnable_def WaitNode_new_def)

text \<open>Fields the reader's condition does not depend on.\<close>

lemma reader_ok_frame [simp]:
  "reader_ok r (s\<lparr>pipe := (pipe s)\<lparr>write_waiters := ws\<rparr>\<rparr>) = reader_ok r s"
  "reader_ok r (s\<lparr>pipe := (pipe s)\<lparr>write_seq := v\<rparr>\<rparr>) = reader_ok r s"
  "reader_ok r (s\<lparr>pipe := (pipe s)\<lparr>read_refs := u\<rparr>\<rparr>) = reader_ok r s"
  unfolding reader_ok_def bumpers_def wakers_def
  by (simp_all, (subst loc_ok_cong[of _ "pipe s"]; simp)+)

lemma reader_ok_goto:
  assumes "reader_ok r s" "\<not> reading (pcs s t)" "\<not> owes_bump (pcs s t)" "\<not> owes_wake (pcs s t)" "\<not> reading c"
  shows "reader_ok r (goto t c s)"
proof (cases "t = r")
  case True
  with assms show ?thesis by (auto simp: reader_ok_def loc_ok_outside asleep_reading)
next
  case False
  from assms(3,4) have "t \<notin> bumpers s" "t \<notin> wakers s" by (auto simp: bumpers_def wakers_def)
  with assms False show ?thesis
    by (auto simp: reader_ok_def asleep_reading elim!: loc_ok_mono)
qed

lemma reader_ok_bump:
  assumes "reader_ok r s" "owes_bump (pcs s t)" "read_seq (pipe s) \<noteq> - 1"
    and c: "owes_wake c" "\<not> reading c" "\<not> owes_bump c"
  shows "reader_ok r (goto t c (s\<lparr>pipe := (pipe s)\<lparr>read_seq := read_seq (pipe s) + 1\<rparr>\<rparr>))"
proof (cases "reading (pcs s r)")
  case True
  have "r \<noteq> t" using True assms(2) by (cases "pcs s t") auto
  have "loc_ok r ((pipe s)\<lparr>read_seq := read_seq (pipe s) + 1\<rparr>) b True (pcs s r)" for b
    using assms(1,3) by (cases "pcs s r") (auto simp: reader_ok_def seq_bump nothing_to_read_def)
  with assms(1) c \<open>r \<noteq> t\<close> show ?thesis by (auto simp: reader_ok_def)
next
  case False
  then have "\<not> reading (((pcs s)(t := c)) r)" using c by auto
  with assms(1) c False show ?thesis by (auto simp: reader_ok_def loc_ok_outside asleep_reading)
qed

lemma reader_ok_wake:
  assumes "reader_ok r s" "owes_wake (pcs s t)" "ok r" "r \<noteq> 0" "0 < n"
    and c: "\<not> reading c" "\<not> owes_bump c" "\<not> owes_wake c"
  shows "reader_ok r (goto t c (wake_readers ok n s))"
proof (cases "asleep (pcs s r)")
  case True
  then obtain buf where buf: "pcs s r = RSleep buf" by (cases "pcs s r") auto
  then have ne: "r \<noteq> t" using assms(2) by auto
  have q: "read_waiters (pipe s) = [r]" using assms(1) buf by (simp add: reader_ok_def)
  have "t' = r" if "reading (pcs s t')" for t' using assms(1) that by (simp add: reader_ok_def)
  moreover have "buf \<noteq> []" using assms(1) buf by (simp add: reader_ok_def)
  ultimately show ?thesis using ne q buf assms(3-5) c by (simp add: reader_ok_def wake_pcs)
next
  case False
  then have q: "read_waiters (pipe s) = []" using assms(1) by (auto simp: reader_ok_def)
  have "loc_ok r (pipe (wake_readers ok n s)) (bumpers s - {t} \<noteq> {}) wk (((pcs s)(t := c)) r)" for wk
  proof (cases "t = r")
    case False
    have "t \<notin> bumpers s" using assms(2) by (cases "pcs s t") (auto simp: bumpers_def)
    with False \<open>\<not> asleep (pcs s r)\<close> assms(1) show ?thesis
      by (cases "pcs s r") (auto simp: reader_ok_def nothing_to_read_def)
  qed (use c in \<open>simp add: loc_ok_outside\<close>)
  with q c assms(1) show ?thesis by (auto simp: reader_ok_def wake_pcs)
qed

lemma reader_ok_wake_writers [simp]: "reader_ok r (wake_writers ok n s) = reader_ok r s"
proof -
  have "loc_ok r (pipe (wake_writers ok n s)) b w c = loc_ok r (pipe s) b w c" for b w c
    by (rule loc_ok_cong) auto
  then show ?thesis by (auto simp: reader_ok_def wake_pcs)
qed

text \<open>A change of the pipe by a thread that is not reading, when it leaves a debt or nothing new to read.\<close>

lemma reader_ok_change:
  assumes "reader_ok r s" "\<not> reading (pcs s t)" "\<not> owes_bump (pcs s t)" "\<not> owes_wake (pcs s t)" "\<not> reading c"
    and same: "read_seq p = read_seq (pipe s)" "read_waiters p = read_waiters (pipe s)"
    and "owes_bump c \<or>
      (ring_len (ring (pipe s)) = 0 \<longrightarrow> ring_len (ring p) = 0) \<and> (0 < write_refs (pipe s) \<longrightarrow> 0 < write_refs p)"
  shows "reader_ok r (goto t c (s\<lparr>pipe := p, sent := x, received := y\<rparr>))"
proof (cases "t = r")
  case True
  with assms show ?thesis by (auto simp: reader_ok_def loc_ok_outside asleep_reading)
next
  case False
  let ?s = "s\<lparr>pipe := p, sent := x, received := y\<rparr>"
  have owe: "t \<notin> bumpers s" "t \<notin> wakers s" "bumpers ?s = bumpers s" "wakers ?s = wakers s"
    using assms(3,4) by (auto simp: bumpers_def wakers_def)
  have "loc_ok r p (owes_bump c \<or> bumpers s \<noteq> {}) wk (pcs s r)" if "wakers s \<noteq> {} \<longrightarrow> wk" for wk
  proof -
    have "loc_ok r (pipe s) (bumpers s \<noteq> {}) wk (pcs s r)"
      using assms(1) that loc_ok_mono unfolding reader_ok_def by blast
    with assms(8) same show ?thesis by (cases "pcs s r") (auto simp: nothing_to_read_def)
  qed
  with assms False owe same show ?thesis by (auto simp: reader_ok_def asleep_reading)
qed

lemma reader_ok_write_locked:
  assumes "reader_ok r s" "stream_inv s" "pcs s t = WRing src snap"
  shows "reader_ok r (write_locked t src snap s)"
proof -
  obtain n d' r' where w: "write_from (ring (pipe s)) (data (pipe s)) src = (n, d', r')"
    by (metis prod_cases3)
  have len: "ring_len r' = ring_len (ring (pipe s)) + n"
    using write_from_spec(4)[OF _ w] assms(2) by (simp add: stream_inv_def)
  have upd: "reader_ok r (goto t c (s\<lparr>pipe := (pipe s)\<lparr>ring := r', data := d'\<rparr>, sent := x\<rparr>))"
    if "\<not> reading c" "owes_bump c \<or> (ring_len (ring (pipe s)) = 0 \<longrightarrow> n = 0)" for c x
    using reader_ok_change[OF assms(1), of t c "(pipe s)\<lparr>ring := r', data := d'\<rparr>" "received s" x]
      assms(3) that len by simp
  show ?thesis
    using w upd upd[of "WLive src snap" "sent s"] reader_ok_goto[OF assms(1), of t "WLive src snap"] assms(3)
    by (auto simp: write_locked_def Let_def ring_is_empty_def)
qed

lemma reader_ok_write_step:
  assumes "reader_ok r s" "stream_inv s" "read_seq (pipe s) \<noteq> - 1" "ok r" "r \<noteq> 0"
    and "pipe_write_step ok t s = Some s'"
  shows "reader_ok r s'"
  using assms reader_ok_write_locked[OF assms(1,2)] reader_ok_bump[OF assms(1) _ assms(3), of t]
    reader_ok_wake[OF assms(1), of t ok] reader_ok_goto[OF assms(1), of t]
    reader_ok_goto[of r "s\<lparr>pipe := (pipe s)\<lparr>write_waiters := write_waiters (pipe s) @ [t]\<rparr>\<rparr>" t]
  by (auto simp: pipe_write_step_def Let_def split: pc.splits WriterStep.splits if_splits)

lemma reader_ok_release_steps:
  assumes "reader_ok r s" "read_seq (pipe s) \<noteq> - 1" "ok r" "r \<noteq> 0"
  shows "pipe_read_release_step ok t s = Some s' \<Longrightarrow> reader_ok r s'"
    and "pipe_write_release_step ok t s = Some s' \<Longrightarrow> reader_ok r s'"
proof -
  show "reader_ok r s'" if "pipe_read_release_step ok t s = Some s'"
    using that assms(1) by (auto simp: pipe_read_release_step_def Let_def
        split: pc.splits if_splits intro!: reader_ok_goto simp: wake_pcs)
  have upd: "reader_ok r (goto t c (s\<lparr>pipe := (pipe s)\<lparr>write_refs := write_refs (pipe s) - 1\<rparr>\<rparr>))"
    if "pcs s t = CWrite" "c = (if write_refs (pipe s) = 1 then CWriteBump else CDone)" for c
    using reader_ok_change[OF assms(1), of t c "(pipe s)\<lparr>write_refs := write_refs (pipe s) - 1\<rparr>" "received s" "sent s"]
      that refs_dec by auto
  show "reader_ok r s'" if "pipe_write_release_step ok t s = Some s'"
    using that upd reader_ok_bump[OF assms(1) _ assms(2), of t] reader_ok_wake[OF assms(1), of t ok] assms(3,4)
    by (auto simp: pipe_write_release_step_def Let_def split: pc.splits)
qed

text \<open>The reading thread leaves, or moves on within the call.\<close>

lemma reader_ok_leave:
  assumes "reader_ok r s" "\<not> asleep (pcs s r)" "\<not> reading c"
    and "pcs s' = pcs s" "read_waiters (pipe s') = read_waiters (pipe s)"
  shows "reader_ok r (goto r c s')"
  using assms by (auto simp: reader_ok_def loc_ok_outside)

lemma reader_ok_read_locked:
  assumes "reader_ok r s" "stream_inv s" "pcs s r = RRing buf snap"
  shows "reader_ok r (read_locked r buf snap s)"
proof -
  obtain n b' r' where w: "read_into (ring (pipe s)) (data (pipe s)) buf = (n, b', r')"
    by (metis prod_cases3)
  have n: "n = min (length buf) (ring_len (ring (pipe s)))"
    using read_into_spec(1)[OF _ w] assms(2) by (simp add: stream_inv_def)
  have buf: "buf \<noteq> []" "snap \<le> read_seq (pipe s)" "read_waiters (pipe s) = []"
    using assms(1,3) by (auto simp: reader_ok_def)
  note stop = reader_ok_leave[OF assms(1)]
  have "n > 0" if "ring_len (ring (pipe s)) \<noteq> 0" using n that buf by simp
  moreover have "reader_ok r (goto r (RLive buf snap) s)" if "ring_len (ring (pipe s)) = 0"
    using assms(1) buf that by (auto simp: reader_ok_def)
  ultimately show ?thesis
    using w stop assms(3) by (simp add: read_locked_def Let_def ring_is_empty_def)
qed

lemma reader_ok_at_reader:
  assumes "reader_ok r s" "pcs s r = c0" "reading c0" "\<not> asleep c0" "reading c" "\<not> asleep c"
    and "loc_ok r (pipe s) (bumpers s \<noteq> {}) (wakers s \<noteq> {}) c"
  shows "reader_ok r (goto r c s)"
proof -
  have "r \<notin> bumpers s" "r \<notin> wakers s"
    using assms(2,3) by (cases c0; auto simp: bumpers_def wakers_def)+
  moreover have "\<not> owes_bump c" "\<not> owes_wake c" using assms(5) by (cases c; auto)+
  moreover have "read_waiters (pipe s) = []" using assms(1,2,4) by (auto simp: reader_ok_def)
  ultimately show ?thesis using assms by (auto simp: reader_ok_def)
qed

lemma reader_ok_read_step:
  assumes "reader_ok r s" "stream_inv s" "pipe_read_step ok t s = Some s'"
  shows "reader_ok r s'"
proof (cases "reading (pcs s t)")
  case True
  with assms(1) have t: "t = r" by (simp add: reader_ok_def)
  have loc: "loc_ok r (pipe s) (bumpers s \<noteq> {}) (wakers s \<noteq> {}) (pcs s r)"
    using assms(1) by (simp add: reader_ok_def)
  note at = reader_ok_at_reader[OF assms(1) refl]
  show ?thesis
  proof (cases "pcs s r")
    case (RTop buf)
    with assms(3) t loc at[of "RRing buf (read_seq (pipe s))"] show ?thesis
      by (simp add: pipe_read_step_def Let_def)
  next
    case (RRing buf snap)
    with assms t reader_ok_read_locked[OF assms(1,2) RRing] show ?thesis
      by (simp add: pipe_read_step_def Let_def)
  next
    case (RLive buf snap)
    show ?thesis
    proof (cases "0 < write_refs (pipe s)")
      case True
      with assms(3) t RLive loc at[of "RPark buf snap"] show ?thesis
        by (simp add: pipe_read_step_def Let_def reader_step_when_empty_def nothing_to_read_def)
    next
      case False
      with assms(3) t RLive reader_ok_leave[OF assms(1), of "RRet 0 buf" s] show ?thesis
        by (simp add: pipe_read_step_def Let_def reader_step_when_empty_def)
    qed
  next
    case (RPark buf snap)
    then have w: "read_waiters (pipe s) = []" "r \<notin> bumpers s" "r \<notin> wakers s"
      using assms(1) by (auto simp: reader_ok_def bumpers_def wakers_def)
    show ?thesis
    proof (cases "read_seq (pipe s) = snap")
      case False
      with assms(3) t RPark loc at[of "RTop buf"] show ?thesis
        by (simp add: pipe_read_step_def Let_def)
    next
      case True
      let ?s = "s\<lparr>pipe := (pipe s)\<lparr>read_waiters := [r]\<rparr>\<rparr>"
      have "bumpers ?s = bumpers s" "wakers ?s = wakers s" by (simp_all add: bumpers_def wakers_def)
      moreover have "s' = goto r (RSleep buf) ?s"
        using assms(3) t RPark True w by (simp add: pipe_read_step_def Let_def)
      moreover have "buf \<noteq> []" "nothing_to_read (pipe s) \<or> bumpers s \<noteq> {}" using loc RPark True by auto
      moreover have "\<forall>t. reading (pcs s t) \<longrightarrow> t = r" using assms(1) by (simp add: reader_ok_def)
      ultimately show ?thesis using w by (auto simp: reader_ok_def nothing_to_read_def)
    qed
  qed (use assms(3) t True in \<open>simp_all add: pipe_read_step_def Let_def\<close>)
next
  case False
  with assms(1,3) show ?thesis
    by (auto simp: pipe_read_step_def Let_def wake_pcs split: pc.splits if_splits intro!: reader_ok_goto)
qed

lemma unat_inc_le: fixes q :: u32 shows "unat (q + 1) \<le> Suc (unat q)"
  using unatSuc[of q] by (cases "1 + q = 0") (simp_all add: add.commute)

lemma read_locked_seq [simp]: "read_seq (pipe (read_locked t buf snap s)) = read_seq (pipe s)"
  by (simp add: read_locked_def Let_def case_prod_unfold)

lemma write_locked_seq [simp]: "read_seq (pipe (write_locked t src snap s)) = read_seq (pipe s)"
  by (simp add: write_locked_def Let_def case_prod_unfold)

lemma read_seq_steps:
  "pipe_read_step ok t s = Some s' \<Longrightarrow> read_seq (pipe s') = read_seq (pipe s)"
  "pipe_write_step ok t s = Some s' \<Longrightarrow> read_seq (pipe s') \<in> {read_seq (pipe s), read_seq (pipe s) + 1}"
  "pipe_read_release_step ok t s = Some s' \<Longrightarrow> read_seq (pipe s') = read_seq (pipe s)"
  "pipe_write_release_step ok t s = Some s' \<Longrightarrow> read_seq (pipe s') \<in> {read_seq (pipe s), read_seq (pipe s) + 1}"
  by (auto simp: step_defs Let_def split: pc.splits if_splits ReaderStep.splits WriterStep.splits)

lemma read_seq_bound: "pipe_run ok calls n s \<Longrightarrow> unat (read_seq (pipe s)) \<le> n"
proof (induction rule: pipe_run.induct)
  case (run_write n s t s')
  then show ?case using read_seq_steps(2)[OF run_write.hyps(2)] unat_inc_le[of "read_seq (pipe s)"] by auto
next
  case (run_wclose n s t s')
  then show ?case using read_seq_steps(4)[OF run_wclose.hyps(2)] unat_inc_le[of "read_seq (pipe s)"] by auto
qed (auto simp: sys_pipe_init_def dest: read_seq_steps)

lemma seq_not_max: fixes q :: u32 assumes "unat q \<le> n" "Suc n < 2 ^ 32" shows "q \<noteq> - 1"
proof
  assume "q = - 1"
  then have "unat q = 2 ^ 32 - 1" by (simp add: unsigned_minus_1_eq_mask mask_eq_exp_minus_1)
  with assms show False by simp
qed

lemma entry_cases: "entry c \<Longrightarrow> reading c \<Longrightarrow> \<exists>buf. c = RTop buf"
  by (cases c) auto

lemma outside_class: "outside c \<Longrightarrow> \<not> reading c \<and> \<not> owes_bump c \<and> \<not> owes_wake c"
  by (cases c) auto

lemma pipe_run_reader_ok:
  assumes calls: "\<And>t buf. calls t (RTop buf) \<Longrightarrow> t = r \<and> buf \<noteq> []" and ok: "ok r" "r \<noteq> 0"
  shows "pipe_run ok calls n s \<Longrightarrow> n < 2 ^ 32 \<Longrightarrow> reader_ok r s"
proof (induction rule: pipe_run.induct)
  case (run_init frame)
  then show ?case by (simp add: reader_ok_def sys_pipe_init_def)
next
  case (run_call n s t c)
  then have IH: "reader_ok r s" by simp
  show ?case
  proof (cases "reading c")
    case True
    then obtain buf where "c = RTop buf" "t = r" "buf \<noteq> []" using run_call entry_cases calls by blast
    with IH run_call outside_class[of "pcs s t"] show ?thesis
      by (auto simp: reader_ok_def asleep_reading)
  next
    case False
    then show ?thesis using IH run_call outside_class[of "pcs s t"] by (simp add: reader_ok_goto)
  qed
next
  case (run_write n s t s')
  then have "read_seq (pipe s) \<noteq> - 1" using read_seq_bound seq_not_max by blast
  with run_write ok show ?case using reader_ok_write_step pipe_run_stream by (metis Suc_lessD)
next
  case (run_rclose n s t s')
  then have "read_seq (pipe s) \<noteq> - 1" using read_seq_bound seq_not_max by blast
  with run_rclose ok show ?case using reader_ok_release_steps(1) by (metis Suc_lessD)
next
  case (run_wclose n s t s')
  then have "read_seq (pipe s) \<noteq> - 1" using read_seq_bound seq_not_max by blast
  with run_wclose ok show ?case using reader_ok_release_steps(2) by (metis Suc_lessD)
next
  case (run_read n s t s')
  then show ?case using reader_ok_read_step pipe_run_stream by (metis Suc_lessD)
next
  case (run_dup_write n s)
  then have "reader_ok r s" by simp
  moreover have "loc_ok r ((pipe s)\<lparr>write_refs := write_refs (pipe s) + 1\<rparr>) b w c" if "loc_ok r (pipe s) b w c" for b w c
    using that refs_inc[OF run_dup_write.hyps(3)] by (cases c) (auto simp: nothing_to_read_def)
  ultimately show ?case by (auto simp: reader_ok_def bumpers_def wakers_def)
qed simp

section \<open>Concrete schedules\<close>

text \<open>A schedule names the thread that moves next; \<open>Some c\<close> starts the call \<open>c\<close>, \<open>None\<close> takes one step.\<close>

definition thread_step :: "(tid \<Rightarrow> bool) \<Rightarrow> tid \<Rightarrow> 'b psys \<Rightarrow> 'b psys option" where
  "thread_step ok t s =
     (case pipe_read_step ok t s of Some s' \<Rightarrow> Some s'
      | None \<Rightarrow> (case pipe_write_step ok t s of Some s' \<Rightarrow> Some s'
      | None \<Rightarrow> (case pipe_read_release_step ok t s of Some s' \<Rightarrow> Some s'
      | None \<Rightarrow> pipe_write_release_step ok t s)))"

fun drive :: "(tid \<Rightarrow> bool) \<Rightarrow> (tid \<times> 'b pc option) list \<Rightarrow> 'b psys \<Rightarrow> 'b psys option" where
  "drive ok [] s = Some s"
| "drive ok ((t, Some c) # sch) s =
     (if outside (pcs s t) \<and> entry c then drive ok sch (goto t c s) else None)"
| "drive ok ((t, None) # sch) s = Option.bind (thread_step ok t s) (drive ok sch)"

lemma thread_step_run:
  "pipe_run ok calls n s \<Longrightarrow> thread_step ok t s = Some s' \<Longrightarrow> pipe_run ok calls (Suc n) s'"
  by (auto simp: thread_step_def split: option.splits intro: run_read run_write run_rclose run_wclose)

lemma drive_run:
  "pipe_run ok calls n s \<Longrightarrow> drive ok sch s = Some s' \<Longrightarrow> (\<And>t c. (t, Some c) \<in> set sch \<Longrightarrow> calls t c) \<Longrightarrow>
   pipe_run ok calls (n + length sch) s'"
proof (induction ok sch s arbitrary: n rule: drive.induct)
  case (2 ok t c sch s)
  from 2(3) have o: "outside (pcs s t)" "entry c" and d: "drive ok sch (goto t c s) = Some s'"
    by (auto split: if_splits)
  have "calls t c" using 2(4) by simp
  from "2.IH"[OF _ run_call[OF 2(2) o this] d] o 2(4) show ?case by auto
next
  case (3 ok t sch s)
  then obtain s1 where s1: "thread_step ok t s = Some s1" "drive ok sch s1 = Some s'"
    by (auto simp: bind_eq_Some_conv)
  from "3.IH"[OF s1(1) thread_step_run[OF 3(2) s1(1)] s1(2)] 3(4) show ?case by auto
qed simp

lemmas run_simps = thread_step_def pipe_read_step_def pipe_write_step_def pipe_read_release_step_def
  pipe_write_release_step_def read_locked_def write_locked_def read_into_def write_from_def
  ring_is_empty_def ring_is_full_def reader_step_when_empty_def writer_step_when_full_def
  wake_readers_def wake_writers_def sys_pipe_init_def PipeRing_new_def goto_def
  wake_waiters_def try_make_runnable_def WaitNode_new_def

definition zero_read_schedule :: "'b \<Rightarrow> (tid \<times> 'b pc option) list" where
  "zero_read_schedule b =
     [(2, Some (WEnter [b])), (2, None), (2, None), (2, None), (2, None), (2, None),
      (1, Some (RTop [])), (1, None), (1, None), (1, None), (1, None)]"

lemma zero_read_run:
  assumes "length frame = PIPE_BUF_SIZE"
  shows "\<exists>s. drive (\<lambda>_. True) (zero_read_schedule b) (sys_pipe_init frame) = Some s \<and>
    pcs s 1 = RSleep [] \<and> ring_len (ring (pipe s)) = 1 \<and> (\<forall>t. t \<noteq> 1 \<longrightarrow> outside (pcs s t))"
  using assms by (simp add: zero_read_schedule_def run_simps PIPE_BUF_SIZE_def)

definition two_readers_schedule :: "'b \<Rightarrow> (tid \<times> 'b pc option) list" where
  "two_readers_schedule b =
     [(1, Some (RTop [b])), (1, None), (1, None), (1, None), (1, None),
      (2, Some (RTop [b])), (2, None), (2, None), (2, None), (2, None),
      (3, Some (WEnter [b, b])), (3, None), (3, None), (3, None), (3, None), (3, None),
      (1, None), (1, None)]"

lemma two_readers_run:
  assumes "length frame = PIPE_BUF_SIZE"
  shows "\<exists>s. drive (\<lambda>_. True) (two_readers_schedule b) (sys_pipe_init frame) = Some s \<and>
    pcs s 2 = RSleep [b] \<and> ring_len (ring (pipe s)) = 1 \<and> (\<forall>t. t \<noteq> 2 \<longrightarrow> outside (pcs s t))"
  using assms by (simp add: two_readers_schedule_def run_simps PIPE_BUF_SIZE_def)

definition sleepy_schedule :: "(tid \<times> u8 pc option) list" where
  "sleepy_schedule = [(1, Some (RTop [0])), (1, None), (1, None), (1, None), (1, None)]"

lemma schedule_lengths: "length (two_readers_schedule b) = 18" "length sleepy_schedule = 5"
  by (simp_all add: two_readers_schedule_def sleepy_schedule_def)

lemma sleepy_calls: "(t, Some c) \<in> set sleepy_schedule \<Longrightarrow> t = 1 \<and> c = RTop [0]"
  by (simp add: sleepy_schedule_def)

lemma some_frame: "\<exists>frame :: 'b list. length frame = PIPE_BUF_SIZE"
  by (rule exI[of _ "replicate PIPE_BUF_SIZE undefined"]) simp

lemma drive_from_init:
  assumes "length frame = PIPE_BUF_SIZE" "drive ok sch (sys_pipe_init frame) = Some s"
    and "\<And>t c. (t, Some c) \<in> set sch \<Longrightarrow> calls t c"
  shows "pipe_run ok calls (length sch) s"
  using drive_run[OF run_init[OF assms(1)] assms(2,3)] by simp

section \<open>Main properties\<close>

text \<open>
  C2: a pipe is a first-in first-out byte stream.  In every execution, with any
  number of readers, writers, closes and duplications in any interleaving, the
  bytes accepted from writers are exactly the bytes handed to readers followed by
  the bytes still in the ring, in order: nothing is lost, duplicated or reordered,
  and the ring never holds more than \<open>PIPE_BUF_SIZE\<close> bytes.
\<close>

theorem pipe_is_fifo_stream:
  assumes "pipe_run ok calls n s"
  shows "sent s = received s @ ring_bytes (ring (pipe s)) (data (pipe s)) \<and>
         length (sent s) - length (received s) \<le> PIPE_BUF_SIZE"
  using pipe_run_stream[OF assms] by (simp add: stream_inv_def ring_inv_def)

theorem pipe_is_fifo_stream_witness:
  "\<exists>s. pipe_run (\<lambda>_. True) (\<lambda>_ _. True) 18 s \<and>
     sent s = received s @ ring_bytes (ring (pipe s)) (data (pipe s) :: u8 list) \<and>
     ring_len (ring (pipe s)) = 1"
proof -
  obtain frame :: "u8 list" where f: "length frame = PIPE_BUF_SIZE" using some_frame by blast
  obtain s where s: "drive (\<lambda>_. True) (two_readers_schedule 7) (sys_pipe_init frame) = Some s"
      "ring_len (ring (pipe s)) = 1"
    using two_readers_run[OF f] by blast
  have "pipe_run (\<lambda>_. True) (\<lambda>_ _. True) 18 s"
    using drive_from_init[OF f s(1), of "\<lambda>_ _. True"] schedule_lengths(1)[of "7 :: u8"] by simp
  with pipe_is_fifo_stream[OF this] s(2) show ?thesis by blast
qed


lemma sleepy_run:
  assumes "length frame = PIPE_BUF_SIZE"
  shows "\<exists>s. drive (\<lambda>_. True) sleepy_schedule (sys_pipe_init frame) = Some s \<and> pcs s 1 = RSleep [0]"
  using assms by (simp add: sleepy_schedule_def run_simps PIPE_BUF_SIZE_def)


text \<open>
  C20: with two readers the protocol does strand data.  A write into an empty ring
  wakes one reader; if that reader takes only part of the bytes, a second sleeping
  reader is not woken, and no thread is left that owes it a wake although the ring
  is not empty.
\<close>

theorem pipe_second_reader_stranded:
  "\<exists>n s. pipe_run (\<lambda>_. True) (\<lambda>_ c. c \<in> {RTop [0], WEnter [0, 0 :: u8]}) n s \<and>
     pcs s 2 = RSleep [0] \<and> ring_len (ring (pipe s)) = 1 \<and> {t. \<not> outside (pcs s t)} \<subseteq> {2}"
proof -
  obtain frame :: "u8 list" where f: "length frame = PIPE_BUF_SIZE" using some_frame by blast
  obtain s where s: "drive (\<lambda>_. True) (two_readers_schedule 0) (sys_pipe_init frame) = Some s"
      "pcs s 2 = RSleep [0]" "ring_len (ring (pipe s)) = 1" "\<forall>t. t \<noteq> 2 \<longrightarrow> outside (pcs s t)"
    using two_readers_run[OF f] by blast
  have "pipe_run (\<lambda>_. True) (\<lambda>_ c. c \<in> {RTop [0], WEnter [0, 0]}) (length (two_readers_schedule (0 :: u8))) s"
    by (rule drive_from_init[OF f s(1)]) (auto simp: two_readers_schedule_def)
  with s show ?thesis by (auto intro!: exI)
qed

text \<open>
  C21: a read with an empty buffer on a non-empty pipe does not return 0: the
  thread goes to sleep, and no other thread owes it a wake.
\<close>

theorem pipe_zero_length_read_blocks:
  "\<exists>n s. pipe_run (\<lambda>_. True) (\<lambda>_ c. c \<in> {RTop [], WEnter [0 :: u8]}) n s \<and>
     pcs s 1 = RSleep [] \<and> ring_len (ring (pipe s)) = 1 \<and> {t. \<not> outside (pcs s t)} \<subseteq> {1}"
proof -
  obtain frame :: "u8 list" where f: "length frame = PIPE_BUF_SIZE" using some_frame by blast
  obtain s where s: "drive (\<lambda>_. True) (zero_read_schedule 0) (sys_pipe_init frame) = Some s"
      "pcs s 1 = RSleep []" "ring_len (ring (pipe s)) = 1" "\<forall>t. t \<noteq> 1 \<longrightarrow> outside (pcs s t)"
    using zero_read_run[OF f] by blast
  have "pipe_run (\<lambda>_. True) (\<lambda>_ c. c \<in> {RTop [], WEnter [0]}) (length (zero_read_schedule (0 :: u8))) s"
    by (rule drive_from_init[OF f s(1)]) (auto simp: zero_read_schedule_def)
  with s show ?thesis by (auto intro!: exI)
qed

end
