(* ===== verification/Free_List.thy ===== *)
theory Free_List
  imports Rumicos_Prelude "HOL-Library.Multiset"
begin

text \<open>
  The free lists of the buddy allocator (\<open>crates/memory/src/buddy.rs\<close>, \<open>FreeList\<close>).
  A list is threaded through the free frames themselves: each free frame starts
  with a header holding the physical address of the next one, and the head word
  packs the first frame number with a 16-bit tag.  Physical memory is a map from
  frame addresses to headers, seen through the direct map.  All operations run
  under the allocator lock, so the compare-and-swap of \<open>push\<close> and \<open>pop\<close> succeeds in
  the first round.  A failed assertion is the result \<open>None\<close>.
\<close>

record FreeFrame =
  next_phys :: nat
  generation :: nat

type_synonym phys_mem = "nat \<Rightarrow> FreeFrame"

definition MAX_PLAUSIBLE_PHYS :: nat where
  "MAX_PLAUSIBLE_PHYS = 2 ^ 44"

lemma MAX_PLAUSIBLE_PHYS_pos [simp]: "0 < MAX_PLAUSIBLE_PHYS"
  by (simp add: MAX_PLAUSIBLE_PHYS_def)

definition fl_pack :: "nat \<Rightarrow> nat \<Rightarrow> nat" where
  "fl_pack frame_num tag = take_bit 64 (push_bit 16 frame_num) OR (tag AND 65535)"

definition fl_unpack :: "nat \<Rightarrow> nat \<times> nat" where
  "fl_unpack packed = (drop_bit 16 packed, packed AND 65535)"

definition fl_push :: "nat \<Rightarrow> nat \<times> phys_mem \<Rightarrow> (nat \<times> phys_mem) option" where
  "fl_push frame = (\<lambda>(head, mem).
     if frame < MAX_PLAUSIBLE_PHYS \<and> frame AND 4095 = 0 then
       (case fl_unpack head of (head_frame, tag) \<Rightarrow>
          Some (fl_pack (drop_bit 12 frame) (take_bit 64 (tag + 1)),
                mem(frame := \<lparr>next_phys = take_bit 64 (push_bit 12 head_frame), generation = tag\<rparr>)))
     else None)"

definition fl_pop :: "nat \<times> phys_mem \<Rightarrow> (nat option \<times> nat) option" where
  "fl_pop = (\<lambda>(head, mem).
     case fl_unpack head of (head_frame, tag) \<Rightarrow>
       if head_frame = 0 then Some (None, head)
       else
         (let frame = take_bit 64 (push_bit 12 head_frame) in
          if \<not> frame < MAX_PLAUSIBLE_PHYS then None
          else
            (let nxt = next_phys (mem frame) in
             if \<not> (nxt < MAX_PLAUSIBLE_PHYS \<and> nxt AND 4095 = 0) then None
             else Some (Some frame, fl_pack (drop_bit 12 nxt) (take_bit 64 (tag + 1))))))"

section \<open>Packing\<close>

lemma fl_pack_eq:
  assumes "f < 2 ^ 48"
  shows "fl_pack f t = f * 65536 + t mod 65536"
proof -
  have "push_bit 16 f < 2 ^ 64" using assms by (simp add: push_bit_eq_mult)
  then have "take_bit 64 (push_bit 16 f) = push_bit 16 f" by (simp add: take_bit_nat_eq_self)
  then show ?thesis using or_is_add[of "t mod 65536" 16 f] by (simp add: fl_pack_def and_65535)
qed

lemma unpack_pack:
  assumes "f < 2 ^ 48"
  shows "fl_unpack (fl_pack f t) = (f, t mod 65536)"
  using assms by (simp add: fl_pack_eq fl_unpack_def and_65535 drop_bit_eq_div)

definition head_addr :: "nat \<Rightarrow> nat" where
  "head_addr head = fst (fl_unpack head) * 4096"

definition frame_ok :: "nat \<Rightarrow> bool" where
  "frame_ok a \<longleftrightarrow> 0 < a \<and> a < MAX_PLAUSIBLE_PHYS \<and> a mod 4096 = 0"

lemma head_addr_0 [simp]: "head_addr 0 = 0"
  by (simp add: head_addr_def fl_unpack_def)

lemma head_addr_pack:
  assumes "a < MAX_PLAUSIBLE_PHYS" "a mod 4096 = 0"
  shows "head_addr (fl_pack (drop_bit 12 a) t) = a"
proof -
  have "drop_bit 12 a \<le> a" by (simp add: drop_bit_eq_div)
  also have "a < 2 ^ 48" using assms(1) unfolding MAX_PLAUSIBLE_PHYS_def by simp
  finally have "fl_unpack (fl_pack (drop_bit 12 a) t) = (drop_bit 12 a, t mod 65536)"
    by (rule unpack_pack)
  moreover have "a div 4096 * 4096 = a" using assms(2) by (simp add: mod_0_imp_dvd)
  ultimately show ?thesis by (simp add: head_addr_def drop_bit_eq_div)
qed

section \<open>Chains of free frames\<close>

fun flist :: "phys_mem \<Rightarrow> nat \<Rightarrow> nat list \<Rightarrow> bool" where
  "flist mem a [] \<longleftrightarrow> a = 0"
| "flist mem a (x # xs) \<longleftrightarrow> a = x \<and> frame_ok x \<and> flist mem (next_phys (mem x)) xs"

definition fl_rep :: "phys_mem \<Rightarrow> nat \<Rightarrow> nat list \<Rightarrow> bool" where
  "fl_rep mem head xs \<longleftrightarrow> flist mem (head_addr head) xs"

lemma fl_rep_empty [simp]: "fl_rep mem 0 []"
  by (simp add: fl_rep_def)

lemma flist_cong:
  assumes "\<And>x. x \<in> set xs \<Longrightarrow> next_phys (mem' x) = next_phys (mem x)"
  shows "flist mem' a xs = flist mem a xs"
  using assms
proof (induction xs arbitrary: a)
  case (Cons x xs)
  have "flist mem' b xs = flist mem b xs" for b by (rule Cons.IH) (simp add: Cons.prems)
  moreover have "next_phys (mem' x) = next_phys (mem x)" by (simp add: Cons.prems)
  ultimately show ?case by simp
qed simp

lemma fl_rep_cong:
  "(\<And>x. x \<in> set xs \<Longrightarrow> next_phys (mem' x) = next_phys (mem x)) \<Longrightarrow> fl_rep mem' head xs = fl_rep mem head xs"
  unfolding fl_rep_def by (rule flist_cong)

lemma fl_rep_frame_ok: "fl_rep mem head xs \<Longrightarrow> x \<in> set xs \<Longrightarrow> frame_ok x"
proof -
  have "flist mem a xs \<Longrightarrow> x \<in> set xs \<Longrightarrow> frame_ok x" for a by (induction xs arbitrary: a) auto
  then show "fl_rep mem head xs \<Longrightarrow> x \<in> set xs \<Longrightarrow> frame_ok x" by (auto simp: fl_rep_def)
qed

lemma flist_hd: "flist mem a xs \<Longrightarrow> a < MAX_PLAUSIBLE_PHYS \<and> a mod 4096 = 0"
  by (cases xs) (simp_all add: frame_ok_def)

lemma head_addr_shift:
  assumes "fl_rep mem head xs" "fl_unpack head = (hf, tag)"
  shows "take_bit 64 (push_bit 12 hf) = head_addr head"
proof -
  have "head_addr head < 2 ^ 64"
    using assms(1) flist_hd[of mem "head_addr head" xs] by (simp add: fl_rep_def MAX_PLAUSIBLE_PHYS_def)
  with assms(2) show ?thesis by (simp add: head_addr_def push_bit_eq_mult take_bit_nat_eq_self)
qed

text \<open>Pushing a valid frame never fails and prepends it; every other list is untouched.\<close>

lemma fl_push_rep:
  assumes rep: "fl_rep mem head xs" and x: "frame_ok x" "x \<notin> set xs"
  shows "\<exists>head' mem'. fl_push x (head, mem) = Some (head', mem') \<and> fl_rep mem' head' (x # xs) \<and>
     (\<forall>y. y \<noteq> x \<longrightarrow> mem' y = mem y)"
proof -
  obtain hf tag where u: "fl_unpack head = (hf, tag)" by fastforce
  let ?mem = "mem(x := \<lparr>next_phys = take_bit 64 (push_bit 12 hf), generation = tag\<rparr>)"
  have "flist ?mem (head_addr head) xs = flist mem (head_addr head) xs"
    by (rule flist_cong) (use x in auto)
  then have "fl_rep ?mem (fl_pack (drop_bit 12 x) (take_bit 64 (tag + 1))) (x # xs)"
    using rep x head_addr_shift[OF rep u] by (simp add: fl_rep_def head_addr_pack frame_ok_def)
  moreover have "fl_push x (head, mem) = Some (fl_pack (drop_bit 12 x) (take_bit 64 (tag + 1)), ?mem)"
    using x u by (simp add: fl_push_def frame_ok_def and_4095)
  ultimately show ?thesis by auto
qed

text \<open>Popping returns the first frame of the list, or reports the list empty.\<close>

lemma fl_pop_empty: "fl_rep mem head [] \<Longrightarrow> fl_pop (head, mem) = Some (None, head)"
  by (auto simp: fl_pop_def fl_rep_def head_addr_def split: prod.split)

lemma fl_pop_cons:
  assumes "fl_rep mem head (x # xs)"
  shows "\<exists>head'. fl_pop (head, mem) = Some (Some x, head') \<and> fl_rep mem head' xs"
proof -
  obtain hf tag where u: "fl_unpack head = (hf, tag)" by fastforce
  from assms have x: "head_addr head = x" "frame_ok x" and tl: "flist mem (next_phys (mem x)) xs"
    by (auto simp: fl_rep_def)
  have "hf \<noteq> 0" using x u by (auto simp: head_addr_def frame_ok_def)
  let ?h = "fl_pack (drop_bit 12 (next_phys (mem x))) (take_bit 64 (tag + 1))"
  have "fl_rep mem ?h xs" using tl flist_hd[OF tl] by (simp add: fl_rep_def head_addr_pack)
  moreover have "fl_pop (head, mem) = Some (Some x, ?h)"
    using \<open>hf \<noteq> 0\<close> u x flist_hd[OF tl] head_addr_shift[OF assms u]
    by (simp add: fl_pop_def Let_def frame_ok_def and_4095 del: take_bit_push_bit)
  ultimately show ?thesis by auto
qed

end
