(* ===== verification/Buddy.thy ===== *)
theory Buddy
  imports Free_List
begin

text \<open>
  The buddy allocator proper (\<open>crates/memory/src/buddy.rs\<close>, \<open>BuddyNode\<close> and
  \<open>NumaBuddy\<close>): allocation of a block of a given order with splitting, freeing,
  and the construction of the free lists from the boot memory map minus the
  reserved ranges.  The abstraction of a node is the multiset of the frame numbers
  on its free lists; allocation removes the frames of the block it returns, freeing
  adds them, and boot-time initialisation adds exactly the frames it should.
\<close>

definition MAX_ORDER :: nat where
  "MAX_ORDER = 10"

definition MAX_NUMA_NODES :: nat where
  "MAX_NUMA_NODES = 8"

definition LOW_4G_LIMIT :: nat where
  "LOW_4G_LIMIT = 0x100000000"

definition MAX_LOW_FRAME_TRIES :: nat where
  "MAX_LOW_FRAME_TRIES = 256"

record BuddyNode =
  free_lists :: "nat list"
  node_base :: nat
  node_size :: nat
  node_free :: nat
  node_id :: nat

definition BuddyNode_new :: "nat \<Rightarrow> BuddyNode" where
  "BuddyNode_new nid =
     \<lparr>free_lists = replicate (MAX_ORDER + 1) 0, node_base = 0, node_size = 0, node_free = 0, node_id = nid\<rparr>"

text \<open>One push onto, or pop from, the list of a given order.\<close>

definition node_push :: "nat \<Rightarrow> nat \<Rightarrow> BuddyNode \<times> phys_mem \<Rightarrow> (BuddyNode \<times> phys_mem) option" where
  "node_push ord frame = (\<lambda>(node, mem).
     case fl_push frame (free_lists node ! ord, mem) of
       None \<Rightarrow> None
     | Some (head, mem') \<Rightarrow> Some (node\<lparr>free_lists := (free_lists node)[ord := head]\<rparr>, mem'))"

definition node_pop :: "nat \<Rightarrow> BuddyNode \<times> phys_mem \<Rightarrow> (nat option \<times> BuddyNode) option" where
  "node_pop ord = (\<lambda>(node, mem).
     case fl_pop (free_lists node ! ord, mem) of
       None \<Rightarrow> None
     | Some (r, head) \<Rightarrow> Some (r, node\<lparr>free_lists := (free_lists node)[ord := head]\<rparr>))"

fun split_down :: "nat \<Rightarrow> nat list \<Rightarrow> BuddyNode \<times> phys_mem \<Rightarrow> (BuddyNode \<times> phys_mem) option" where
  "split_down frame [] nm = Some nm"
| "split_down frame (split_order # rest) nm =
     (let buddy = frame + 2 ^ (split_order + 12) in
      case node_push split_order buddy nm of None \<Rightarrow> None | Some nm' \<Rightarrow> split_down frame rest nm')"

fun alloc_scan :: "nat \<Rightarrow> nat list \<Rightarrow> BuddyNode \<times> phys_mem \<Rightarrow> (nat option \<times> BuddyNode \<times> phys_mem) option" where
  "alloc_scan ord [] (node, mem) = Some (None, node, mem)"
| "alloc_scan ord (source_order # rest) (node, mem) =
     (case node_pop source_order (node, mem) of
        None \<Rightarrow> None
      | Some (None, node') \<Rightarrow> alloc_scan ord rest (node', mem)
      | Some (Some frame, node') \<Rightarrow>
          (case split_down frame (rev [ord..<source_order]) (node', mem) of
             None \<Rightarrow> None
           | Some (node'', mem') \<Rightarrow>
               Some (Some frame, node''\<lparr>node_free := (node_free node'' + 2 ^ 64 - 2 ^ ord) mod 2 ^ 64\<rparr>, mem')))"

definition node_alloc_order :: "nat \<Rightarrow> BuddyNode \<times> phys_mem \<Rightarrow> (nat option \<times> BuddyNode \<times> phys_mem) option" where
  "node_alloc_order ord nm =
     (if ord > MAX_ORDER then (case nm of (node, mem) \<Rightarrow> Some (None, node, mem))
      else alloc_scan ord [ord..<MAX_ORDER + 1] nm)"

text \<open>
  The coalescing loop of \<open>free_order\<close> never takes its merging branch (the test for
  the buddy is the constant false), so a free is one push and one addition.
\<close>

definition node_free_order :: "nat \<Rightarrow> nat \<Rightarrow> BuddyNode \<times> phys_mem \<Rightarrow> (BuddyNode \<times> phys_mem) option" where
  "node_free_order frame ord nm =
     (if ord > MAX_ORDER then Some nm
      else case node_push ord frame nm of
        None \<Rightarrow> None
      | Some (node, mem) \<Rightarrow> Some (node\<lparr>node_free := (node_free node + 2 ^ ord) mod 2 ^ 64\<rparr>, mem))"

section \<open>Adding memory\<close>

text \<open>The largest order whose block fits in the rest of the region and is aligned at its start.\<close>

fun pick_order :: "nat \<Rightarrow> nat \<Rightarrow> nat \<Rightarrow> nat" where
  "pick_order paddr remaining 0 = 0"
| "pick_order paddr remaining (Suc k) =
     (if 2 ^ (Suc k + 12) \<le> remaining \<and> paddr mod 2 ^ (Suc k + 12) = 0 then Suc k
      else pick_order paddr remaining k)"

function region_loop :: "nat \<Rightarrow> nat \<Rightarrow> BuddyNode \<times> phys_mem \<Rightarrow> (BuddyNode \<times> phys_mem) option" where
  "region_loop paddr stop nm =
     (if paddr < stop then
        (let ord = pick_order paddr (stop - paddr) MAX_ORDER in
         case node_push ord paddr nm of
           None \<Rightarrow> None
         | Some nm' \<Rightarrow> region_loop (paddr + 2 ^ (ord + 12)) stop nm')
      else Some nm)"
  by pat_completeness auto
termination
  by (relation "measure (\<lambda>(paddr, stop, _). stop - paddr)") (auto intro!: diff_less_mono2)

definition node_add_region :: "nat \<Rightarrow> nat \<Rightarrow> BuddyNode \<times> phys_mem \<Rightarrow> (BuddyNode \<times> phys_mem) option" where
  "node_add_region base frames = (\<lambda>(node, mem).
     let node1 = (if node_size node = 0 \<or> base < node_base node then node\<lparr>node_base := base\<rparr> else node);
         node2 = node1\<lparr>node_size := node_size node1 + frames,
                        node_free := (node_free node1 + frames) mod 2 ^ 64\<rparr>
     in region_loop base (base + frames * PAGE_SIZE) (node2, mem))"

record NumaBuddy =
  nodes :: "BuddyNode option list"
  node_count :: nat

definition NumaBuddy_new :: NumaBuddy where
  "NumaBuddy_new = \<lparr>nodes = replicate MAX_NUMA_NODES None, node_count = 0\<rparr>"

definition add_region :: "nat \<Rightarrow> nat \<Rightarrow> nat \<Rightarrow> NumaBuddy \<times> phys_mem \<Rightarrow> (NumaBuddy \<times> phys_mem) option" where
  "add_region nid base frames = (\<lambda>(nb, mem).
     let nb1 = (case nodes nb ! nid of
           None \<Rightarrow> nb\<lparr>nodes := (nodes nb)[nid := Some (BuddyNode_new nid)], node_count := node_count nb + 1\<rparr>
         | Some _ \<Rightarrow> nb)
     in case nodes nb1 ! nid of
          None \<Rightarrow> None
        | Some node \<Rightarrow>
            (case node_add_region base frames (node, mem) of
               None \<Rightarrow> None
             | Some (node', mem') \<Rightarrow> Some (nb1\<lparr>nodes := (nodes nb1)[nid := Some node']\<rparr>, mem')))"

definition exclusion_overlap :: "nat \<Rightarrow> nat \<Rightarrow> nat \<times> nat \<Rightarrow> (nat \<times> nat) option" where
  "exclusion_overlap start stop reserved =
     (let reserved_start = max (fst reserved) start;
          reserved_end = min (snd reserved) stop
      in if reserved_start < reserved_end then Some (reserved_start, reserved_end) else None)"

record ExclusionSet =
  bump_consumed :: "nat \<times> nat"
  kernel_phys_range :: "nat \<times> nat"
  extra_reserved :: "(nat \<times> nat) list"

fun scan_reserved :: "nat \<Rightarrow> nat \<Rightarrow> (nat \<times> nat) list \<Rightarrow> (nat \<times> nat) option" where
  "scan_reserved start stop [] = None"
| "scan_reserved start stop (r # rs) =
     (case exclusion_overlap start stop r of Some ov \<Rightarrow> Some ov | None \<Rightarrow> scan_reserved start stop rs)"

definition first_exclusion_overlap :: "nat \<Rightarrow> nat \<Rightarrow> ExclusionSet \<Rightarrow> (nat \<times> nat) option" where
  "first_exclusion_overlap start stop ex =
     (case exclusion_overlap start stop (bump_consumed ex) of
        Some ov \<Rightarrow> Some ov
      | None \<Rightarrow> (case exclusion_overlap start stop (kernel_phys_range ex) of
          Some ov \<Rightarrow> Some ov
        | None \<Rightarrow> scan_reserved start stop (extra_reserved ex)))"

lemma exclusion_overlap_SomeD:
  "exclusion_overlap a b r = Some (c, d) \<Longrightarrow> a \<le> c \<and> c < d \<and> d \<le> b \<and> c = max (fst r) a \<and> d = min (snd r) b"
  by (auto simp: exclusion_overlap_def Let_def split: if_splits)

lemma scan_reserved_SomeD:
  "scan_reserved a b rs = Some (c, d) \<Longrightarrow> \<exists>r \<in> set rs. exclusion_overlap a b r = Some (c, d)"
  by (induction rs) (auto split: option.splits)

definition reserved_ranges :: "ExclusionSet \<Rightarrow> (nat \<times> nat) list" where
  "reserved_ranges ex = bump_consumed ex # kernel_phys_range ex # extra_reserved ex"

lemma first_exclusion_overlap_scan:
  "first_exclusion_overlap a b ex = scan_reserved a b (reserved_ranges ex)"
  by (simp add: first_exclusion_overlap_def reserved_ranges_def split: option.split)

lemma first_exclusion_overlap_SomeD:
  assumes "first_exclusion_overlap a b ex = Some (c, d)"
  shows "a \<le> c" "c < d" "d \<le> b" "\<exists>r \<in> set (reserved_ranges ex). c = max (fst r) a \<and> d = min (snd r) b"
  using assms scan_reserved_SomeD[of a b "reserved_ranges ex" c d]
  by (auto simp: first_exclusion_overlap_scan dest: exclusion_overlap_SomeD)

lemma first_exclusion_overlap_bounds:
  "first_exclusion_overlap a b ex = Some (c, d) \<Longrightarrow> a \<le> c \<and> c < d \<and> d \<le> b"
  using first_exclusion_overlap_SomeD by blast

function add_region_excluding ::
  "nat \<Rightarrow> nat \<Rightarrow> nat \<Rightarrow> ExclusionSet \<Rightarrow> NumaBuddy \<times> phys_mem \<Rightarrow> (NumaBuddy \<times> phys_mem) option" where
  "add_region_excluding nid start stop ex nm =
     (if start \<ge> stop then Some nm
      else case first_exclusion_overlap start stop ex of
        Some (reserved_start, reserved_end) \<Rightarrow>
          (case (if start < reserved_start
                 then add_region_excluding nid start reserved_start ex nm else Some nm) of
             None \<Rightarrow> None
           | Some nm' \<Rightarrow>
               if reserved_end < stop then add_region_excluding nid reserved_end stop ex nm' else Some nm')
      | None \<Rightarrow>
          (let aligned_base = (start + PAGE_SIZE - 1) div PAGE_SIZE * PAGE_SIZE;
               aligned_end = stop div PAGE_SIZE * PAGE_SIZE
           in if aligned_end \<le> aligned_base then Some nm
              else add_region nid aligned_base ((aligned_end - aligned_base) div PAGE_SIZE) nm))"
  by pat_completeness auto
termination
  by (relation "measure (\<lambda>(_, start, stop, _). stop - start)")
     (auto dest!: first_exclusion_overlap_bounds)

record LimineMemmapEntry =
  entry_base :: nat
  entry_length :: nat
  mem_type :: nat

fun buddy_init :: "LimineMemmapEntry list \<Rightarrow> ExclusionSet \<Rightarrow> NumaBuddy \<times> phys_mem \<Rightarrow> (NumaBuddy \<times> phys_mem) option" where
  "buddy_init [] ex nm = Some nm"
| "buddy_init (e # es) ex nm =
     (if mem_type e \<noteq> 0 then buddy_init es ex nm
      else if entry_length e = 0 then buddy_init es ex nm
      else case add_region_excluding 0 (entry_base e) (entry_base e + entry_length e) ex nm of
        None \<Rightarrow> None
      | Some nm' \<Rightarrow> buddy_init es ex nm')"

section \<open>The allocator interface\<close>

definition nb_alloc_order :: "nat \<Rightarrow> NumaBuddy \<times> phys_mem \<Rightarrow> (nat option \<times> NumaBuddy \<times> phys_mem) option" where
  "nb_alloc_order ord = (\<lambda>(nb, mem).
     case nodes nb ! 0 of
       None \<Rightarrow> Some (None, nb, mem)
     | Some node \<Rightarrow>
         (case node_alloc_order ord (node, mem) of
            None \<Rightarrow> None
          | Some (r, node', mem') \<Rightarrow> Some (r, nb\<lparr>nodes := (nodes nb)[0 := Some node']\<rparr>, mem')))"

definition nb_alloc_frame :: "NumaBuddy \<times> phys_mem \<Rightarrow> (nat option \<times> NumaBuddy \<times> phys_mem) option" where
  "nb_alloc_frame = nb_alloc_order 0"

definition nb_free_frame :: "nat \<Rightarrow> NumaBuddy \<times> phys_mem \<Rightarrow> (NumaBuddy \<times> phys_mem) option" where
  "nb_free_frame frame = (\<lambda>(nb, mem).
     case nodes nb ! 0 of
       None \<Rightarrow> None
     | Some node \<Rightarrow>
         (case node_free_order frame 0 (node, mem) of
            None \<Rightarrow> None
          | Some (node', mem') \<Rightarrow> Some (nb\<lparr>nodes := (nodes nb)[0 := Some node']\<rparr>, mem')))"

fun low_tries :: "nat \<Rightarrow> nat list \<Rightarrow> NumaBuddy \<times> phys_mem \<Rightarrow> (nat option \<times> nat list \<times> NumaBuddy \<times> phys_mem) option" where
  "low_tries 0 rejected nm = Some (None, rejected, nm)"
| "low_tries (Suc k) rejected nm =
     (case nb_alloc_frame nm of
        None \<Rightarrow> None
      | Some (None, nm') \<Rightarrow> Some (None, rejected, nm')
      | Some (Some frame, nm') \<Rightarrow>
          if frame < LOW_4G_LIMIT then Some (Some frame, rejected, nm')
          else low_tries k (rejected @ [frame]) nm')"

fun free_all :: "nat list \<Rightarrow> NumaBuddy \<times> phys_mem \<Rightarrow> (NumaBuddy \<times> phys_mem) option" where
  "free_all [] nm = Some nm"
| "free_all (f # fs) nm = (case nb_free_frame f nm of None \<Rightarrow> None | Some nm' \<Rightarrow> free_all fs nm')"

definition nb_alloc_frame_below_4g :: "NumaBuddy \<times> phys_mem \<Rightarrow> (nat option \<times> NumaBuddy \<times> phys_mem) option" where
  "nb_alloc_frame_below_4g nm =
     (case low_tries MAX_LOW_FRAME_TRIES [] nm of
        None \<Rightarrow> None
      | Some (result, rejected, nm') \<Rightarrow>
          (case free_all rejected nm' of None \<Rightarrow> None | Some nm'' \<Rightarrow> Some (result, nm'')))"

declare region_loop.simps [simp del]
declare add_region_excluding.simps [simp del]

section \<open>Blocks and frames\<close>

definition block_frames :: "nat \<Rightarrow> nat \<Rightarrow> nat multiset" where
  "block_frames ord b = mset [b div PAGE_SIZE ..< b div PAGE_SIZE + 2 ^ ord]"

definition block_ok :: "nat \<Rightarrow> nat \<Rightarrow> bool" where
  "block_ok ord b \<longleftrightarrow> 0 < b \<and> b mod 2 ^ (ord + 12) = 0 \<and> b + 2 ^ (ord + 12) \<le> MAX_PLAUSIBLE_PHYS"

definition list_frames :: "nat \<Rightarrow> nat list \<Rightarrow> nat multiset" where
  "list_frames ord bs = sum_list (map (block_frames ord) bs)"

definition lists_frames :: "nat list list \<Rightarrow> nat multiset" where
  "lists_frames L = (\<Sum>i<length L. list_frames i (L ! i))"

lemma list_frames_simps [simp]:
  "list_frames k [] = {#}" "list_frames k (b # bs) = block_frames k b + list_frames k bs"
  by (simp_all add: list_frames_def)

lemma set_block_frames: "set_mset (block_frames k b) = {b div 4096 ..< b div 4096 + 2 ^ k}"
  by (simp add: block_frames_def)

lemma size_block_frames [simp]: "size (block_frames k b) = 2 ^ k"
  by (simp add: block_frames_def)

lemma block_frames_count: "count (block_frames k b) f \<le> 1"
proof -
  have "distinct [b div PAGE_SIZE ..< b div PAGE_SIZE + 2 ^ k]" by simp
  then show ?thesis by (simp add: block_frames_def distinct_count_atmost_1)
qed

lemma block_mod: "block_ok k b \<Longrightarrow> b mod 4096 = 0"
proof -
  assume "block_ok k b"
  moreover have "(4096 :: nat) dvd 2 ^ (k + 12)" using le_imp_power_dvd[of 12 "k + 12" "2 :: nat"] by simp
  ultimately show ?thesis by (metis block_ok_def dvd_trans mod_0_imp_dvd dvd_imp_mod_0)
qed

lemma block_frame_ok: "block_ok k b \<Longrightarrow> frame_ok b"
proof -
  assume "block_ok k b"
  moreover have "(0 :: nat) < 2 ^ (k + 12)" by simp
  ultimately show ?thesis using block_mod[of k b] unfolding block_ok_def frame_ok_def by linarith
qed

lemma block_halves:
  assumes "b mod 2 ^ (Suc k + 12) = 0"
  shows "block_frames (Suc k) b = block_frames k b + block_frames k (b + 2 ^ (k + 12))"
proof -
  have "(b + 2 ^ (k + 12)) div 4096 = b div 4096 + 2 ^ k"
    by (simp add: power_add)
  moreover have "[b div 4096 ..< b div 4096 + 2 ^ k + 2 ^ k] =
      [b div 4096 ..< b div 4096 + 2 ^ k] @ [b div 4096 + 2 ^ k ..< b div 4096 + 2 ^ k + 2 ^ k]"
    by (rule upt_add_eq_append) simp
  ultimately show ?thesis
    unfolding block_frames_def mset_append[symmetric] power_Suc mult_2 add.assoc[symmetric] by simp
qed

lemma block_ok_halves:
  assumes "block_ok (Suc k) b"
  shows "block_ok k b" "block_ok k (b + 2 ^ (k + 12))"
proof -
  have "(2 :: nat) ^ (k + 12) dvd 2 ^ (Suc k + 12)" by (rule le_imp_power_dvd) simp
  then have "b mod 2 ^ (k + 12) = 0" using assms by (metis block_ok_def dvd_trans mod_0_imp_dvd dvd_imp_mod_0)
  moreover have "(2 :: nat) ^ (Suc k + 12) = 2 ^ (k + 12) + 2 ^ (k + 12)" by (metis add_Suc mult_2 power_Suc)
  ultimately show "block_ok k b" "block_ok k (b + 2 ^ (k + 12))"
    using assms unfolding block_ok_def by auto
qed

lemma lists_frames_update:
  assumes "k < length L"
  shows "lists_frames (L[k := bs]) + list_frames k (L ! k) = lists_frames L + list_frames k bs"
proof -
  let ?I = "{..<length L} - {k}"
  have "lists_frames L = list_frames k (L ! k) + (\<Sum>i\<in>?I. list_frames i (L ! i))"
    unfolding lists_frames_def using assms by (intro sum.remove) auto
  moreover have "lists_frames (L[k := bs]) = list_frames k bs + (\<Sum>i\<in>?I. list_frames i (L[k := bs] ! i))"
    unfolding lists_frames_def using assms by (subst sum.remove[of _ k]) auto
  moreover have "(\<Sum>i\<in>?I. list_frames i (L[k := bs] ! i)) = (\<Sum>i\<in>?I. list_frames i (L ! i))"
    by (rule sum.cong) auto
  ultimately show ?thesis by (simp add: add_ac)
qed

lemma in_list_frames: "f \<in># list_frames k bs \<longleftrightarrow> (\<exists>b \<in> set bs. f \<in># block_frames k b)"
  by (induction bs) auto

lemma in_lists_frames: "f \<in># lists_frames L \<longleftrightarrow> (\<exists>i < length L. \<exists>b \<in> set (L ! i). f \<in># block_frames i b)"
  by (auto simp: lists_frames_def set_mset_sum in_list_frames)

lemma own_frame: "b div 4096 \<in># block_frames k b"
  by (simp add: set_block_frames)

text \<open>Heads of the free lists, the blocks on them, and no frame on them twice.\<close>

definition heads_rep :: "phys_mem \<Rightarrow> nat list \<Rightarrow> nat list list \<Rightarrow> bool" where
  "heads_rep mem hs L \<longleftrightarrow> length hs = MAX_ORDER + 1 \<and> length L = MAX_ORDER + 1 \<and>
     (\<forall>i < length L. fl_rep mem (hs ! i) (L ! i) \<and> (\<forall>b \<in> set (L ! i). block_ok i b)) \<and>
     (\<forall>f. count (lists_frames L) f \<le> 1)"

lemma count_disjoint:
  assumes "\<forall>f. count (A + B) f \<le> 1"
  shows "set_mset A \<inter> set_mset B = {}"
proof (rule ccontr)
  assume "set_mset A \<inter> set_mset B \<noteq> {}"
  then obtain f where "0 < count A f" "0 < count B f" by auto
  with assms[rule_format, of f] show False by simp
qed

lemma heads_rep_own:
  assumes "heads_rep mem hs L" "i < length L" "b \<in> set (L ! i)"
  shows "b div 4096 \<in># lists_frames L"
  using assms own_frame by (auto simp: in_lists_frames)

lemma push_block:
  assumes rep: "heads_rep mem hs L" and k: "k \<le> MAX_ORDER" "block_ok k b"
    and fresh: "set_mset (block_frames k b) \<inter> set_mset (lists_frames L) = {}"
  shows "\<exists>h mem'. fl_push b (hs ! k, mem) = Some (h, mem') \<and>
     heads_rep mem' (hs[k := h]) (L[k := b # L ! k]) \<and> (\<forall>y. y \<noteq> b \<longrightarrow> mem' y = mem y) \<and>
     lists_frames (L[k := b # L ! k]) = block_frames k b + lists_frames L"
proof -
  have len: "length L = MAX_ORDER + 1" "length hs = MAX_ORDER + 1" using rep by (auto simp: heads_rep_def)
  have other: "b \<notin> set (L ! i)" if "i < length L" for i
    using heads_rep_own[OF rep that] fresh own_frame[of b k] by blast
  have "fl_rep mem (hs ! k) (L ! k)" using rep k len by (simp add: heads_rep_def)
  from fl_push_rep[OF this block_frame_ok[OF k(2)] other] k len obtain h mem' where
    p: "fl_push b (hs ! k, mem) = Some (h, mem')" "fl_rep mem' h (b # L ! k)" "\<forall>y. y \<noteq> b \<longrightarrow> mem' y = mem y"
    by auto
  have keep: "fl_rep mem' (hs ! i) (L ! i)" if "i < length L" for i
  proof -
    have "fl_rep mem' (hs ! i) (L ! i) = fl_rep mem (hs ! i) (L ! i)"
      by (rule fl_rep_cong) (use p(3) other[OF that] in metis)
    with rep that show ?thesis by (simp add: heads_rep_def)
  qed
  have fr: "lists_frames (L[k := b # L ! k]) = block_frames k b + lists_frames L"
    using lists_frames_update[of k L "b # L ! k"] k len by (simp add: add_ac)
  have "count (block_frames k b + lists_frames L) f \<le> 1" for f
  proof (cases "f \<in># block_frames k b")
    case True
    then have "count (lists_frames L) f = 0" using fresh by (auto simp: not_in_iff[symmetric])
    with block_frames_count[of k b f] show ?thesis by simp
  qed (use rep in \<open>simp add: heads_rep_def not_in_iff\<close>)
  with fr keep p k len rep have "heads_rep mem' (hs[k := h]) (L[k := b # L ! k])"
    by (auto simp: heads_rep_def nth_list_update)
  with p fr show ?thesis by blast
qed

lemma pop_block:
  assumes rep: "heads_rep mem hs L" and k: "k \<le> MAX_ORDER" "L ! k = b # bs"
  shows "\<exists>h. fl_pop (hs ! k, mem) = Some (Some b, h) \<and> heads_rep mem (hs[k := h]) (L[k := bs]) \<and>
     lists_frames L = block_frames k b + lists_frames (L[k := bs]) \<and> block_ok k b"
proof -
  have len: "length L = MAX_ORDER + 1" "length hs = MAX_ORDER + 1" using rep by (auto simp: heads_rep_def)
  have "fl_rep mem (hs ! k) (L ! k)" using rep k(1) len by (simp add: heads_rep_def)
  then have "fl_rep mem (hs ! k) (b # bs)" by (simp add: k(2))
  from fl_pop_cons[OF this] obtain h where p: "fl_pop (hs ! k, mem) = Some (Some b, h)" "fl_rep mem h bs"
    by blast
  have fr: "lists_frames L = block_frames k b + lists_frames (L[k := bs])"
    using lists_frames_update[of k L bs] k len by (simp add: add_ac)
  have "count (lists_frames (L[k := bs])) f \<le> count (lists_frames L) f" for f by (simp add: fr)
  then have "count (lists_frames (L[k := bs])) f \<le> 1" for f
    using rep by (meson heads_rep_def le_trans)
  moreover have "block_ok k b" "\<forall>c \<in> set bs. block_ok k c" using rep k len by (auto simp: heads_rep_def)
  ultimately show ?thesis using p fr k len rep by (auto simp: heads_rep_def nth_list_update)
qed

section \<open>Allocation\<close>

definition node_rep :: "phys_mem \<Rightarrow> BuddyNode \<Rightarrow> nat list list \<Rightarrow> bool" where
  "node_rep mem node L \<longleftrightarrow> heads_rep mem (free_lists node) L \<and> node_free node = size (lists_frames L)"

lemma node_push_block:
  assumes "heads_rep mem (free_lists node) L" "k \<le> MAX_ORDER" "block_ok k b"
    and "set_mset (block_frames k b) \<inter> set_mset (lists_frames L) = {}"
  shows "\<exists>hs mem' L'. node_push k b (node, mem) = Some (node\<lparr>free_lists := hs\<rparr>, mem') \<and>
     heads_rep mem' hs L' \<and> (\<forall>y. y \<noteq> b \<longrightarrow> mem' y = mem y) \<and>
     lists_frames L' = block_frames k b + lists_frames L"
  using push_block[OF assms] by (fastforce simp: node_push_def)

text \<open>Splitting a block hands its upper halves to the lists and keeps a block of the requested order.\<close>

lemma split_down_rep:
  assumes "heads_rep mem (free_lists node) L" "ord \<le> src" "src \<le> MAX_ORDER" "block_ok src b"
    and "set_mset (block_frames src b) \<inter> set_mset (lists_frames L) = {}"
  shows "\<exists>hs mem' L'. split_down b (rev [ord..<src]) (node, mem) = Some (node\<lparr>free_lists := hs\<rparr>, mem') \<and>
     heads_rep mem' hs L' \<and> block_ok ord b \<and>
     block_frames ord b + lists_frames L' = block_frames src b + lists_frames L \<and>
     (\<forall>y. y div 4096 \<notin># block_frames src b \<longrightarrow> mem' y = mem y)"
  using assms
proof (induction src arbitrary: node mem L)
  case 0
  then show ?case by (intro exI[of _ "free_lists node"] exI[of _ mem] exI[of _ L]) auto
next
  case (Suc src)
  show ?case
  proof (cases "ord = Suc src")
    case True
    with Suc.prems show ?thesis
      by (intro exI[of _ "free_lists node"] exI[of _ mem] exI[of _ L]) auto
  next
    case False
    let ?b = "b + 2 ^ (src + 12)"
    have halves: "block_frames (Suc src) b = block_frames src b + block_frames src ?b"
      using Suc.prems(4) by (intro block_halves) (simp add: block_ok_def)
    have ok: "block_ok src b" "block_ok src ?b" using block_ok_halves[OF Suc.prems(4)] by auto
    have "set_mset (block_frames src ?b) \<inter> set_mset (lists_frames L) = {}"
      using Suc.prems(5) halves by auto
    from node_push_block[OF Suc.prems(1) _ ok(2) this] Suc.prems(3) obtain hs1 mem1 L1 where
      p: "node_push src ?b (node, mem) = Some (node\<lparr>free_lists := hs1\<rparr>, mem1)" "heads_rep mem1 hs1 L1"
        "\<forall>y. y \<noteq> ?b \<longrightarrow> mem1 y = mem y" "lists_frames L1 = block_frames src ?b + lists_frames L"
      by auto
    have lohi: "set_mset (block_frames src b) \<inter> set_mset (block_frames src ?b) = {}"
      by (auto simp: set_block_frames power_add)
    have "set_mset (block_frames src b) \<inter> set_mset (lists_frames L1) = {}"
      using Suc.prems(5) halves lohi p(4) by auto
    from Suc.IH[of mem1 "node\<lparr>free_lists := hs1\<rparr>" L1, OF _ _ _ ok(1) this] p(2) False Suc.prems(2,3)
    obtain hs mem' L' where
      ih: "split_down b (rev [ord..<src]) (node\<lparr>free_lists := hs1\<rparr>, mem1) = Some (node\<lparr>free_lists := hs\<rparr>, mem')"
        "heads_rep mem' hs L'" "block_ok ord b"
        "block_frames ord b + lists_frames L' = block_frames src b + lists_frames L1"
        "\<forall>y. y div 4096 \<notin># block_frames src b \<longrightarrow> mem' y = mem1 y"
      by auto
    have "mem' y = mem y" if "y div 4096 \<notin># block_frames (Suc src) b" for y
      using that ih(5) p(3) halves own_frame[of ?b src] by (metis union_iff)
    moreover have "rev [ord..<Suc src] = src # rev [ord..<src]" using Suc.prems(2) False by simp
    ultimately show ?thesis using ih p(1,4) halves by (auto simp: add_ac)
  qed
qed

lemma alloc_scan_rep:
  assumes "heads_rep mem (free_lists node) L" "\<forall>i \<in> set srcs. ord \<le> i \<and> i \<le> MAX_ORDER"
  shows "(\<exists>hs. alloc_scan ord srcs (node, mem) = Some (None, node\<lparr>free_lists := hs\<rparr>, mem) \<and>
       heads_rep mem hs L \<and> (\<forall>i \<in> set srcs. L ! i = [])) \<or>
     (\<exists>b hs mem' L'. alloc_scan ord srcs (node, mem) = Some (Some b, node\<lparr>free_lists := hs,
         node_free := (node_free node + 2 ^ 64 - 2 ^ ord) mod 2 ^ 64\<rparr>, mem') \<and>
       heads_rep mem' hs L' \<and> block_ok ord b \<and> lists_frames L = block_frames ord b + lists_frames L' \<and>
       (\<forall>y. y div 4096 \<notin># lists_frames L \<longrightarrow> mem' y = mem y))"
  using assms
proof (induction srcs arbitrary: node)
  case Nil
  then show ?case by (intro disjI1 exI[of _ "free_lists node"]) auto
next
  case (Cons k srcs)
  have k: "ord \<le> k" "k \<le> MAX_ORDER" using Cons.prems(2) by auto
  show ?case
  proof (cases "L ! k")
    case Nil
    have "fl_rep mem (free_lists node ! k) []"
      using Cons.prems(1) k Nil by (auto simp: heads_rep_def dest!: spec[of _ k])
    then have "node_pop k (node, mem) = Some (None, node)"
      by (simp add: node_pop_def fl_pop_empty)
    with Cons Nil show ?thesis by simp
  next
    case (Cons b bs)
    from pop_block[OF Cons.prems(1) k(2) Cons] obtain h where
      h: "fl_pop (free_lists node ! k, mem) = Some (Some b, h)" "block_ok k b"
        "heads_rep mem ((free_lists node)[k := h]) (L[k := bs])"
        "lists_frames L = block_frames k b + lists_frames (L[k := bs])"
      by blast
    let ?node = "node\<lparr>free_lists := (free_lists node)[k := h]\<rparr>"
    have "\<forall>f. count (block_frames k b + lists_frames (L[k := bs])) f \<le> 1"
      using Cons.prems(1) h(4) by (simp add: heads_rep_def)
    from split_down_rep[of mem ?node "L[k := bs]" ord k b, OF _ k h(2) count_disjoint[OF this]] h(3)
    obtain hs mem' L' where
      sp: "split_down b (rev [ord..<k]) (?node, mem) = Some (?node\<lparr>free_lists := hs\<rparr>, mem')"
        "heads_rep mem' hs L'" "block_ok ord b"
        "block_frames ord b + lists_frames L' = block_frames k b + lists_frames (L[k := bs])"
        "\<forall>y. y div 4096 \<notin># block_frames k b \<longrightarrow> mem' y = mem y"
      by auto
    have "alloc_scan ord (k # srcs) (node, mem) = Some (Some b, node\<lparr>free_lists := hs,
        node_free := (node_free node + 2 ^ 64 - 2 ^ ord) mod 2 ^ 64\<rparr>, mem')"
      using h(1) sp(1) by (simp add: node_pop_def)
    moreover have "lists_frames L = block_frames ord b + lists_frames L'" using sp(4) h(4) by simp
    moreover have "\<forall>y. y div 4096 \<notin># lists_frames L \<longrightarrow> mem' y = mem y" using sp(5) h(4) by auto
    ultimately show ?thesis using sp(2,3) by blast
  qed
qed

text \<open>Allocation of a block on a node: it fails only when no list of a sufficient order has a block.\<close>

lemma node_alloc_order_rep:
  assumes rep: "node_rep mem node L" and ord: "ord \<le> MAX_ORDER" and room: "size (lists_frames L) < 2 ^ 64"
  shows "(\<exists>node'. node_alloc_order ord (node, mem) = Some (None, node', mem) \<and> node_rep mem node' L \<and>
       (\<forall>i. ord \<le> i \<longrightarrow> i \<le> MAX_ORDER \<longrightarrow> L ! i = [])) \<or>
     (\<exists>b node' mem' L'. node_alloc_order ord (node, mem) = Some (Some b, node', mem') \<and>
       node_rep mem' node' L' \<and> block_ok ord b \<and> lists_frames L = block_frames ord b + lists_frames L' \<and>
       (\<forall>y. y div 4096 \<notin># lists_frames L \<longrightarrow> mem' y = mem y))"
proof -
  have heads: "heads_rep mem (free_lists node) L" using rep by (simp add: node_rep_def)
  have eq: "node_alloc_order ord (node, mem) = alloc_scan ord [ord..<MAX_ORDER + 1] (node, mem)"
    using ord by (simp add: node_alloc_order_def)
  have "\<forall>i \<in> set [ord..<MAX_ORDER + 1]. ord \<le> i \<and> i \<le> MAX_ORDER" by auto
  from alloc_scan_rep[OF heads this] consider
    (none) hs where "node_alloc_order ord (node, mem) = Some (None, node\<lparr>free_lists := hs\<rparr>, mem)"
      "heads_rep mem hs L" "\<forall>i \<in> set [ord..<MAX_ORDER + 1]. L ! i = []"
  | (some) b hs mem' L' where "node_alloc_order ord (node, mem) = Some (Some b, node\<lparr>free_lists := hs,
         node_free := (node_free node + 2 ^ 64 - 2 ^ ord) mod 2 ^ 64\<rparr>, mem')"
      "heads_rep mem' hs L'" "block_ok ord b" "lists_frames L = block_frames ord b + lists_frames L'"
      "\<forall>y. y div 4096 \<notin># lists_frames L \<longrightarrow> mem' y = mem y"
    unfolding eq by blast
  then show ?thesis
  proof cases
    case none
    with rep show ?thesis by (intro disjI1) (auto simp: node_rep_def)
  next
    case some
    have "size (lists_frames L) = 2 ^ ord + size (lists_frames L')" using some(4) by simp
    with rep room have "(node_free node + 2 ^ 64 - 2 ^ ord) mod 2 ^ 64 = size (lists_frames L')"
      by (simp add: node_rep_def)
    with some show ?thesis by (intro disjI2) (auto simp: node_rep_def)
  qed
qed

lemma node_free_order_rep:
  assumes rep: "node_rep mem node L" and ord: "ord \<le> MAX_ORDER" "block_ok ord b"
    and fresh: "set_mset (block_frames ord b) \<inter> set_mset (lists_frames L) = {}"
    and room: "size (lists_frames L) + 2 ^ ord < 2 ^ 64"
  shows "\<exists>node' mem' L'. node_free_order b ord (node, mem) = Some (node', mem') \<and> node_rep mem' node' L' \<and>
     lists_frames L' = block_frames ord b + lists_frames L \<and> (\<forall>y. y \<noteq> b \<longrightarrow> mem' y = mem y)"
proof -
  have heads: "heads_rep mem (free_lists node) L" using rep by (simp add: node_rep_def)
  from node_push_block[OF heads ord fresh] obtain hs mem' L' where
    p: "node_push ord b (node, mem) = Some (node\<lparr>free_lists := hs\<rparr>, mem')" "heads_rep mem' hs L'"
      "\<forall>y. y \<noteq> b \<longrightarrow> mem' y = mem y" "lists_frames L' = block_frames ord b + lists_frames L"
    by blast
  with rep room ord show ?thesis
    by (auto simp: node_free_order_def node_rep_def intro!: exI[of _ L'])
qed

text \<open>Writes to frames that are not free do not disturb the lists.\<close>

lemma heads_rep_frame:
  assumes "\<And>y. y div 4096 \<in># lists_frames L \<Longrightarrow> mem' y = mem y"
  shows "heads_rep mem' hs L = heads_rep mem hs L"
proof -
  have "fl_rep mem' (hs ! i) (L ! i) = fl_rep mem (hs ! i) (L ! i)" if "i < length L" for i
  proof (rule fl_rep_cong)
    fix b assume "b \<in> set (L ! i)"
    with that have "b div 4096 \<in># lists_frames L" using own_frame by (auto simp: in_lists_frames)
    then show "next_phys (mem' b) = next_phys (mem b)" by (simp add: assms)
  qed
  then show ?thesis by (auto simp: heads_rep_def)
qed

section \<open>Building the lists from a region\<close>

lemma pick_order_spec:
  assumes "paddr mod 4096 = 0" "4096 \<le> remaining"
  shows "pick_order paddr remaining k \<le> k \<and> 2 ^ (pick_order paddr remaining k + 12) \<le> remaining \<and>
     paddr mod 2 ^ (pick_order paddr remaining k + 12) = 0"
  using assms by (induction k) auto

lemma upt_split_frames: "a \<le> b \<Longrightarrow> b \<le> c \<Longrightarrow> mset [a..<c] = mset [a..<b] + mset [b..<c]"
  by (metis le_add_diff_inverse mset_append upt_add_eq_append)

lemma region_loop_rep:
  assumes "heads_rep mem (free_lists node) L" "0 < paddr" "paddr mod 4096 = 0" "stop mod 4096 = 0"
    and "stop \<le> MAX_PLAUSIBLE_PHYS"
    and "{paddr div 4096 ..< stop div 4096} \<inter> set_mset (lists_frames L) = {}"
  shows "\<exists>hs mem' L'. region_loop paddr stop (node, mem) = Some (node\<lparr>free_lists := hs\<rparr>, mem') \<and>
     heads_rep mem' hs L' \<and> lists_frames L' = mset [paddr div 4096 ..< stop div 4096] + lists_frames L"
  using assms
proof (induction "stop - paddr" arbitrary: paddr node mem L rule: less_induct)
  case less
  show ?case
  proof (cases "paddr < stop")
    case False
    then have "stop div 4096 \<le> paddr div 4096" by (simp add: div_le_mono)
    with False less.prems(1) show ?thesis
      by (subst region_loop.simps) (auto intro!: exI[of _ "free_lists node"] exI[of _ L])
  next
    case True
    let ?o = "pick_order paddr (stop - paddr) MAX_ORDER"
    let ?n = "paddr + 2 ^ (?o + 12)"
    have "4096 \<le> stop - paddr"
      using True less.prems(3,4) by (metis mod_eq_dvd_iff_nat dvd_imp_le less_imp_le_nat zero_less_diff)
    with pick_order_spec[OF less.prems(3) this, of MAX_ORDER]
    have o: "?o \<le> MAX_ORDER" "?n \<le> stop" "paddr mod 2 ^ (?o + 12) = 0" using True by auto
    have pages: "?n div 4096 = paddr div 4096 + 2 ^ ?o" by (simp add: power_add)
    have nmod: "?n mod 4096 = 0" using less.prems(3) by (simp add: power_add mod_add_eq[symmetric])
    have ok: "block_ok ?o paddr" using less.prems(2,5) o by (simp add: block_ok_def)
    have "?n div 4096 \<le> stop div 4096" using o(2) by (rule div_le_mono)
    then have sub: "paddr div 4096 + 2 ^ ?o \<le> stop div 4096" by (simp only: pages)
    have "set_mset (block_frames ?o paddr) \<inter> set_mset (lists_frames L) = {}"
      using less.prems(6) sub by (fastforce simp: set_block_frames)
    from node_push_block[OF less.prems(1) o(1) ok this] obtain hs1 mem1 L1 where
      p: "node_push ?o paddr (node, mem) = Some (node\<lparr>free_lists := hs1\<rparr>, mem1)" "heads_rep mem1 hs1 L1"
        "lists_frames L1 = block_frames ?o paddr + lists_frames L"
      by blast
    have "{?n div 4096 ..< stop div 4096} \<inter> set_mset (lists_frames L1) = {}"
      using less.prems(6) unfolding p(3) pages by (auto simp: set_block_frames disjoint_iff)
    moreover have "stop - ?n < stop - paddr" using True by (intro diff_less_mono2) auto
    ultimately obtain hs mem' L' where
      ih: "region_loop ?n stop (node\<lparr>free_lists := hs1\<rparr>, mem1) = Some (node\<lparr>free_lists := hs\<rparr>, mem')"
        "heads_rep mem' hs L'" "lists_frames L' = mset [?n div 4096 ..< stop div 4096] + lists_frames L1"
      using less.hyps[of ?n mem1 "node\<lparr>free_lists := hs1\<rparr>" L1] p(2) nmod less.prems(4,5) by auto
    have "lists_frames L' = mset [paddr div 4096 ..< stop div 4096] + lists_frames L"
      unfolding ih(3) p(3) pages block_frames_def
      using upt_split_frames[of "paddr div 4096" "paddr div 4096 + 2 ^ ?o" "stop div 4096"] sub
      by (simp add: add_ac)
    then show ?thesis
      using True p(1) ih(1,2) by (subst region_loop.simps) (auto simp: Let_def)
  qed
qed

lemma block_frames_bound:
  assumes "block_ok k b" "f \<in># block_frames k b"
  shows "f < 2 ^ 32"
proof -
  have "b div 4096 + 2 ^ k = (b + 2 ^ (k + 12)) div 4096" by (simp add: power_add)
  also have "\<dots> \<le> MAX_PLAUSIBLE_PHYS div 4096" using assms(1) by (intro div_le_mono) (simp add: block_ok_def)
  finally show ?thesis using assms(2) by (simp add: set_block_frames MAX_PLAUSIBLE_PHYS_def)
qed

lemma heads_rep_bound:
  assumes "heads_rep mem hs L"
  shows "set_mset (lists_frames L) \<subseteq> {..<2 ^ 32}" "size (lists_frames L) \<le> 2 ^ 32"
proof -
  show sub: "set_mset (lists_frames L) \<subseteq> {..<2 ^ 32}"
  proof
    fix f assume "f \<in># lists_frames L"
    then obtain i b where "i < length L" "b \<in> set (L ! i)" "f \<in># block_frames i b"
      by (auto simp: in_lists_frames)
    moreover from this assms have "block_ok i b" by (auto simp: heads_rep_def)
    ultimately show "f \<in> {..<2 ^ 32}" using block_frames_bound by blast
  qed
  have "lists_frames L = mset_set (set_mset (lists_frames L))"
  proof (rule multiset_eqI)
    fix f
    have "count (lists_frames L) f \<le> 1" using assms by (simp add: heads_rep_def)
    then show "count (lists_frames L) f = count (mset_set (set_mset (lists_frames L))) f"
      by (cases "f \<in># lists_frames L") (auto simp: count_mset_set' not_in_iff le_Suc_eq simp flip: count_greater_zero_iff)
  qed
  then have "size (lists_frames L) = card (set_mset (lists_frames L))" by (metis size_mset_set)
  also have "\<dots> \<le> card {..<(2 :: nat) ^ 32}" using sub by (intro card_mono) auto
  finally show "size (lists_frames L) \<le> 2 ^ 32" by simp
qed

definition nb_rep :: "phys_mem \<Rightarrow> NumaBuddy \<Rightarrow> nat list list \<Rightarrow> bool" where
  "nb_rep mem nb L \<longleftrightarrow> length (nodes nb) = MAX_NUMA_NODES \<and>
     (case nodes nb ! 0 of
        None \<Rightarrow> L = replicate (MAX_ORDER + 1) []
      | Some node \<Rightarrow> node_rep mem node L)"

lemma lists_frames_empty [simp]: "lists_frames (replicate n []) = {#}"
  by (simp add: lists_frames_def)

lemma node_rep_new: "node_rep mem (BuddyNode_new k) (replicate (MAX_ORDER + 1) [])"
  by (auto simp: node_rep_def heads_rep_def BuddyNode_new_def nth_replicate simp del: replicate_Suc)

lemma node_add_region_rep:
  assumes rep: "node_rep mem node L" and b: "0 < base" "base mod 4096 = 0"
    and top: "base + frames * 4096 \<le> MAX_PLAUSIBLE_PHYS"
    and fresh: "{base div 4096 ..< base div 4096 + frames} \<inter> set_mset (lists_frames L) = {}"
  shows "\<exists>node' mem' L'. node_add_region base frames (node, mem) = Some (node', mem') \<and> node_rep mem' node' L' \<and>
     lists_frames L' = mset [base div 4096 ..< base div 4096 + frames] + lists_frames L"
proof -
  have heads: "heads_rep mem (free_lists node) L" using rep by (simp add: node_rep_def)
  define n1 where "n1 = (if node_size node = 0 \<or> base < node_base node then node\<lparr>node_base := base\<rparr> else node)"
  define n2 where "n2 = n1\<lparr>node_size := node_size n1 + frames, node_free := (node_free n1 + frames) mod 2 ^ 64\<rparr>"
  have n2: "free_lists n2 = free_lists node" "node_free n2 = (node_free node + frames) mod 2 ^ 64"
    by (simp_all add: n1_def n2_def)
  have d: "(base + frames * 4096) div 4096 = base div 4096 + frames" "(base + frames * 4096) mod 4096 = 0"
    using b by auto
  from region_loop_rep[of mem n2 L base "base + frames * 4096"] heads b top fresh d n2(1) obtain hs mem' L' where
    r: "region_loop base (base + frames * 4096) (n2, mem) = Some (n2\<lparr>free_lists := hs\<rparr>, mem')"
      "heads_rep mem' hs L'" "lists_frames L' = mset [base div 4096 ..< base div 4096 + frames] + lists_frames L"
    by auto
  have "size (lists_frames L') = frames + size (lists_frames L)" using r(3) by simp
  moreover have "size (lists_frames L') < 2 ^ 64" using heads_rep_bound(2)[OF r(2)] by simp
  ultimately have "node_free n2 = size (lists_frames L')"
    using rep n2(2) by (simp add: node_rep_def)
  with r have "node_rep mem' (n2\<lparr>free_lists := hs\<rparr>) L'" by (simp add: node_rep_def)
  moreover have "node_add_region base frames (node, mem) = Some (n2\<lparr>free_lists := hs\<rparr>, mem')"
    using r(1) unfolding node_add_region_def Let_def n1_def n2_def by simp
  ultimately show ?thesis using r(3) by blast
qed

lemma add_region_rep:
  assumes rep: "nb_rep mem nb L" and b: "0 < base" "base mod 4096 = 0"
    and top: "base + frames * 4096 \<le> MAX_PLAUSIBLE_PHYS"
    and fresh: "{base div 4096 ..< base div 4096 + frames} \<inter> set_mset (lists_frames L) = {}"
  shows "\<exists>nb' mem' L'. add_region 0 base frames (nb, mem) = Some (nb', mem') \<and> nb_rep mem' nb' L' \<and>
     lists_frames L' = mset [base div 4096 ..< base div 4096 + frames] + lists_frames L"
proof -
  let ?node = "case nodes nb ! 0 of None \<Rightarrow> BuddyNode_new 0 | Some node \<Rightarrow> node"
  have len: "0 < length (nodes nb)" using rep by (simp add: nb_rep_def MAX_NUMA_NODES_def)
  have "node_rep mem ?node L" using rep node_rep_new by (auto simp: nb_rep_def split: option.splits)
  from node_add_region_rep[OF this b top fresh] obtain node' mem' L' where
    r: "node_add_region base frames (?node, mem) = Some (node', mem')" "node_rep mem' node' L'"
      "lists_frames L' = mset [base div 4096 ..< base div 4096 + frames] + lists_frames L"
    by blast
  with rep len show ?thesis
    by (cases "nodes nb ! 0") (auto simp: add_region_def nb_rep_def intro!: exI[of _ L'])
qed

section \<open>The boot memory map\<close>

text \<open>
  The frames a range contributes: those that lie completely inside it and touch no
  reserved range.
\<close>

definition frame_clear :: "ExclusionSet \<Rightarrow> nat \<Rightarrow> bool" where
  "frame_clear ex f \<longleftrightarrow>
     (\<forall>r \<in> set (reserved_ranges ex). \<not> max (fst r) (f * 4096) < min (snd r) (f * 4096 + 4096))"

definition usable :: "ExclusionSet \<Rightarrow> nat \<Rightarrow> nat \<Rightarrow> nat set" where
  "usable ex start stop = {f. start \<le> f * 4096 \<and> f * 4096 + 4096 \<le> stop \<and> frame_clear ex f}"

lemma finite_usable [simp]: "finite (usable ex start stop)"
  by (rule finite_subset[of _ "{..stop}"]) (auto simp: usable_def)

lemma usable_split:
  assumes "first_exclusion_overlap start stop ex = Some (c, d)"
  shows "usable ex start stop = usable ex start c \<union> usable ex d stop" "usable ex start c \<inter> usable ex d stop = {}"
proof -
  from first_exclusion_overlap_SomeD[OF assms] obtain r where
    o: "start \<le> c" "c < d" "d \<le> stop" "r \<in> set (reserved_ranges ex)" "c = max (fst r) start" "d = min (snd r) stop"
    by blast
  have side: "f * 4096 + 4096 \<le> c \<or> d \<le> f * 4096" if "f \<in> usable ex start stop" for f
  proof -
    from that o(4) have "\<not> max (fst r) (f * 4096) < min (snd r) (f * 4096 + 4096)"
      "start \<le> f * 4096" "f * 4096 + 4096 \<le> stop" by (auto simp: usable_def frame_clear_def)
    with o show ?thesis by (auto simp: max_def min_def split: if_splits)
  qed
  show "usable ex start stop = usable ex start c \<union> usable ex d stop"
    using side o(1-3) by (auto simp: usable_def)
  show "usable ex start c \<inter> usable ex d stop = {}" using o(2) by (auto simp: usable_def)
qed

lemma exclusion_overlap_None:
  "exclusion_overlap a b r = None \<longleftrightarrow> \<not> max (fst r) a < min (snd r) b"
  by (simp add: exclusion_overlap_def Let_def)

lemma scan_reserved_None: "scan_reserved a b rs = None \<longleftrightarrow> (\<forall>r \<in> set rs. exclusion_overlap a b r = None)"
  by (induction rs) (auto split: option.splits)

lemma usable_whole:
  assumes "first_exclusion_overlap start stop ex = None"
  shows "usable ex start stop = {(start + 4095) div 4096 ..< stop div 4096}"
proof -
  have "frame_clear ex f" if "start \<le> f * 4096" "f * 4096 + 4096 \<le> stop" for f
    unfolding frame_clear_def
  proof
    fix r assume "r \<in> set (reserved_ranges ex)"
    with assms have "\<not> max (fst r) start < min (snd r) stop"
      by (simp add: first_exclusion_overlap_scan scan_reserved_None exclusion_overlap_None)
    moreover have "max (fst r) start \<le> max (fst r) (f * 4096)" using that by auto
    moreover have "min (snd r) (f * 4096 + 4096) \<le> min (snd r) stop" using that by auto
    ultimately show "\<not> max (fst r) (f * 4096) < min (snd r) (f * 4096 + 4096)" by linarith
  qed
  then have "usable ex start stop = {f. start \<le> f * 4096 \<and> f * 4096 + 4096 \<le> stop}"
    by (auto simp: usable_def)
  also have "\<dots> = {(start + 4095) div 4096 ..< stop div 4096}"
  proof -
    have "start \<le> f * 4096 \<longleftrightarrow> (start + 4095) div 4096 \<le> f" for f
      using div_less_iff_less_mult[of 4096 "start + 4095" "Suc f"] by (auto simp: less_Suc_eq_le)
    moreover have "f * 4096 + 4096 \<le> stop \<longleftrightarrow> f < stop div 4096" for f
      using less_eq_div_iff_mult_less_eq[of 4096 "Suc f" stop] by (auto simp: Suc_le_eq)
    ultimately show ?thesis by auto
  qed
  finally show ?thesis .
qed

lemma add_region_excluding_trivial: "stop \<le> start \<Longrightarrow> add_region_excluding k start stop ex nm = Some nm"
  by (subst add_region_excluding.simps) simp

lemma add_region_excluding_whole:
  assumes "start < stop" "first_exclusion_overlap start stop ex = None"
  shows "add_region_excluding k start stop ex nm =
    (if stop div 4096 \<le> (start + 4095) div 4096 then Some nm
     else add_region k ((start + 4095) div 4096 * 4096) (stop div 4096 - (start + 4095) div 4096) nm)"
proof -
  have "(stop div 4096 * 4096 - (start + 4095) div 4096 * 4096) div 4096 =
      stop div 4096 - (start + 4095) div 4096"
    by (simp flip: diff_mult_distrib)
  with assms show ?thesis
    by (subst add_region_excluding.simps) (simp add: Let_def add.commute[of start 4095])
qed

lemma add_region_excluding_split:
  assumes "start < stop" "first_exclusion_overlap start stop ex = Some (c, d)"
  shows "add_region_excluding k start stop ex nm =
    (case add_region_excluding k start c ex nm of
       None \<Rightarrow> None | Some nm' \<Rightarrow> add_region_excluding k d stop ex nm')"
  using assms
  by (subst add_region_excluding.simps) (auto simp: add_region_excluding_trivial split: option.split)

lemma add_region_excluding_rep:
  assumes "nb_rep mem nb L" "0 < start" "stop \<le> MAX_PLAUSIBLE_PHYS"
    and "usable ex start stop \<inter> set_mset (lists_frames L) = {}"
  shows "\<exists>nb' mem' L'. add_region_excluding 0 start stop ex (nb, mem) = Some (nb', mem') \<and> nb_rep mem' nb' L' \<and>
     lists_frames L' = mset_set (usable ex start stop) + lists_frames L"
  using assms
proof (induction "stop - start" arbitrary: start stop nb mem L rule: less_induct)
  case less
  show ?case
  proof (cases "start < stop")
    case False
    then have "usable ex start stop = {}" by (auto simp: usable_def)
    with False less.prems(1) show ?thesis by (auto simp: add_region_excluding_trivial)
  next
    case True
    show ?thesis
    proof (cases "first_exclusion_overlap start stop ex")
      case None
      let ?b = "(start + 4095) div 4096" and ?e = "stop div 4096"
      note w = usable_whole[OF None] and eq = add_region_excluding_whole[OF True None]
      show ?thesis
      proof (cases "?b < ?e")
        case lt: True
        have "?e * 4096 \<le> MAX_PLAUSIBLE_PHYS" using less.prems(3) by (meson div_times_less_eq_dividend le_trans)
        then have top: "?b * 4096 + (?e - ?b) * 4096 \<le> MAX_PLAUSIBLE_PHYS"
          using lt by (simp flip: add_mult_distrib)
        have fresh: "{?b * 4096 div 4096 ..< ?b * 4096 div 4096 + (?e - ?b)} \<inter> set_mset (lists_frames L) = {}"
          using less.prems(4) w lt by simp
        have "0 < ?b" using less.prems(2) by (simp add: div_greater_zero_iff)
        with add_region_rep[OF less.prems(1) _ _ top fresh] lt show ?thesis by (simp add: eq w)
      next
        case False
        with less.prems(1) show ?thesis by (auto simp: eq w)
      qed
    next
      case (Some p)
      then obtain c d where cd: "first_exclusion_overlap start stop ex = Some (c, d)" by (cases p) auto
      note sp = usable_split[OF cd] and o = first_exclusion_overlap_SomeD(1-3)[OF cd]
      have m: "c - start < stop - start" "stop - d < stop - start" "c \<le> MAX_PLAUSIBLE_PHYS" "0 < d"
        using o True less.prems(2,3) by auto
      have "usable ex start c \<inter> set_mset (lists_frames L) = {}" using less.prems(4) sp(1) by blast
      from less.hyps[OF m(1) less.prems(1,2) m(3) this] obtain nb1 mem1 L1 where
        l: "add_region_excluding 0 start c ex (nb, mem) = Some (nb1, mem1)" "nb_rep mem1 nb1 L1"
          "lists_frames L1 = mset_set (usable ex start c) + lists_frames L"
        by blast
      have "usable ex d stop \<inter> set_mset (lists_frames L1) = {}"
        using less.prems(4) sp l(3) by auto
      from less.hyps[OF m(2) l(2) m(4) less.prems(3) this] obtain nb2 mem2 L2 where
        r: "add_region_excluding 0 d stop ex (nb1, mem1) = Some (nb2, mem2)" "nb_rep mem2 nb2 L2"
          "lists_frames L2 = mset_set (usable ex d stop) + lists_frames L1"
        by blast
      have "lists_frames L2 = mset_set (usable ex start stop) + lists_frames L"
        using l(3) r(3) sp by (simp add: mset_set_Union add_ac)
      with l r show ?thesis by (auto simp: add_region_excluding_split[OF True cd])
    qed
  qed
qed

definition entry_frames :: "ExclusionSet \<Rightarrow> LimineMemmapEntry \<Rightarrow> nat set" where
  "entry_frames ex e = (if mem_type e = 0 then usable ex (entry_base e) (entry_base e + entry_length e) else {})"

definition entry_ok :: "LimineMemmapEntry \<Rightarrow> bool" where
  "entry_ok e \<longleftrightarrow> mem_type e = 0 \<longrightarrow> 0 < entry_base e \<and> entry_base e + entry_length e \<le> MAX_PLAUSIBLE_PHYS"

definition entries_apart :: "LimineMemmapEntry \<Rightarrow> LimineMemmapEntry \<Rightarrow> bool" where
  "entries_apart e e' \<longleftrightarrow> mem_type e = 0 \<longrightarrow> mem_type e' = 0 \<longrightarrow>
     entry_base e + entry_length e \<le> entry_base e' \<or> entry_base e' + entry_length e' \<le> entry_base e"

definition memmap_ok :: "LimineMemmapEntry list \<Rightarrow> bool" where
  "memmap_ok es \<longleftrightarrow> (\<forall>e \<in> set es. entry_ok e) \<and> sorted_wrt entries_apart es"

lemma memmap_ok_Cons:
  "memmap_ok (e # es) \<longleftrightarrow> entry_ok e \<and> (\<forall>e' \<in> set es. entries_apart e e') \<and> memmap_ok es"
  by (auto simp: memmap_ok_def)

lemma entries_apart_frames: "entries_apart e e' \<Longrightarrow> entry_frames ex e \<inter> entry_frames ex e' = {}"
  by (auto simp: entries_apart_def entry_frames_def usable_def)

lemma buddy_init_rep:
  assumes "nb_rep mem nb L" "memmap_ok es" "(\<Union>e \<in> set es. entry_frames ex e) \<inter> set_mset (lists_frames L) = {}"
  shows "\<exists>nb' mem' L'. buddy_init es ex (nb, mem) = Some (nb', mem') \<and> nb_rep mem' nb' L' \<and>
     set_mset (lists_frames L') = (\<Union>e \<in> set es. entry_frames ex e) \<union> set_mset (lists_frames L)"
  using assms
proof (induction es arbitrary: nb mem L)
  case (Cons e es)
  show ?case
  proof (cases "mem_type e = 0 \<and> entry_length e \<noteq> 0")
    case False
    then have "entry_frames ex e = {}" by (auto simp: entry_frames_def usable_def)
    with False Cons show ?thesis by (auto simp: memmap_ok_Cons)
  next
    case True
    let ?stop = "entry_base e + entry_length e"
    have ef: "entry_frames ex e = usable ex (entry_base e) ?stop" using True by (simp add: entry_frames_def)
    have ok: "0 < entry_base e" "?stop \<le> MAX_PLAUSIBLE_PHYS"
      using True Cons.prems(2) by (auto simp: memmap_ok_Cons entry_ok_def)
    have "usable ex (entry_base e) ?stop \<inter> set_mset (lists_frames L) = {}" using Cons.prems(3) ef by auto
    from add_region_excluding_rep[OF Cons.prems(1) ok this] obtain nb1 mem1 L1 where
      a: "add_region_excluding 0 (entry_base e) ?stop ex (nb, mem) = Some (nb1, mem1)" "nb_rep mem1 nb1 L1"
        "lists_frames L1 = mset_set (usable ex (entry_base e) ?stop) + lists_frames L"
      by blast
    have s1: "set_mset (lists_frames L1) = entry_frames ex e \<union> set_mset (lists_frames L)"
      by (simp add: a(3) ef)
    have "(\<Union>e' \<in> set es. entry_frames ex e') \<inter> set_mset (lists_frames L1) = {}"
      using Cons.prems(2,3) entries_apart_frames[of e _ ex] unfolding s1 memmap_ok_Cons by fastforce
    from Cons.IH[OF a(2) _ this] Cons.prems(2) obtain nb' mem' L' where
      "buddy_init es ex (nb1, mem1) = Some (nb', mem')" "nb_rep mem' nb' L'"
      "set_mset (lists_frames L') = (\<Union>e \<in> set es. entry_frames ex e) \<union> set_mset (lists_frames L1)"
      unfolding memmap_ok_Cons by blast
    with True a(1) s1 show ?thesis by (auto simp: Un_assoc intro!: exI[of _ L'])
  qed
qed auto

lemma nb_rep_new: "nb_rep mem NumaBuddy_new (replicate (MAX_ORDER + 1) [])"
  by (simp add: nb_rep_def NumaBuddy_new_def MAX_NUMA_NODES_def del: replicate_Suc)

section \<open>Main properties\<close>

text \<open>
  C15: boot-time initialisation.  For a memory map whose usable entries do not
  overlap, do not contain physical page 0 and end below 16 TiB, \<open>init\<close> runs without a
  failed assertion and the free lists then hold exactly the frames that lie
  completely inside a usable entry and touch none of the reserved ranges, each of
  them once.
\<close>

theorem buddy_init_exact:
  assumes "memmap_ok es"
  shows "\<exists>nb' mem' L. buddy_init es ex (NumaBuddy_new, mem) = Some (nb', mem') \<and> nb_rep mem' nb' L \<and>
     set_mset (lists_frames L) = {f. \<exists>e \<in> set es. mem_type e = 0 \<and> entry_base e \<le> f * 4096 \<and>
        f * 4096 + 4096 \<le> entry_base e + entry_length e \<and> frame_clear ex f}"
proof -
  have "(\<Union>e \<in> set es. entry_frames ex e) = {f. \<exists>e \<in> set es. mem_type e = 0 \<and> entry_base e \<le> f * 4096 \<and>
        f * 4096 + 4096 \<le> entry_base e + entry_length e \<and> frame_clear ex f}"
    by (auto simp: entry_frames_def usable_def split: if_splits)
  with buddy_init_rep[OF nb_rep_new assms, of ex mem] show ?thesis by (auto simp del: replicate_Suc)
qed

definition demo_memmap :: "LimineMemmapEntry list" where
  "demo_memmap = [\<lparr>entry_base = 4096, entry_length = 16384, mem_type = 0\<rparr>,
                  \<lparr>entry_base = 20480, entry_length = 4096, mem_type = 5\<rparr>]"

definition demo_exclusions :: ExclusionSet where
  "demo_exclusions = \<lparr>bump_consumed = (8192, 9000), kernel_phys_range = (0, 0), extra_reserved = []\<rparr>"

theorem buddy_init_exact_witness:
  "\<exists>nb' mem' L. buddy_init demo_memmap demo_exclusions (NumaBuddy_new, \<lambda>_. \<lparr>next_phys = 0, generation = 0\<rparr>) =
       Some (nb', mem') \<and> nb_rep mem' nb' L \<and> set_mset (lists_frames L) = {1, 3, 4}"
proof -
  have ok: "memmap_ok demo_memmap"
    by (simp add: demo_memmap_def memmap_ok_def entry_ok_def entries_apart_def MAX_PLAUSIBLE_PHYS_def)
  have "{f. \<exists>e \<in> set demo_memmap. mem_type e = 0 \<and> entry_base e \<le> f * 4096 \<and>
        f * 4096 + 4096 \<le> entry_base e + entry_length e \<and> frame_clear demo_exclusions f} = {1, 3, 4}"
    by (auto simp: demo_memmap_def demo_exclusions_def frame_clear_def reserved_ranges_def)
  with buddy_init_exact[OF ok, of demo_exclusions "\<lambda>_. \<lparr>next_phys = 0, generation = 0\<rparr>"] show ?thesis by metis
qed

end
