(* ===== verification/Allocator_Contract.thy ===== *)
theory Allocator_Contract
  imports Rumicos_Prelude
begin

text \<open>
  The contract of the kernel's allocators of numbered resources (physical frames,
  process-context identifiers, slab objects): an allocation returns a resource that
  nobody holds, and a held resource can be given back.  Clients reason about
  schedules of allocations and frees; \<open>Free_op k\<close> gives back the \<open>k\<close>-th held resource.
\<close>

datatype alloc_op = Alloc_op | Free_op nat

fun alloc_run :: "('s \<Rightarrow> (nat \<times> 's) option) \<Rightarrow> (nat \<Rightarrow> 's \<Rightarrow> 's option) \<Rightarrow> alloc_op list \<Rightarrow> nat list \<times> 's \<Rightarrow> (nat list \<times> 's) option" where
  "alloc_run al fr [] st = Some st"
| "alloc_run al fr (Alloc_op # ops) (held, s) =
     (case al s of None \<Rightarrow> alloc_run al fr ops (held, s) | Some (f, s') \<Rightarrow> alloc_run al fr ops (f # held, s'))"
| "alloc_run al fr (Free_op k # ops) (held, s) =
     (if k < length held then
        (case fr (held ! k) s of
           None \<Rightarrow> None
         | Some s' \<Rightarrow> alloc_run al fr ops (take k held @ drop (Suc k) held, s'))
      else alloc_run al fr ops (held, s))"

locale exclusive_allocator =
  fixes al :: "'s \<Rightarrow> (nat \<times> 's) option"
    and fr :: "nat \<Rightarrow> 's \<Rightarrow> 's option"
    and inv :: "nat set \<Rightarrow> nat set \<Rightarrow> 's \<Rightarrow> bool"
  assumes disjoint: "inv H F s \<Longrightarrow> H \<inter> F = {}"
    and alloc_free: "inv H F s \<Longrightarrow> al s = Some (f, s') \<Longrightarrow> f \<in> F \<and> inv (insert f H) (F - {f}) s'"
    and alloc_none: "inv H F s \<Longrightarrow> al s = None \<Longrightarrow> F = {}"
    and free_held: "inv H F s \<Longrightarrow> f \<in> H \<Longrightarrow> \<exists>s'. fr f s = Some s' \<and> inv (H - {f}) (insert f F) s'"
begin

lemma alloc_fresh: "inv H F s \<Longrightarrow> al s = Some (f, s') \<Longrightarrow> f \<notin> H"
  using alloc_free disjoint by blast

lemma run_sound:
  assumes "inv (set held) F s" "distinct held"
  shows "\<exists>held' s' F'. alloc_run al fr ops (held, s) = Some (held', s') \<and> distinct held' \<and>
     inv (set held') F' s' \<and> set held' \<union> F' = set held \<union> F"
  using assms
proof (induction ops arbitrary: held s F)
  case (Cons op ops)
  show ?case
  proof (cases op)
    case Alloc_op
    show ?thesis
    proof (cases "al s")
      case None
      with Cons Alloc_op show ?thesis by simp
    next
      case (Some p)
      then obtain f s' where p: "al s = Some (f, s')" by (cases p) auto
      from alloc_free[OF Cons.prems(1) p] alloc_fresh[OF Cons.prems(1) p] Cons.prems(2)
      have "inv (set (f # held)) (F - {f}) s'" "distinct (f # held)" "f \<in> F" by auto
      moreover from this have "set (f # held) \<union> (F - {f}) = set held \<union> F" by auto
      ultimately show ?thesis using Cons.IH[of "f # held" "F - {f}" s'] p Alloc_op by simp
    qed
  next
    case (Free_op k)
    show ?thesis
    proof (cases "k < length held")
      case False
      with Cons Free_op show ?thesis by simp
    next
      case True
      have d: "held = take k held @ held ! k # drop (Suc k) held" using True by (rule id_take_nth_drop)
      from free_held[OF Cons.prems(1) nth_mem[OF True]] obtain s' where
        s': "fr (held ! k) s = Some s'" "inv (set held - {held ! k}) (insert (held ! k) F) s'" by blast
      have dk: "distinct (take k held @ drop (Suc k) held)"
        and sk: "set (take k held @ drop (Suc k) held) = set held - {held ! k}"
      proof -
        have "distinct (take k held @ held ! k # drop (Suc k) held)"
          and eq: "set held = set (take k held @ held ! k # drop (Suc k) held)"
          using Cons.prems(2) d by metis+
        then show "distinct (take k held @ drop (Suc k) held)" by simp
        show "set (take k held @ drop (Suc k) held) = set held - {held ! k}"
          unfolding eq using \<open>distinct (take k held @ held ! k # drop (Suc k) held)\<close> by auto
      qed
      have "set held - {held ! k} \<union> insert (held ! k) F = set held \<union> F" using nth_mem[OF True] by auto
      with Cons.IH[of "take k held @ drop (Suc k) held" "insert (held ! k) F" s'] dk sk s' True Free_op
      show ?thesis by simp
    qed
  qed
qed auto

end

end
