(* ===== verification/Frame_Alloc.thy ===== *)
theory Frame_Alloc
  imports Buddy Allocator_Contract
begin

text \<open>
  The kernel's public frame allocator (\<open>crates/memory/src/lib.rs\<close>): the buddy
  allocator behind its lock together with the allocation-tracking bitmap over the
  first 2 GiB.  The entry points panic when memory runs out and when the bitmap
  shows that a frame is handed out twice or freed while not allocated.  The lemmas
  show that the second kind of panic never happens to a caller that frees only
  frames it holds, and always happens on a double free of a tracked frame.
\<close>

datatype panic = OOM | Assertion

definition TRACK_LIMIT :: nat where
  "TRACK_LIMIT = 2 * 2 ^ 30"

definition TRACK_WORDS :: nat where
  "TRACK_WORDS = (TRACK_LIMIT div PAGE_SIZE) div 64"

record galloc =
  buddy :: NumaBuddy
  alloc_bitmap :: "u64 list"
  phys :: phys_mem

fun track_alloc_from :: "nat \<Rightarrow> nat list \<Rightarrow> u64 list \<Rightarrow> u64 list option" where
  "track_alloc_from base [] bm = Some bm"
| "track_alloc_from base (i # is) bm =
     (let addr = base + i * PAGE_SIZE in
      if addr \<ge> TRACK_LIMIT then track_alloc_from base is bm
      else
        (let b = addr div PAGE_SIZE;
             prev = bm ! (b div 64);
             m = push_bit (b mod 64) 1
         in if prev AND m = 0 then track_alloc_from base is (bm[b div 64 := prev OR m]) else None))"

definition track_alloc :: "nat \<Rightarrow> nat \<Rightarrow> u64 list \<Rightarrow> u64 list option" where
  "track_alloc frame ord bm = track_alloc_from frame [0..<2 ^ ord] bm"

definition track_free :: "nat \<Rightarrow> u64 list \<Rightarrow> u64 list option" where
  "track_free addr bm =
     (if addr \<ge> TRACK_LIMIT then Some bm
      else
        (let b = addr div PAGE_SIZE;
             prev = bm ! (b div 64);
             m = push_bit (b mod 64) 1
         in if prev AND m \<noteq> 0 then Some (bm[b div 64 := prev AND NOT m]) else None))"

text \<open>Check the outcome of an allocation: an assertion inside, no memory, or a frame to track.\<close>

definition tracked :: "nat \<Rightarrow> (nat option \<times> NumaBuddy \<times> phys_mem) option \<Rightarrow> galloc \<Rightarrow> panic + nat \<times> galloc" where
  "tracked ord r g =
     (case r of
        None \<Rightarrow> Inl Assertion
      | Some (None, _) \<Rightarrow> Inl OOM
      | Some (Some frame, nb, mem) \<Rightarrow>
          (case track_alloc frame ord (alloc_bitmap g) of
             None \<Rightarrow> Inl Assertion
           | Some bm \<Rightarrow> Inr (frame, g\<lparr>buddy := nb, alloc_bitmap := bm, phys := mem\<rparr>)))"

definition alloc_order :: "nat \<Rightarrow> galloc \<Rightarrow> panic + nat \<times> galloc" where
  "alloc_order ord g = tracked ord (nb_alloc_order ord (buddy g, phys g)) g"

definition alloc_frame :: "galloc \<Rightarrow> panic + nat \<times> galloc" where
  "alloc_frame g = tracked 0 (nb_alloc_frame (buddy g, phys g)) g"

definition alloc_frame_below_4g :: "galloc \<Rightarrow> panic + nat \<times> galloc" where
  "alloc_frame_below_4g g = tracked 0 (nb_alloc_frame_below_4g (buddy g, phys g)) g"

definition free_frame :: "nat \<Rightarrow> galloc \<Rightarrow> panic + galloc" where
  "free_frame frame g =
     (case track_free frame (alloc_bitmap g) of
        None \<Rightarrow> Inl Assertion
      | Some bm \<Rightarrow>
          (case nb_free_frame frame (buddy g, phys g) of
             None \<Rightarrow> Inl Assertion
           | Some (nb, mem) \<Rightarrow> Inr (g\<lparr>buddy := nb, alloc_bitmap := bm, phys := mem\<rparr>)))"

definition init_frame_allocator :: "LimineMemmapEntry list \<Rightarrow> ExclusionSet \<Rightarrow> galloc \<Rightarrow> panic + galloc" where
  "init_frame_allocator memmap ex g =
     (case buddy_init memmap ex (buddy g, phys g) of
        None \<Rightarrow> Inl Assertion
      | Some (nb, mem) \<Rightarrow> Inr (g\<lparr>buddy := nb, phys := mem\<rparr>))"

definition galloc_boot :: "phys_mem \<Rightarrow> galloc" where
  "galloc_boot mem = \<lparr>buddy = NumaBuddy_new, alloc_bitmap = replicate TRACK_WORDS 0, phys = mem\<rparr>"

section \<open>The tracking bitmap\<close>

definition frame_bit :: "u64 list \<Rightarrow> nat \<Rightarrow> bool" where
  "frame_bit bm f = bit (bm ! (f div 64)) (f mod 64)"

definition TRACK_FRAMES :: nat where
  "TRACK_FRAMES = TRACK_LIMIT div PAGE_SIZE"

lemma track_frames: "TRACK_FRAMES = TRACK_WORDS * 64" "f * 4096 < TRACK_LIMIT \<longleftrightarrow> f < TRACK_FRAMES"
  by (auto simp: TRACK_FRAMES_def TRACK_WORDS_def TRACK_LIMIT_def)

lemma track_limit_le: "TRACK_LIMIT \<le> f * 4096 \<longleftrightarrow> TRACK_FRAMES \<le> f"
  using track_frames(2)[of f] by linarith

lemma frame_word: "f < TRACK_FRAMES \<Longrightarrow> f div 64 < TRACK_WORDS"
  by (simp add: track_frames less_mult_imp_div_less)

lemma mask_test:
  assumes "k < 64"
  shows "(w :: u64) AND 2 ^ k = 0 \<longleftrightarrow> \<not> bit w k"
proof -
  have "bit (w AND 2 ^ k) k = bit w k" using assms by (simp add: bit_simps)
  moreover have "w AND 2 ^ k = 0" if "\<not> bit w k"
    by (rule bit_word_eqI) (use that in \<open>auto simp: bit_simps\<close>)
  ultimately show ?thesis by auto
qed

lemma same_word_bit: fixes f g :: nat shows "f div 64 = g div 64 \<and> f mod 64 = g mod 64 \<longleftrightarrow> f = g"
  by (metis div_mult_mod_eq)

lemma frame_bit_set:
  assumes "length bm = TRACK_WORDS" "g < TRACK_FRAMES"
  shows "frame_bit (bm[g div 64 := bm ! (g div 64) OR 2 ^ (g mod 64)]) f \<longleftrightarrow> f = g \<or> frame_bit bm f"
proof (cases "f div 64 = g div 64")
  case True
  with assms frame_word[OF assms(2)] same_word_bit[of f g] show ?thesis
    by (auto simp: frame_bit_def bit_simps)
qed (auto simp: frame_bit_def)

lemma frame_bit_clear:
  assumes "length bm = TRACK_WORDS" "g < TRACK_FRAMES"
  shows "frame_bit (bm[g div 64 := bm ! (g div 64) AND NOT (2 ^ (g mod 64))]) f \<longleftrightarrow> f \<noteq> g \<and> frame_bit bm f"
proof (cases "f div 64 = g div 64")
  case True
  with assms frame_word[OF assms(2)] same_word_bit[of f g] show ?thesis
    by (auto simp: frame_bit_def bit_simps)
qed (auto simp: frame_bit_def)

definition bitmap_ok :: "u64 list \<Rightarrow> nat set \<Rightarrow> bool" where
  "bitmap_ok bm H \<longleftrightarrow> length bm = TRACK_WORDS \<and> (\<forall>f < TRACK_FRAMES. frame_bit bm f \<longleftrightarrow> f \<in> H)"

lemma track_alloc_from_ok:
  assumes "bitmap_ok bm H" "base mod 4096 = 0" "distinct is" "\<forall>i \<in> set is. base div 4096 + i \<notin> H"
  shows "\<exists>bm'. track_alloc_from base is bm = Some bm' \<and> bitmap_ok bm' (H \<union> (\<lambda>i. base div 4096 + i) ` set is)"
  using assms
proof (induction "is" arbitrary: bm H)
  case (Cons i "is")
  let ?f = "base div 4096 + i"
  have addr: "base + i * 4096 = ?f * 4096" using Cons.prems(2) by (auto simp: add_mult_distrib)
  show ?case
  proof (cases "?f < TRACK_FRAMES")
    case False
    then have skip: "\<not> base + i * 4096 < TRACK_LIMIT" unfolding addr track_frames(2) by simp
    have "bitmap_ok bm (insert ?f H)" using Cons.prems(1) False by (auto simp: bitmap_ok_def)
    from Cons.IH[OF this Cons.prems(2)] Cons.prems(3,4) skip show ?thesis by auto
  next
    case True
    then have lt: "base + i * 4096 < TRACK_LIMIT" unfolding addr track_frames(2) by simp
    have d: "(base + i * 4096) div 4096 = ?f" unfolding addr by simp
    let ?bm = "bm[?f div 64 := bm ! (?f div 64) OR push_bit (?f mod 64) 1]"
    have clear: "bm ! (?f div 64) AND push_bit (?f mod 64) 1 = 0"
      using Cons.prems(1,4) True by (simp add: mask_test bitmap_ok_def frame_bit_def)
    have "bitmap_ok ?bm (insert ?f H)"
      using Cons.prems(1) True by (auto simp: bitmap_ok_def frame_bit_set)
    from Cons.IH[OF this Cons.prems(2)] Cons.prems(3,4) obtain bm' where
      "track_alloc_from base is ?bm = Some bm'" "bitmap_ok bm' (insert ?f H \<union> (\<lambda>i. base div 4096 + i) ` set is)"
      by auto
    with lt d clear show ?thesis by (simp add: Let_def add.commute[of i])
  qed
qed simp

lemma track_alloc_ok:
  assumes "bitmap_ok bm H" "b mod 4096 = 0" "set_mset (block_frames ord b) \<inter> H = {}"
  shows "\<exists>bm'. track_alloc b ord bm = Some bm' \<and> bitmap_ok bm' (H \<union> set_mset (block_frames ord b))"
proof -
  have img: "(\<lambda>i. b div 4096 + i) ` set [0..<2 ^ ord] = set_mset (block_frames ord b)"
    by (simp add: set_block_frames image_add_atLeastLessThan add.commute)
  then have "\<forall>i \<in> set [0..<2 ^ ord]. b div 4096 + i \<notin> H" using assms(3) by blast
  from track_alloc_from_ok[OF assms(1,2) distinct_upt this] img show ?thesis
    by (simp add: track_alloc_def)
qed

lemma track_free_ok:
  assumes "bitmap_ok bm H" "f \<in> H"
  shows "\<exists>bm'. track_free (f * 4096) bm = Some bm' \<and> bitmap_ok bm' (H - {f})"
proof (cases "f < TRACK_FRAMES")
  case True
  with assms have "bm ! (f div 64) AND push_bit (f mod 64) 1 \<noteq> 0"
    by (simp add: mask_test bitmap_ok_def frame_bit_def)
  with assms True show ?thesis
    by (auto simp: track_free_def Let_def track_limit_le bitmap_ok_def frame_bit_clear)
next
  case False
  with assms show ?thesis by (auto simp: track_free_def track_limit_le bitmap_ok_def)
qed

lemma track_free_refused:
  assumes "bitmap_ok bm H" "f \<notin> H" "f < TRACK_FRAMES"
  shows "track_free (f * 4096) bm = None"
  using assms by (simp add: track_free_def Let_def track_limit_le mask_test bitmap_ok_def frame_bit_def)

section \<open>The buddy allocator as a set of free frames\<close>

lemma nb_rep_heads: "nb_rep mem nb L \<Longrightarrow> \<exists>hs. heads_rep mem hs L"
  using node_rep_new[of mem 0] by (auto simp: nb_rep_def node_rep_def split: option.splits)

lemma nb_rep_bound: "nb_rep mem nb L \<Longrightarrow> f \<in># lists_frames L \<Longrightarrow> 0 < f \<and> f < 2 ^ 32"
proof -
  assume "nb_rep mem nb L" and f: "f \<in># lists_frames L"
  then obtain hs where h: "heads_rep mem hs L" using nb_rep_heads by blast
  then obtain i b where "block_ok i b" "f \<in># block_frames i b"
    using f unfolding in_lists_frames heads_rep_def by blast
  moreover have "0 < b div 4096" if "block_ok i b" for i b
    using that block_mod[OF that] by (auto simp: block_ok_def)
  ultimately show ?thesis using heads_rep_bound(1)[OF h] f by (fastforce simp: set_block_frames)
qed

lemma nb_rep_frame:
  assumes "\<And>y. y div 4096 \<in># lists_frames L \<Longrightarrow> mem' y = mem y"
  shows "nb_rep mem' nb L = nb_rep mem nb L"
  using heads_rep_frame[OF assms] by (simp add: nb_rep_def node_rep_def split: option.split)

lemma nb_alloc_order_rep:
  assumes rep: "nb_rep mem nb L" and ord: "ord \<le> MAX_ORDER"
  shows "(\<exists>nb'. nb_alloc_order ord (nb, mem) = Some (None, nb', mem) \<and> nb_rep mem nb' L \<and>
       (\<forall>i. ord \<le> i \<longrightarrow> i \<le> MAX_ORDER \<longrightarrow> L ! i = [])) \<or>
     (\<exists>b nb' mem' L'. nb_alloc_order ord (nb, mem) = Some (Some b, nb', mem') \<and>
       nb_rep mem' nb' L' \<and> block_ok ord b \<and> lists_frames L = block_frames ord b + lists_frames L' \<and>
       (\<forall>y. y div 4096 \<notin># lists_frames L \<longrightarrow> mem' y = mem y))"
proof (cases "nodes nb ! 0")
  case None
  with rep show ?thesis
    by (intro disjI1) (auto simp: nb_alloc_order_def nb_rep_def nth_replicate simp del: replicate_Suc)
next
  case (Some node)
  with rep have nrep: "node_rep mem node L" and len: "0 < length (nodes nb)"
    by (auto simp: nb_rep_def MAX_NUMA_NODES_def)
  have "size (lists_frames L) < 2 ^ 64"
    using nrep heads_rep_bound(2)[of mem _ L] by (force simp: node_rep_def)
  from node_alloc_order_rep[OF nrep ord this] show ?thesis
  proof (elim disjE exE conjE)
    fix node' assume "node_alloc_order ord (node, mem) = Some (None, node', mem)" "node_rep mem node' L"
      "\<forall>i. ord \<le> i \<longrightarrow> i \<le> MAX_ORDER \<longrightarrow> L ! i = []"
    with Some rep len show ?thesis by (intro disjI1) (auto simp: nb_alloc_order_def nb_rep_def)
  next
    fix b node' mem' L'
    assume "node_alloc_order ord (node, mem) = Some (Some b, node', mem')" "node_rep mem' node' L'"
      "block_ok ord b" "lists_frames L = block_frames ord b + lists_frames L'"
      "\<forall>y. y div 4096 \<notin># lists_frames L \<longrightarrow> mem' y = mem y"
    with Some rep len show ?thesis
      by (intro disjI2 exI[of _ b] exI[of _ "nb\<lparr>nodes := (nodes nb)[0 := Some node']\<rparr>"] exI[of _ mem'] exI[of _ L'])
         (auto simp: nb_alloc_order_def nb_rep_def)
  qed
qed

lemma nb_free_frame_rep:
  assumes rep: "nb_rep mem nb L" and some: "nodes nb ! 0 \<noteq> None"
    and f: "0 < f" "f < 2 ^ 32" "f \<notin># lists_frames L"
  shows "\<exists>nb' mem' L'. nb_free_frame (f * 4096) (nb, mem) = Some (nb', mem') \<and> nb_rep mem' nb' L' \<and>
     lists_frames L' = add_mset f (lists_frames L) \<and> (\<forall>y. y div 4096 \<noteq> f \<longrightarrow> mem' y = mem y) \<and> nodes nb' ! 0 \<noteq> None"
proof -
  from some obtain node where node: "nodes nb ! 0 = Some node" by auto
  with rep have nrep: "node_rep mem node L" and len: "0 < length (nodes nb)"
    by (auto simp: nb_rep_def MAX_NUMA_NODES_def)
  have bf: "block_frames 0 (f * 4096) = {#f#}" by (simp add: block_frames_def)
  have "f * 4096 + 4096 \<le> MAX_PLAUSIBLE_PHYS" using f(2) by (simp add: MAX_PLAUSIBLE_PHYS_def)
  then have ok: "block_ok 0 (f * 4096)" using f(1) by (simp add: block_ok_def)
  have "size (lists_frames L) + 2 ^ 0 < 2 ^ 64"
    using nrep heads_rep_bound(2)[of mem _ L] by (force simp: node_rep_def)
  from node_free_order_rep[OF nrep _ ok _ this] f(3) bf obtain node' mem' L' where
    r: "node_free_order (f * 4096) 0 (node, mem) = Some (node', mem')" "node_rep mem' node' L'"
      "lists_frames L' = add_mset f (lists_frames L)" "\<forall>y. y \<noteq> f * 4096 \<longrightarrow> mem' y = mem y"
    by auto
  have "mem' y = mem y" if "y div 4096 \<noteq> f" for y using r(4) that by auto
  with r node rep len show ?thesis by (auto simp: nb_free_frame_def nb_rep_def intro!: exI[of _ L'])
qed

section \<open>The allocator invariant\<close>

text \<open>
  \<open>H\<close> is the set of frames the kernel holds and \<open>F\<close> the set of free frames.  They are
  disjoint, free frames are on the lists once, and the bitmap agrees with \<open>H\<close> on the
  tracked range.
\<close>

definition galloc_inv :: "nat set \<Rightarrow> nat set \<Rightarrow> galloc \<Rightarrow> bool" where
  "galloc_inv H F g \<longleftrightarrow> (\<exists>L. nb_rep (phys g) (buddy g) L \<and> F = set_mset (lists_frames L)) \<and> H \<inter> F = {} \<and>
     bitmap_ok (alloc_bitmap g) H \<and> (H \<noteq> {} \<longrightarrow> nodes (buddy g) ! 0 \<noteq> None) \<and> (\<forall>f \<in> H. 0 < f \<and> f < 2 ^ 32)"

definition block :: "nat \<Rightarrow> nat \<Rightarrow> nat set" where
  "block ord b = {b div PAGE_SIZE ..< b div PAGE_SIZE + 2 ^ ord}"

lemma block_set: "set_mset (block_frames ord b) = block ord b"
  by (simp add: block_def set_block_frames)

lemma tracked_block:
  assumes inv: "galloc_inv H F g" and rep: "nb_rep (phys g) (buddy g) L" "F = set_mset (lists_frames L)"
    and r: "r = Some (Some b, nb', mem')" "nb_rep mem' nb' L'" "block_ok ord b"
      "lists_frames L = block_frames ord b + lists_frames L'" "nodes nb' ! 0 \<noteq> None"
      "\<forall>y. y div 4096 \<notin># lists_frames L \<longrightarrow> mem' y = phys g y"
  shows "\<exists>g'. tracked ord r g = Inr (b, g') \<and> galloc_inv (H \<union> block ord b) (F - block ord b) g' \<and>
     block ord b \<subseteq> F \<and> b mod 2 ^ (ord + 12) = 0 \<and> (\<forall>y. y div 4096 \<in> H \<longrightarrow> phys g' y = phys g y)"
proof -
  have sub: "block ord b \<subseteq> F" using rep(2) r(4) by (auto simp: block_set[symmetric])
  have HF: "H \<inter> F = {}" and bits: "bitmap_ok (alloc_bitmap g) H" using inv by (auto simp: galloc_inv_def)
  then have "set_mset (block_frames ord b) \<inter> H = {}" using sub by (auto simp: block_set)
  from track_alloc_ok[OF bits block_mod[OF r(3)] this] obtain bm' where
    bm: "track_alloc b ord (alloc_bitmap g) = Some bm'" "bitmap_ok bm' (H \<union> block ord b)"
    by (auto simp: block_set)
  obtain hs where h: "heads_rep (phys g) hs L" using nb_rep_heads[OF rep(1)] by blast
  then have "block ord b \<inter> set_mset (lists_frames L') = {}"
    unfolding block_set[symmetric] using r(4) by (intro count_disjoint) (simp add: heads_rep_def)
  then have F': "F - block ord b = set_mset (lists_frames L')" using rep(2) r(4) by (auto simp: block_set)
  have pos: "0 < f \<and> f < 2 ^ 32" if "f \<in> block ord b" for f
    using nb_rep_bound[OF rep(1), of f] that sub rep(2) by auto
  let ?g = "g\<lparr>buddy := nb', alloc_bitmap := bm', phys := mem'\<rparr>"
  have "galloc_inv (H \<union> block ord b) (F - block ord b) ?g"
    using inv r(2,5) F' HF pos bm(2) by (auto simp: galloc_inv_def)
  moreover have "phys ?g y = phys g y" if "y div 4096 \<in> H" for y
    using r(6) that rep(2) HF by auto
  moreover have "tracked ord r g = Inr (b, ?g)" using r(1) bm(1) by (simp add: tracked_def)
  ultimately show ?thesis using sub r(3) by (auto simp: block_ok_def)
qed

lemma nb_alloc_node: "nb_alloc_order ord (nb, mem) = Some (Some b, nb', mem') \<Longrightarrow> 0 < length (nodes nb) \<Longrightarrow> nodes nb' ! 0 \<noteq> None"
  by (auto simp: nb_alloc_order_def split: option.splits)

lemma lists_frames_none: "(\<forall>i < length L. L ! i = []) \<Longrightarrow> set_mset (lists_frames L) = {}"
  unfolding set_eq_iff in_lists_frames by auto

lemma alloc_order_inv:
  assumes inv: "galloc_inv H F g" and ord: "ord \<le> MAX_ORDER"
  shows "alloc_order ord g = Inl OOM \<and> (ord = 0 \<longrightarrow> F = {}) \<or>
    (\<exists>b g'. alloc_order ord g = Inr (b, g') \<and> galloc_inv (H \<union> block ord b) (F - block ord b) g' \<and>
       block ord b \<subseteq> F \<and> b mod 2 ^ (ord + 12) = 0 \<and> (\<forall>y. y div 4096 \<in> H \<longrightarrow> phys g' y = phys g y))"
proof -
  from inv obtain L where rep: "nb_rep (phys g) (buddy g) L" "F = set_mset (lists_frames L)"
    by (auto simp: galloc_inv_def)
  have len: "0 < length (nodes (buddy g))" using rep(1) by (simp add: nb_rep_def MAX_NUMA_NODES_def)
  have lenL: "length L = MAX_ORDER + 1" using nb_rep_heads[OF rep(1)] by (auto simp: heads_rep_def)
  from nb_alloc_order_rep[OF rep(1) ord] show ?thesis
  proof (elim disjE exE conjE)
    fix nb' assume a: "nb_alloc_order ord (buddy g, phys g) = Some (None, nb', phys g)"
      "\<forall>i. ord \<le> i \<longrightarrow> i \<le> MAX_ORDER \<longrightarrow> L ! i = []"
    have "F = {}" if "ord = 0" using a(2) that rep(2) lenL lists_frames_none[of L] by auto
    with a(1) show ?thesis by (simp add: alloc_order_def tracked_def)
  next
    fix b nb' mem' L'
    assume a: "nb_alloc_order ord (buddy g, phys g) = Some (Some b, nb', mem')" "nb_rep mem' nb' L'"
      "block_ok ord b" "lists_frames L = block_frames ord b + lists_frames L'"
      "\<forall>y. y div 4096 \<notin># lists_frames L \<longrightarrow> mem' y = phys g y"
    from tracked_block[OF inv rep a(1-4) nb_alloc_node[OF a(1) len] a(5)] show ?thesis
      by (auto simp: alloc_order_def)
  qed
qed

lemma alloc_frame_eq: "alloc_frame g = alloc_order 0 g"
  by (simp add: alloc_frame_def alloc_order_def nb_alloc_frame_def)

lemma free_frame_inv:
  assumes inv: "galloc_inv H F g" and f: "f \<in> H"
  shows "\<exists>g'. free_frame (f * 4096) g = Inr g' \<and> galloc_inv (H - {f}) (insert f F) g' \<and>
    (\<forall>y. y div 4096 \<noteq> f \<longrightarrow> phys g' y = phys g y)"
proof -
  from inv obtain L where rep: "nb_rep (phys g) (buddy g) L" "F = set_mset (lists_frames L)"
    by (auto simp: galloc_inv_def)
  from inv f have bits: "bitmap_ok (alloc_bitmap g) H" and pos: "0 < f" "f < 2 ^ 32" and HF: "H \<inter> F = {}"
    and node: "nodes (buddy g) ! 0 \<noteq> None" by (auto simp: galloc_inv_def)
  from track_free_ok[OF bits f] obtain bm' where
    bm: "track_free (f * 4096) (alloc_bitmap g) = Some bm'" "bitmap_ok bm' (H - {f})" by blast
  from nb_free_frame_rep[OF rep(1) node pos] rep(2) HF f obtain nb' mem' L' where
    r: "nb_free_frame (f * 4096) (buddy g, phys g) = Some (nb', mem')" "nb_rep mem' nb' L'"
      "lists_frames L' = add_mset f (lists_frames L)" "\<forall>y. y div 4096 \<noteq> f \<longrightarrow> mem' y = phys g y" "nodes nb' ! 0 \<noteq> None"
    by blast
  let ?g = "g\<lparr>buddy := nb', alloc_bitmap := bm', phys := mem'\<rparr>"
  have "insert f F = set_mset (lists_frames L')" using r(3) rep(2) by simp
  with inv r(2,5) bm(2) HF have "galloc_inv (H - {f}) (insert f F) ?g" by (auto simp: galloc_inv_def)
  moreover have "free_frame (f * 4096) g = Inr ?g" using bm(1) r(1) by (simp add: free_frame_def)
  ultimately show ?thesis using r(4) by auto
qed

lemma double_free_refused:
  assumes "galloc_inv H F g" "f \<notin> H" "f < TRACK_FRAMES"
  shows "free_frame (f * 4096) g = Inl Assertion"
proof -
  have "track_free (f * 4096) (alloc_bitmap g) = None"
    by (rule track_free_refused[of _ H]) (use assms in \<open>auto simp: galloc_inv_def\<close>)
  then show ?thesis by (simp add: free_frame_def)
qed

text \<open>A holder may write its frames without disturbing the allocator.\<close>

lemma holder_writes:
  assumes "galloc_inv H F g" "\<And>y. y div 4096 \<notin> H \<Longrightarrow> mem' y = phys g y"
  shows "galloc_inv H F (g\<lparr>phys := mem'\<rparr>)"
proof -
  from assms(1) obtain L where rep: "nb_rep (phys g) (buddy g) L" "F = set_mset (lists_frames L)" and HF: "H \<inter> F = {}"
    by (auto simp: galloc_inv_def)
  have "nb_rep mem' (buddy g) L = nb_rep (phys g) (buddy g) L"
    by (rule nb_rep_frame) (use assms(2) rep(2) HF in auto)
  with assms(1) rep show ?thesis by (auto simp: galloc_inv_def)
qed

section \<open>Frames below 4 GiB\<close>

definition pages :: "nat list \<Rightarrow> nat multiset" where
  "pages bs = mset (map (\<lambda>b. b div PAGE_SIZE) bs)"

lemma pages_simps [simp]: "pages [] = {#}" "pages (b # bs) = add_mset (b div 4096) (pages bs)"
    "pages (bs @ [b]) = add_mset (b div 4096) (pages bs)"
  by (simp_all add: pages_def)

lemma nb_alloc_frame_rep:
  assumes "nb_rep mem nb L"
  shows "(\<exists>nb'. nb_alloc_frame (nb, mem) = Some (None, nb', mem) \<and> nb_rep mem nb' L) \<or>
     (\<exists>b nb' mem' L'. nb_alloc_frame (nb, mem) = Some (Some b, nb', mem') \<and> nb_rep mem' nb' L' \<and>
       block_ok 0 b \<and> lists_frames L = add_mset (b div 4096) (lists_frames L') \<and> nodes nb' ! 0 \<noteq> None \<and>
       (\<forall>y. y div 4096 \<notin># lists_frames L \<longrightarrow> mem' y = mem y))"
proof -
  have one: "block_frames 0 b = {#b div 4096#}" for b by (simp add: block_frames_def)
  have len: "0 < length (nodes nb)" using assms by (simp add: nb_rep_def MAX_NUMA_NODES_def)
  from nb_alloc_order_rep[OF assms, of 0] show ?thesis
    using nb_alloc_node[OF _ len, of 0 mem] unfolding nb_alloc_frame_def one by fastforce
qed

lemma low_tries_rep:
  assumes "nb_rep mem nb L" "\<forall>b \<in> set rs. block_ok 0 b" "rs \<noteq> [] \<longrightarrow> nodes nb ! 0 \<noteq> None"
  shows "\<exists>res rs' nb' mem' L'. low_tries k rs (nb, mem) = Some (res, rs', nb', mem') \<and> nb_rep mem' nb' L' \<and>
     (\<forall>b \<in> set rs'. block_ok 0 b) \<and> (rs' \<noteq> [] \<or> res \<noteq> None \<longrightarrow> nodes nb' ! 0 \<noteq> None) \<and>
     (case res of
        None \<Rightarrow> lists_frames L + pages rs = lists_frames L' + pages rs'
      | Some b \<Rightarrow> b < LOW_4G_LIMIT \<and> block_ok 0 b \<and>
          lists_frames L + pages rs = add_mset (b div 4096) (lists_frames L' + pages rs')) \<and>
     (\<forall>y. y div 4096 \<notin># lists_frames L \<longrightarrow> mem' y = mem y)"
  using assms
proof (induction k arbitrary: rs nb mem L)
  case 0
  then show ?case by (auto intro!: exI[of _ L])
next
  case (Suc k)
  from nb_alloc_frame_rep[OF Suc.prems(1)] show ?case
  proof (elim disjE exE conjE)
    fix nb' assume "nb_alloc_frame (nb, mem) = Some (None, nb', mem)" "nb_rep mem nb' L"
    moreover from this have "nodes nb ! 0 \<noteq> None \<Longrightarrow> nodes nb' ! 0 \<noteq> None"
      using Suc.prems(1) by (auto simp: nb_alloc_frame_def nb_alloc_order_def nb_rep_def MAX_NUMA_NODES_def split: option.splits)
    ultimately show ?thesis using Suc.prems by (auto intro!: exI[of _ L])
  next
    fix b nb' mem' L'
    assume a: "nb_alloc_frame (nb, mem) = Some (Some b, nb', mem')" "nb_rep mem' nb' L'" "block_ok 0 b"
      "lists_frames L = add_mset (b div 4096) (lists_frames L')" "nodes nb' ! 0 \<noteq> None"
      "\<forall>y. y div 4096 \<notin># lists_frames L \<longrightarrow> mem' y = mem y"
    show ?thesis
    proof (cases "b < LOW_4G_LIMIT")
      case True
      with a Suc.prems show ?thesis by (auto intro!: exI[of _ L'])
    next
      case False
      have ok': "\<forall>c \<in> set (rs @ [b]). block_ok 0 c" and node': "rs @ [b] \<noteq> [] \<longrightarrow> nodes nb' ! 0 \<noteq> None"
        using a(3,5) Suc.prems(2) by auto
      from Suc.IH[OF a(2) ok' node'] obtain res rs' nb2 mem2 L2 where
        ih: "low_tries k (rs @ [b]) (nb', mem') = Some (res, rs', nb2, mem2)" "nb_rep mem2 nb2 L2"
          "\<forall>b \<in> set rs'. block_ok 0 b" "rs' \<noteq> [] \<or> res \<noteq> None \<longrightarrow> nodes nb2 ! 0 \<noteq> None"
          "case res of None \<Rightarrow> lists_frames L' + pages (rs @ [b]) = lists_frames L2 + pages rs'
           | Some c \<Rightarrow> c < LOW_4G_LIMIT \<and> block_ok 0 c \<and>
               lists_frames L' + pages (rs @ [b]) = add_mset (c div 4096) (lists_frames L2 + pages rs')"
          "\<forall>y. y div 4096 \<notin># lists_frames L' \<longrightarrow> mem2 y = mem' y"
        by blast
      have eq: "lists_frames L' + pages (rs @ [b]) = lists_frames L + pages rs" using a(4) by simp
      have "\<forall>y. y div 4096 \<notin># lists_frames L \<longrightarrow> mem2 y = mem y" using ih(6) a(4,6) by auto
      moreover have "low_tries (Suc k) rs (nb, mem) = Some (res, rs', nb2, mem2)"
        using ih(1) False a(1) by simp
      ultimately show ?thesis using ih(2-4) ih(5)[unfolded eq] by blast
    qed
  qed
qed

lemma free_all_rep:
  assumes "nb_rep mem nb L" "\<forall>b \<in> set rs. block_ok 0 b" "rs \<noteq> [] \<longrightarrow> nodes nb ! 0 \<noteq> None"
    and "\<forall>f. count (lists_frames L + pages rs) f \<le> 1"
  shows "\<exists>nb' mem' L'. free_all rs (nb, mem) = Some (nb', mem') \<and> nb_rep mem' nb' L' \<and>
     lists_frames L' = lists_frames L + pages rs \<and> (nodes nb ! 0 \<noteq> None \<longrightarrow> nodes nb' ! 0 \<noteq> None) \<and>
     (\<forall>y. y div 4096 \<notin># pages rs \<longrightarrow> mem' y = mem y)"
  using assms
proof (induction rs arbitrary: nb mem L)
  case (Cons b rs)
  have ok: "block_ok 0 b" using Cons.prems(2) by simp
  have b: "b = b div 4096 * 4096" using block_mod[OF ok] by auto
  have pos: "0 < b div 4096" using b ok by (auto simp: block_ok_def)
  have lt: "b div 4096 < 2 ^ 32" using block_frames_bound[OF ok own_frame] .
  have fresh: "b div 4096 \<notin># lists_frames L"
    using Cons.prems(4)[rule_format, of "b div 4096"] by (simp add: not_in_iff)
  from nb_free_frame_rep[OF Cons.prems(1) _ pos lt fresh] Cons.prems(3) b obtain nb1 mem1 L1 where
    f: "nb_free_frame b (nb, mem) = Some (nb1, mem1)" "nb_rep mem1 nb1 L1"
      "lists_frames L1 = add_mset (b div 4096) (lists_frames L)" "\<forall>y. y div 4096 \<noteq> b div 4096 \<longrightarrow> mem1 y = mem y"
      "nodes nb1 ! 0 \<noteq> None"
    by auto
  have "\<forall>f. count (lists_frames L1 + pages rs) f \<le> 1" using Cons.prems(4) f(3) by simp
  from Cons.IH[OF f(2) _ _ this] Cons.prems(2) f show ?case by auto
qed auto

lemma nb_rep_count: "nb_rep mem nb L \<Longrightarrow> count (lists_frames L) f \<le> 1"
  using nb_rep_heads unfolding heads_rep_def by blast

lemma alloc_below_4g_inv:
  assumes inv: "galloc_inv H F g"
  shows "alloc_frame_below_4g g = Inl OOM \<or>
    (\<exists>f g'. alloc_frame_below_4g g = Inr (f * 4096, g') \<and> f * 4096 < LOW_4G_LIMIT \<and> f \<in> F \<and>
       galloc_inv (insert f H) (F - {f}) g' \<and> (\<forall>y. y div 4096 \<in> H \<longrightarrow> phys g' y = phys g y))"
proof -
  from inv obtain L where rep: "nb_rep (phys g) (buddy g) L" "F = set_mset (lists_frames L)"
    by (auto simp: galloc_inv_def)
  have "\<forall>b \<in> set []. block_ok 0 b" "([] :: nat list) \<noteq> [] \<longrightarrow> nodes (buddy g) ! 0 \<noteq> None" by simp_all
  from low_tries_rep[OF rep(1) this, of MAX_LOW_FRAME_TRIES, unfolded pages_simps add_0_right] obtain res rs nb1 mem1 L1 where
    l: "low_tries MAX_LOW_FRAME_TRIES [] (buddy g, phys g) = Some (res, rs, nb1, mem1)" "nb_rep mem1 nb1 L1"
      "\<forall>b \<in> set rs. block_ok 0 b" "rs \<noteq> [] \<or> res \<noteq> None \<longrightarrow> nodes nb1 ! 0 \<noteq> None"
      "case res of None \<Rightarrow> lists_frames L = lists_frames L1 + pages rs
        | Some b \<Rightarrow> b < LOW_4G_LIMIT \<and> block_ok 0 b \<and> lists_frames L = add_mset (b div 4096) (lists_frames L1 + pages rs)"
      "\<forall>y. y div 4096 \<notin># lists_frames L \<longrightarrow> mem1 y = phys g y"
    by blast
  have "lists_frames L1 + pages rs \<subseteq># lists_frames L" using l(5) by (cases res) auto
  then have cnt: "\<forall>f. count (lists_frames L1 + pages rs) f \<le> 1"
    using nb_rep_count[OF rep(1)] by (meson mset_subset_eq_count order_trans)
  from free_all_rep[OF l(2,3) _ cnt] l(4) obtain nb2 mem2 L2 where
    f: "free_all rs (nb1, mem1) = Some (nb2, mem2)" "nb_rep mem2 nb2 L2" "lists_frames L2 = lists_frames L1 + pages rs"
      "nodes nb1 ! 0 \<noteq> None \<longrightarrow> nodes nb2 ! 0 \<noteq> None" "\<forall>y. y div 4096 \<notin># pages rs \<longrightarrow> mem2 y = mem1 y"
    by blast
  have eq: "nb_alloc_frame_below_4g (buddy g, phys g) = Some (res, nb2, mem2)"
    using l(1) f(1) by (simp add: nb_alloc_frame_below_4g_def)
  show ?thesis
  proof (cases res)
    case None
    with eq show ?thesis by (simp add: alloc_frame_below_4g_def tracked_def)
  next
    case (Some b)
    with l(5) have b: "b < LOW_4G_LIMIT" "block_ok 0 b" "lists_frames L = add_mset (b div 4096) (lists_frames L2)"
      by (auto simp: f(3))
    have bf: "lists_frames L = block_frames 0 b + lists_frames L2" using b(3) by (simp add: block_frames_def)
    have mem: "\<forall>y. y div 4096 \<notin># lists_frames L \<longrightarrow> mem2 y = phys g y"
      using l(6) f(3,5) b(3) by auto
    have node: "nodes nb2 ! 0 \<noteq> None" using f(4) l(4) Some by simp
    have "b div 4096 * 4096 = b" using block_mod[OF b(2)] by auto
    moreover have "block 0 b = {b div 4096}" by (auto simp: block_def)
    ultimately show ?thesis
      using tracked_block[OF inv rep _ f(2) b(2) bf node mem, of "Some (Some b, nb2, mem2)"] b(1) eq Some
      by (auto simp: alloc_frame_below_4g_def intro!: exI[of _ "b div 4096"])
  qed
qed

section \<open>The allocator meets its contract\<close>

definition frame_al :: "galloc \<Rightarrow> (nat \<times> galloc) option" where
  "frame_al g = (case alloc_frame g of Inl _ \<Rightarrow> None | Inr (b, g') \<Rightarrow> Some (b div PAGE_SIZE, g'))"

definition frame_fr :: "nat \<Rightarrow> galloc \<Rightarrow> galloc option" where
  "frame_fr f g = (case free_frame (f * PAGE_SIZE) g of Inl _ \<Rightarrow> None | Inr g' \<Rightarrow> Some g')"

lemma block_0: "block 0 b = {b div 4096}"
  by (auto simp: block_def)

lemma frame_al_cases:
  assumes "galloc_inv H F g"
  shows "frame_al g = None \<and> F = {} \<or> (\<exists>f g'. frame_al g = Some (f, g') \<and> f \<in> F \<and> galloc_inv (insert f H) (F - {f}) g')"
  using alloc_order_inv[OF assms, of 0] by (auto simp: frame_al_def alloc_frame_eq block_0)

interpretation kalloc: exclusive_allocator frame_al frame_fr galloc_inv
proof
  show "H \<inter> F = {}" if "galloc_inv H F s" for H F s using that by (simp add: galloc_inv_def)
  show "f \<in> F \<and> galloc_inv (insert f H) (F - {f}) s'" if "galloc_inv H F s" "frame_al s = Some (f, s')" for H F s f s'
    using frame_al_cases[OF that(1)] that(2) by auto
  show "F = {}" if "galloc_inv H F s" "frame_al s = None" for H F s
    using frame_al_cases[OF that(1)] that(2) by auto
  show "\<exists>s'. frame_fr f s = Some s' \<and> galloc_inv (H - {f}) (insert f F) s'" if "galloc_inv H F s" "f \<in> H" for H F s f
    using free_frame_inv[OF that] by (auto simp: frame_fr_def)
qed

lemma bitmap_boot: "bitmap_ok (replicate TRACK_WORDS 0) {}"
  by (auto simp: bitmap_ok_def frame_bit_def frame_word)

lemma init_frame_allocator_inv:
  assumes "memmap_ok es"
  shows "\<exists>g. init_frame_allocator es ex (galloc_boot mem) = Inr g \<and> galloc_inv {} (\<Union>e \<in> set es. entry_frames ex e) g"
proof -
  obtain nb' mem' L' where r: "buddy_init es ex (NumaBuddy_new, mem) = Some (nb', mem')" "nb_rep mem' nb' L'"
      "set_mset (lists_frames L') = (\<Union>e \<in> set es. entry_frames ex e)"
    using buddy_init_rep[OF nb_rep_new assms, of ex mem] by (auto simp del: replicate_Suc)
  let ?g = "(galloc_boot mem)\<lparr>buddy := nb', phys := mem'\<rparr>"
  have "galloc_inv {} (\<Union>e \<in> set es. entry_frames ex e) ?g"
    unfolding galloc_inv_def r(3)[symmetric] using r(2) bitmap_boot by (auto simp: galloc_boot_def)
  moreover have "init_frame_allocator es ex (galloc_boot mem) = Inr ?g"
    using r(1) by (simp add: init_frame_allocator_def galloc_boot_def)
  ultimately show ?thesis by blast
qed

section \<open>Main properties\<close>

text \<open>
  C12: allocation is exclusive.  When the allocator's invariant holds with held
  frames \<open>H\<close> and free frames \<open>F\<close>, \<open>alloc_order\<close> never fails an assertion: it either
  panics for lack of memory (for a single frame only when no frame is free), or
  returns a naturally aligned block of \<open>2^ord\<close> frames that were all free, so none of
  them is held; the invariant holds again with the block moved from \<open>F\<close> to \<open>H\<close>, and
  no byte of a held frame has changed.
\<close>

theorem alloc_order_exclusive:
  assumes "galloc_inv H F g" "ord \<le> MAX_ORDER"
  shows "alloc_order ord g = Inl OOM \<and> (ord = 0 \<longrightarrow> F = {}) \<or>
    (\<exists>b g'. alloc_order ord g = Inr (b, g') \<and> galloc_inv (H \<union> block ord b) (F - block ord b) g' \<and>
       block ord b \<subseteq> F \<and> block ord b \<inter> H = {} \<and> b mod 2 ^ (ord + 12) = 0 \<and>
       (\<forall>y. y div 4096 \<in> H \<longrightarrow> phys g' y = phys g y))"
proof -
  have "block ord b \<subseteq> F \<Longrightarrow> block ord b \<inter> H = {}" for b using kalloc.disjoint[OF assms(1)] by blast
  with alloc_order_inv[OF assms] show ?thesis by metis
qed

text \<open>The allocator after boot on a small memory map, with nothing handed out yet.\<close>

definition demo_boot :: galloc where
  "demo_boot = (case init_frame_allocator demo_memmap demo_exclusions
     (galloc_boot (\<lambda>_. \<lparr>next_phys = 0, generation = 0\<rparr>)) of Inr g \<Rightarrow> g | Inl _ \<Rightarrow> galloc_boot (\<lambda>_. \<lparr>next_phys = 0, generation = 0\<rparr>))"

lemma demo_frames: "(\<Union>e \<in> set demo_memmap. entry_frames demo_exclusions e) = {1, 3, 4}"
  by (auto simp: demo_memmap_def demo_exclusions_def entry_frames_def usable_def frame_clear_def reserved_ranges_def)

lemma demo_memmap_ok: "memmap_ok demo_memmap"
  by (simp add: demo_memmap_def memmap_ok_def entry_ok_def entries_apart_def MAX_PLAUSIBLE_PHYS_def)

lemma demo_boot_inv: "galloc_inv {} {1, 3, 4} demo_boot"
  using init_frame_allocator_inv[OF demo_memmap_ok, of demo_exclusions "\<lambda>_. \<lparr>next_phys = 0, generation = 0\<rparr>"]
  by (auto simp: demo_frames demo_boot_def)

theorem alloc_order_exclusive_witness:
  "\<exists>b g'. alloc_order 0 demo_boot = Inr (b, g') \<and> block 0 b \<subseteq> {1, 3, 4}"
  using alloc_order_exclusive[OF demo_boot_inv, of 0] by auto

text \<open>
  C13: frees of held frames succeed and double frees are caught.  Freeing a held
  frame never panics and moves exactly that frame to the free ones; freeing a
  frame of the first 2 GiB that is not held always panics, whatever the state.
\<close>

theorem free_frame_guarded:
  assumes "galloc_inv H F g"
  shows "(f \<in> H \<longrightarrow> (\<exists>g'. free_frame (f * 4096) g = Inr g' \<and> galloc_inv (H - {f}) (insert f F) g')) \<and>
         (f \<notin> H \<and> f * 4096 < 2 * 2 ^ 30 \<longrightarrow> free_frame (f * 4096) g = Inl Assertion)"
  using free_frame_inv[OF assms] double_free_refused[OF assms, of f] track_frames(2)[of f]
  by (auto simp: TRACK_LIMIT_def)

theorem free_frame_guarded_witness:
  "free_frame (1 * 4096) demo_boot = Inl Assertion"
  using free_frame_guarded[OF demo_boot_inv, of 1] by simp





end
