(* ===== verification/Pcid.thy ===== *)
theory Pcid
  imports Allocator_Contract
begin

text \<open>
  The allocator of process-context identifiers (\<open>crates/memory/src/pcid.rs\<close>): a bitmap
  of 64-bit words searched from the lowest word for the lowest clear bit.
  Identifier 0 is reserved.  The compare-and-swap that claims a bit is one atomic
  step of the model.
\<close>

definition MAX_PCID :: nat where
  "MAX_PCID = 4096"

record Pcid =
  pcid_id :: u16
  pcid_generation :: u64

record PcidAllocator =
  pa_generation :: u64
  pa_bitmap :: "u64 list"

definition PcidAllocator_new :: "nat \<Rightarrow> PcidAllocator" where
  "PcidAllocator_new WORDS = \<lparr>pa_generation = 1, pa_bitmap = replicate WORDS 0\<rparr>"

definition trailing_zeros :: "u64 \<Rightarrow> nat" where
  "trailing_zeros w = (case first_idx (bit w) [0..<64] of Some i \<Rightarrow> i | None \<Rightarrow> 64)"

text \<open>The free bits of a word; bit 0 of word 0 is never free.\<close>

definition free_bits :: "nat \<Rightarrow> u64 \<Rightarrow> u64" where
  "free_bits word_index w = (if word_index = 0 then NOT w AND NOT 1 else NOT w)"

fun pcid_scan :: "nat list \<Rightarrow> PcidAllocator \<Rightarrow> (Pcid \<times> PcidAllocator) option" where
  "pcid_scan [] a = None"
| "pcid_scan (word_index # rest) a =
     (let base = word_index * 64 in
      if base \<ge> MAX_PCID then None
      else
        (let word = pa_bitmap a ! word_index;
             free = free_bits word_index word
         in if free = 0 then pcid_scan rest a
            else
              (let b = trailing_zeros free;
                   pid = base + b
               in if pid \<ge> MAX_PCID then pcid_scan rest a
                  else Some (\<lparr>pcid_id = of_nat pid, pcid_generation = pa_generation a\<rparr>,
                             a\<lparr>pa_bitmap := (pa_bitmap a)[word_index := word OR push_bit b 1]\<rparr>))))"

definition pcid_alloc :: "PcidAllocator \<Rightarrow> (Pcid \<times> PcidAllocator) option" where
  "pcid_alloc a = pcid_scan [0..<length (pa_bitmap a)] a"

definition pcid_free :: "Pcid \<Rightarrow> PcidAllocator \<Rightarrow> PcidAllocator" where
  "pcid_free p a =
     (let i = unat (pcid_id p) in
      if i = 0 \<or> i \<ge> MAX_PCID then a
      else a\<lparr>pa_bitmap := (pa_bitmap a)[i div 64 := pa_bitmap a ! (i div 64) AND NOT (push_bit (i mod 64) 1)]\<rparr>)"

definition bump_generation :: "PcidAllocator \<Rightarrow> u64 \<times> PcidAllocator" where
  "bump_generation a = (pa_generation a + 1, a\<lparr>pa_generation := pa_generation a + 1\<rparr>)"

section \<open>Bits of the map\<close>

lemma trailing_zeros_spec:
  assumes "w \<noteq> 0"
  shows "trailing_zeros w < 64" "bit w (trailing_zeros w)" "\<And>i. i < trailing_zeros w \<Longrightarrow> \<not> bit w i"
proof -
  from assms obtain k where "bit w k" by (metis bit_eqI bit_0_eq bot_apply bot_bool_def)
  moreover from this have "k < 64" using bit_imp_le_length[of w k] by simp
  ultimately have "\<exists>i. first_idx (bit w) [0..<64] = Some i"
    by (intro first_idx_ex[of k]) auto
  then obtain i where i: "first_idx (bit w) [0..<64] = Some i" by blast
  from first_idx_SomeD[OF i] i
  show "trailing_zeros w < 64" "bit w (trailing_zeros w)" "\<And>j. j < trailing_zeros w \<Longrightarrow> \<not> bit w j"
    by (auto simp: trailing_zeros_def)
qed

lemma bit_free_bits: "k < 64 \<Longrightarrow> bit (free_bits wi w) k \<longleftrightarrow> \<not> bit w k \<and> (wi, k) \<noteq> (0, 0)"
  by (cases "wi = 0"; cases "k = 0") (auto simp: free_bits_def bit_simps)

definition pcid_bit :: "PcidAllocator \<Rightarrow> nat \<Rightarrow> bool" where
  "pcid_bit a i = bit (pa_bitmap a ! (i div 64)) (i mod 64)"

definition claim :: "nat \<Rightarrow> PcidAllocator \<Rightarrow> PcidAllocator" where
  "claim i a = a\<lparr>pa_bitmap := (pa_bitmap a)[i div 64 := pa_bitmap a ! (i div 64) OR push_bit (i mod 64) 1]\<rparr>"

text \<open>A word without free bits is used up; otherwise its lowest free bit is the lowest free identifier.\<close>

lemma word_full: "free_bits wi w = 0 \<Longrightarrow> k < 64 \<Longrightarrow> (wi, k) \<noteq> (0, 0) \<Longrightarrow> bit w k"
  using bit_free_bits[of k wi w] by auto

lemma pcid_scan_spec:
  assumes "length (pa_bitmap a) = n" "MAX_PCID \<le> n * 64" "k \<le> n"
  shows "case pcid_scan [k..<n] a of
      None \<Rightarrow> (\<forall>i. k * 64 \<le> i \<longrightarrow> 0 < i \<longrightarrow> i < MAX_PCID \<longrightarrow> pcid_bit a i)
    | Some (p, a') \<Rightarrow> (\<exists>i. k * 64 \<le> i \<and> 0 < i \<and> i < MAX_PCID \<and> \<not> pcid_bit a i \<and>
        (\<forall>j. k * 64 \<le> j \<longrightarrow> 0 < j \<longrightarrow> j < i \<longrightarrow> pcid_bit a j) \<and>
        p = \<lparr>pcid_id = of_nat i, pcid_generation = pa_generation a\<rparr> \<and> a' = claim i a)"
  using assms(3)
proof (induction "n - k" arbitrary: k)
  case 0
  with assms(2) show ?case by simp
next
  case (Suc m)
  then have k: "k < n" and up: "[k..<n] = k # [Suc k..<n]" by (auto simp: upt_conv_Cons)
  let ?w = "pa_bitmap a ! k" and ?f = "free_bits k (pa_bitmap a ! k)"
  have inword: "pcid_bit a (k * 64 + b) = bit ?w b" if "b < 64" for b using that by (simp add: pcid_bit_def)
  have IH: "case pcid_scan [Suc k..<n] a of
      None \<Rightarrow> (\<forall>i. Suc k * 64 \<le> i \<longrightarrow> 0 < i \<longrightarrow> i < MAX_PCID \<longrightarrow> pcid_bit a i)
    | Some (p, a') \<Rightarrow> (\<exists>i. Suc k * 64 \<le> i \<and> 0 < i \<and> i < MAX_PCID \<and> \<not> pcid_bit a i \<and>
        (\<forall>j. Suc k * 64 \<le> j \<longrightarrow> 0 < j \<longrightarrow> j < i \<longrightarrow> pcid_bit a j) \<and>
        p = \<lparr>pcid_id = of_nat i, pcid_generation = pa_generation a\<rparr> \<and> a' = claim i a)"
    using Suc by auto
  show ?case
  proof (cases "MAX_PCID \<le> k * 64")
    case True
    then show ?thesis by (simp add: up)
  next
    case base: False
    show ?thesis
    proof (cases "?f = 0")
      case True
      have used: "pcid_bit a j" if "k * 64 \<le> j" "j < Suc k * 64" "0 < j" for j
      proof -
        from \<open>k * 64 \<le> j\<close> obtain b where j: "j = k * 64 + b" using le_Suc_ex by blast
        with that(2) have b: "j = k * 64 + b" "b < 64" by simp_all
        with word_full[OF True b(2)] inword[OF b(2)] that(3) show ?thesis by auto
      qed
      have eq: "pcid_scan [k..<n] a = pcid_scan [Suc k..<n] a" using True base by (simp add: up)
      show ?thesis
      proof (cases "pcid_scan [Suc k..<n] a")
        case None
        with IH used show ?thesis by (auto simp: eq not_less) (meson not_le)
      next
        case (Some r)
        obtain p a' where r: "r = (p, a')" by fastforce
        from IH Some r obtain i where i: "Suc k * 64 \<le> i" "0 < i" "i < MAX_PCID" "\<not> pcid_bit a i"
          "\<forall>j. Suc k * 64 \<le> j \<longrightarrow> 0 < j \<longrightarrow> j < i \<longrightarrow> pcid_bit a j"
          "p = \<lparr>pcid_id = of_nat i, pcid_generation = pa_generation a\<rparr>" "a' = claim i a" by auto
        have "\<forall>j. k * 64 \<le> j \<longrightarrow> 0 < j \<longrightarrow> j < i \<longrightarrow> pcid_bit a j" using used i(5) by (meson not_le)
        with i Some r show ?thesis by (auto simp: eq intro!: exI[of _ i])
      qed
    next
      case False
      note tz = trailing_zeros_spec[OF False]
      let ?b = "trailing_zeros ?f" and ?i = "k * 64 + trailing_zeros ?f"
      have fb: "\<not> bit ?w ?b" "(k, ?b) \<noteq> (0, 0)" using iffD1[OF bit_free_bits[OF tz(1)] tz(2)] by simp_all
      have low: "pcid_bit a j" if "k * 64 \<le> j" "j < ?i" "0 < j" for j
      proof -
        from \<open>k * 64 \<le> j\<close> obtain b where j: "j = k * 64 + b" using le_Suc_ex by blast
        with that(2) have b: "j = k * 64 + b" "b < ?b" by simp_all
        have b64: "b < 64" using b(2) tz(1) by simp
        have "\<not> bit ?f b" using tz(3) b(2) by blast
        moreover have "(k, b) \<noteq> (0, 0)" using that(3) b(1) by auto
        ultimately have "bit ?w b" using bit_free_bits[OF b64, of k ?w] by blast
        then show ?thesis using inword[OF b64] b(1) by simp
      qed
      have lt: "?i < MAX_PCID"
      proof -
        have "k < 64" using base by (simp add: MAX_PCID_def)
        then show ?thesis using tz(1) by (simp add: MAX_PCID_def)
      qed
      have dm: "?i div 64 = k" "?i mod 64 = ?b" using tz(1) by auto
      have "pcid_scan [k..<n] a = Some (\<lparr>pcid_id = of_nat ?i, pcid_generation = pa_generation a\<rparr>, claim ?i a)"
        using base False lt dm by (simp add: up Let_def claim_def)
      moreover have "\<not> pcid_bit a ?i" using fb(1) inword[OF tz(1)] by simp
      moreover have "0 < ?i" using fb(2) by auto
      ultimately show ?thesis using lt low by (auto intro!: exI[of _ ?i])
    qed
  qed
qed

section \<open>Exclusive identifiers\<close>

definition pcid_inv :: "nat set \<Rightarrow> nat set \<Rightarrow> PcidAllocator \<Rightarrow> bool" where
  "pcid_inv H F a \<longleftrightarrow> MAX_PCID \<le> length (pa_bitmap a) * 64 \<and>
     H = {i. 0 < i \<and> i < MAX_PCID \<and> pcid_bit a i} \<and> F = {i. 0 < i \<and> i < MAX_PCID \<and> \<not> pcid_bit a i}"

definition pcid_al :: "PcidAllocator \<Rightarrow> (nat \<times> PcidAllocator) option" where
  "pcid_al a = (case pcid_alloc a of None \<Rightarrow> None | Some (p, a') \<Rightarrow> Some (unat (pcid_id p), a'))"

definition pcid_fr :: "nat \<Rightarrow> PcidAllocator \<Rightarrow> PcidAllocator option" where
  "pcid_fr i a = Some (pcid_free \<lparr>pcid_id = of_nat i, pcid_generation = pa_generation a\<rparr> a)"

lemma div_mod_64: "(i :: nat) = j \<longleftrightarrow> i div 64 = j div 64 \<and> i mod 64 = j mod 64"
  by (metis div_mult_mod_eq)

lemma pcid_word: "MAX_PCID \<le> n * 64 \<Longrightarrow> i < MAX_PCID \<Longrightarrow> i div 64 < n"
  by (rule less_mult_imp_div_less) simp

lemma pcid_bit_claim:
  assumes "i div 64 < length (pa_bitmap a)"
  shows "pcid_bit (claim i a) j \<longleftrightarrow> j = i \<or> pcid_bit a j"
proof (cases "j div 64 = i div 64")
  case True
  with assms div_mod_64[of j i] show ?thesis by (auto simp: pcid_bit_def claim_def bit_simps)
qed (auto simp: pcid_bit_def claim_def)

lemma unat_id: "i < MAX_PCID \<Longrightarrow> unat (of_nat i :: u16) = i"
  by (simp add: MAX_PCID_def unat_of_nat take_bit_nat_eq_self)

lemma pcid_alloc_cases:
  assumes "pcid_inv H F a"
  shows "pcid_alloc a = None \<and> F = {} \<or>
    (\<exists>i. i \<in> F \<and> (\<forall>j \<in> F. i \<le> j) \<and> pcid_inv (insert i H) (F - {i}) (claim i a) \<and>
       pcid_alloc a = Some (\<lparr>pcid_id = of_nat i, pcid_generation = pa_generation a\<rparr>, claim i a))"
proof (cases "pcid_alloc a")
  case None
  with pcid_scan_spec[of a "length (pa_bitmap a)" 0] assms show ?thesis
    by (auto simp: pcid_alloc_def pcid_inv_def)
next
  case (Some r)
  obtain p a' where r: "r = (p, a')" by fastforce
  from pcid_scan_spec[of a "length (pa_bitmap a)" 0] assms Some r obtain i where
    i: "0 < i" "i < MAX_PCID" "\<not> pcid_bit a i" "\<forall>j. 0 < j \<longrightarrow> j < i \<longrightarrow> pcid_bit a j"
      "p = \<lparr>pcid_id = of_nat i, pcid_generation = pa_generation a\<rparr>" "a' = claim i a"
    by (auto simp: pcid_alloc_def pcid_inv_def)
  have "pcid_bit (claim i a) j \<longleftrightarrow> j = i \<or> pcid_bit a j" for j
    using pcid_bit_claim[of i a j] pcid_word[OF _ i(2)] assms by (simp add: pcid_inv_def)
  moreover have "length (pa_bitmap (claim i a)) = length (pa_bitmap a)" by (simp add: claim_def)
  ultimately have "pcid_inv (insert i H) (F - {i}) (claim i a)"
    using assms i(1-3) by (auto simp: pcid_inv_def)
  moreover have "i \<le> j" if "j \<in> F" for j using that i(4) assms by (auto simp: pcid_inv_def not_less[symmetric])
  moreover have "i \<in> F" using i(1-3) assms by (simp add: pcid_inv_def)
  ultimately show ?thesis using Some r i(5,6) by blast
qed

lemma pcid_free_inv:
  assumes "pcid_inv H F a" "i \<in> H"
  shows "pcid_inv (H - {i}) (insert i F) (pcid_free \<lparr>pcid_id = of_nat i, pcid_generation = g\<rparr> a)"
proof -
  let ?a = "pcid_free \<lparr>pcid_id = of_nat i, pcid_generation = g\<rparr> a"
  have i: "0 < i" "i < MAX_PCID" "i div 64 < length (pa_bitmap a)"
    using assms pcid_word by (auto simp: pcid_inv_def)
  have "pcid_bit ?a j \<longleftrightarrow> j \<noteq> i \<and> pcid_bit a j" for j
  proof (cases "j div 64 = i div 64")
    case True
    with i div_mod_64[of j i] show ?thesis
      by (auto simp: pcid_free_def Let_def unat_id pcid_bit_def bit_simps)
  qed (use i in \<open>auto simp: pcid_free_def Let_def unat_id pcid_bit_def\<close>)
  moreover have "length (pa_bitmap ?a) = length (pa_bitmap a)" by (simp add: pcid_free_def Let_def)
  ultimately show ?thesis using assms i by (auto simp: pcid_inv_def)
qed

interpretation kpcid: exclusive_allocator pcid_al pcid_fr pcid_inv
proof
  show "H \<inter> F = {}" if "pcid_inv H F s" for H F s using that by (auto simp: pcid_inv_def)
  show "f \<in> F \<and> pcid_inv (insert f H) (F - {f}) s'" if "pcid_inv H F s" "pcid_al s = Some (f, s')" for H F s f s'
  proof -
    have "i < MAX_PCID" if "i \<in> F" for i using \<open>pcid_inv H F s\<close> that by (simp add: pcid_inv_def)
    with pcid_alloc_cases[OF that(1)] that(2) show ?thesis by (auto simp: pcid_al_def unat_id)
  qed
  show "F = {}" if "pcid_inv H F s" "pcid_al s = None" for H F s
    using pcid_alloc_cases[OF that(1)] that(2) by (auto simp: pcid_al_def)
  show "\<exists>s'. pcid_fr f s = Some s' \<and> pcid_inv (H - {f}) (insert f F) s'" if "pcid_inv H F s" "f \<in> H" for H F s f
    using pcid_free_inv[OF that] by (simp add: pcid_fr_def)
qed

lemma pcid_inv_new: "MAX_PCID \<le> n * 64 \<Longrightarrow> pcid_inv {} {i. 0 < i \<and> i < MAX_PCID} (PcidAllocator_new n)"
  using pcid_word[of n] by (auto simp: pcid_inv_def PcidAllocator_new_def pcid_bit_def)

section \<open>Main properties\<close>

text \<open>
  C17: identifiers are exclusive and the lowest one is used.  From a fresh
  allocator whose bitmap covers the identifier range, every sequence of
  allocations and frees of held identifiers leaves the held identifiers pairwise
  different, between 1 and \<open>MAX_PCID - 1\<close>, and the free ones are exactly the others; the next
  allocation returns the least free identifier, and fails only when none is free.
\<close>

theorem pcid_exclusive:
  assumes "MAX_PCID \<le> n * 64"
  shows "\<exists>held a F. alloc_run pcid_al pcid_fr ops ([], PcidAllocator_new n) = Some (held, a) \<and> distinct held \<and>
    set held \<union> F = {1..<MAX_PCID} \<and> set held \<inter> F = {} \<and>
    (case pcid_alloc a of
       None \<Rightarrow> F = {}
     | Some (p, a') \<Rightarrow> unat (pcid_id p) \<in> F \<and> (\<forall>j \<in> F. unat (pcid_id p) \<le> j) \<and> pcid_generation p = pa_generation a)"
proof -
  have new: "pcid_inv (set []) {i. 0 < i \<and> i < MAX_PCID} (PcidAllocator_new n)"
    using pcid_inv_new[OF assms] by simp
  from kpcid.run_sound[OF new, of ops] obtain held a F where
    r: "alloc_run pcid_al pcid_fr ops ([], PcidAllocator_new n) = Some (held, a)" "distinct held"
      "pcid_inv (set held) F a" "set held \<union> F = {i. 0 < i \<and> i < MAX_PCID}"
    by auto
  have sub: "i < MAX_PCID" if "i \<in> F" for i using r(4) that by auto
  have "case pcid_alloc a of None \<Rightarrow> F = {}
     | Some (p, a') \<Rightarrow> unat (pcid_id p) \<in> F \<and> (\<forall>j \<in> F. unat (pcid_id p) \<le> j) \<and> pcid_generation p = pa_generation a"
    using pcid_alloc_cases[OF r(3)] sub by (auto simp: unat_id)
  moreover have "set held \<union> F = {1..<MAX_PCID}"
  proof -
    have "{i. 0 < i \<and> i < MAX_PCID} = {1..<MAX_PCID}" by auto
    with r(4) show ?thesis by (rule trans)
  qed
  ultimately show ?thesis using r kpcid.disjoint[OF r(3)] by blast
qed

theorem pcid_exclusive_witness:
  "\<exists>held a F. alloc_run pcid_al pcid_fr [Alloc_op, Alloc_op, Free_op 1] ([], PcidAllocator_new 64) = Some (held, a) \<and>
    distinct held \<and> set held \<union> F = {1..<MAX_PCID} \<and> set held \<inter> F = {}"
proof -
  have "MAX_PCID \<le> 64 * 64" by (simp add: MAX_PCID_def)
  from pcid_exclusive[OF this, of "[Alloc_op, Alloc_op, Free_op 1]"] show ?thesis by blast
qed

end
