(* ===== verification/Paging_Entry.thy ===== *)
theory Paging_Entry
  imports Rumicos_Prelude
begin

text \<open>
  Addresses and page-table entries (\<open>crates/paging/src/address.rs\<close> and
  \<open>entry.rs\<close>).  Everything is a 64-bit word, as in the code.  The lemmas give the
  round trips between entries and their components and the decomposition of a
  virtual address into its four table indices and offset.
\<close>

section \<open>Addresses\<close>

definition PhysAddr_new :: "u64 \<Rightarrow> u64" where
  "PhysAddr_new addr = addr AND 0x000FFFFFFFFFFFFF"

definition frame_bits :: "u64 \<Rightarrow> u64" where
  "frame_bits phys = drop_bit 12 phys AND 0xFFFFFFFFF"

definition phys_add :: "u64 \<Rightarrow> u64 \<Rightarrow> u64" where
  "phys_add phys rhs = PhysAddr_new (phys + rhs)"

definition align_down_4k :: "u64 \<Rightarrow> u64" where
  "align_down_4k a = a AND NOT 0xFFF"

definition align_up_4k :: "u64 \<Rightarrow> u64" where
  "align_up_4k a = (a + 0xFFF) AND NOT 0xFFF"

definition is_aligned_4k :: "u64 \<Rightarrow> bool" where
  "is_aligned_4k a \<longleftrightarrow> a AND 0xFFF = 0"

definition is_aligned_2m :: "u64 \<Rightarrow> bool" where
  "is_aligned_2m a \<longleftrightarrow> a AND 0x1FFFFF = 0"

definition pml4_index :: "u64 \<Rightarrow> nat" where
  "pml4_index virt = unat (drop_bit 39 virt AND 0x1FF)"

definition pdpt_index :: "u64 \<Rightarrow> nat" where
  "pdpt_index virt = unat (drop_bit 30 virt AND 0x1FF)"

definition pd_index :: "u64 \<Rightarrow> nat" where
  "pd_index virt = unat (drop_bit 21 virt AND 0x1FF)"

definition pt_index :: "u64 \<Rightarrow> nat" where
  "pt_index virt = unat (drop_bit 12 virt AND 0x1FF)"

definition page_offset :: "u64 \<Rightarrow> u64" where
  "page_offset virt = virt AND 0xFFF"

definition is_user_space :: "u64 \<Rightarrow> bool" where
  "is_user_space virt \<longleftrightarrow> drop_bit 47 virt = 0"

definition is_kernel_space :: "u64 \<Rightarrow> bool" where
  "is_kernel_space virt \<longleftrightarrow> drop_bit 47 virt = 0x1FFFF"

section \<open>Flags and entries\<close>

definition PRESENT :: u64 where "PRESENT = push_bit 0 1"
definition WRITABLE :: u64 where "WRITABLE = push_bit 1 1"
definition USER_ACCESSIBLE :: u64 where "USER_ACCESSIBLE = push_bit 2 1"
definition WRITE_THROUGH :: u64 where "WRITE_THROUGH = push_bit 3 1"
definition CACHE_DISABLE :: u64 where "CACHE_DISABLE = push_bit 4 1"
definition ACCESSED :: u64 where "ACCESSED = push_bit 5 1"
definition DIRTY :: u64 where "DIRTY = push_bit 6 1"
definition HUGE_PAGE :: u64 where "HUGE_PAGE = push_bit 7 1"
definition GLOBAL :: u64 where "GLOBAL = push_bit 8 1"
definition OWNED :: u64 where "OWNED = push_bit 9 1"
definition COW :: u64 where "COW = push_bit 10 1"
definition NO_EXECUTE :: u64 where "NO_EXECUTE = push_bit 63 1"

definition with_present :: "u64 \<Rightarrow> u64" where "with_present f = f OR PRESENT"
definition with_writable :: "u64 \<Rightarrow> u64" where "with_writable f = f OR WRITABLE"
definition with_user_accessible :: "u64 \<Rightarrow> u64" where "with_user_accessible f = f OR USER_ACCESSIBLE"
definition with_huge_page :: "u64 \<Rightarrow> u64" where "with_huge_page f = f OR HUGE_PAGE"
definition with_no_execute :: "u64 \<Rightarrow> u64" where "with_no_execute f = f OR NO_EXECUTE"
definition with_cow :: "u64 \<Rightarrow> u64" where "with_cow f = f OR COW"
definition without_writable :: "u64 \<Rightarrow> u64" where "without_writable f = f AND NOT WRITABLE"
definition without_cow :: "u64 \<Rightarrow> u64" where "without_cow f = f AND NOT COW"

definition new_page :: "u64 \<Rightarrow> u64 \<Rightarrow> u64" where
  "new_page phys flags = push_bit 12 (frame_bits phys) OR flags"

definition new_table :: "u64 \<Rightarrow> u64" where
  "new_table phys = new_page phys (with_writable (with_present 0))"

definition entry_frame :: "u64 \<Rightarrow> u64" where
  "entry_frame e = PhysAddr_new (push_bit 12 (drop_bit 12 e AND 0xFFFFFFFFF))"

definition entry_flags :: "u64 \<Rightarrow> u64" where
  "entry_flags e = (e AND 0xFFF) OR (e AND push_bit 63 1)"

definition with_flags :: "u64 \<Rightarrow> u64 \<Rightarrow> u64" where
  "with_flags e flags = new_page (entry_frame e) flags"

definition is_present :: "u64 \<Rightarrow> bool" where "is_present e \<longleftrightarrow> e AND PRESENT \<noteq> 0"
definition is_writable :: "u64 \<Rightarrow> bool" where "is_writable e \<longleftrightarrow> e AND WRITABLE \<noteq> 0"
definition is_user_accessible :: "u64 \<Rightarrow> bool" where "is_user_accessible e \<longleftrightarrow> e AND USER_ACCESSIBLE \<noteq> 0"
definition is_huge_page :: "u64 \<Rightarrow> bool" where "is_huge_page e \<longleftrightarrow> e AND HUGE_PAGE \<noteq> 0"
definition is_no_execute :: "u64 \<Rightarrow> bool" where "is_no_execute e \<longleftrightarrow> e AND NO_EXECUTE \<noteq> 0"
definition is_cow :: "u64 \<Rightarrow> bool" where "is_cow e \<longleftrightarrow> e AND COW \<noteq> 0"

definition make_cr3 :: "u64 \<Rightarrow> u16 \<Rightarrow> bool \<Rightarrow> u64" where
  "make_cr3 pml4_phys pcid noflush =
     (let cr3 = push_bit 12 (frame_bits pml4_phys) OR (ucast pcid AND 0xFFF)
      in if noflush then cr3 OR push_bit 63 1 else cr3)"

section \<open>Bits\<close>

named_theorems entry_bits

lemma mask_lits:
  "(0x000FFFFFFFFFFFFF :: u64) = mask 52" "(0xFFFFFFFFF :: u64) = mask 36" "(0xFFF :: u64) = mask 12"
  "(0x1FF :: u64) = mask 9" "(0x1FFFFF :: u64) = mask 21" "(0x3FFFFFFF :: u64) = mask 30"
  by (simp_all add: mask_eq_exp_minus_1)

lemma word_and_mask: "(w :: u64) AND mask n = take_bit n w"
  by (simp add: take_bit_eq_mask)

lemma flag_test: "(w :: u64) AND push_bit k 1 \<noteq> 0 \<longleftrightarrow> bit w k" if "k < 64"
proof -
  have "bit (w AND push_bit k 1) k = bit w k" using that by (simp add: bit_simps)
  moreover have "w AND push_bit k 1 = 0" if "\<not> bit w k"
    by (rule bit_word_eqI) (use that in \<open>auto simp: bit_simps\<close>)
  ultimately show ?thesis by auto
qed

lemma flag_bits [entry_bits]:
  "is_present e \<longleftrightarrow> bit e 0" "is_writable e \<longleftrightarrow> bit e 1" "is_user_accessible e \<longleftrightarrow> bit e 2"
  "is_huge_page e \<longleftrightarrow> bit e 7" "is_cow e \<longleftrightarrow> bit e 10" "is_no_execute e \<longleftrightarrow> bit e 63"
  unfolding is_present_def is_writable_def is_user_accessible_def is_huge_page_def is_cow_def is_no_execute_def
    PRESENT_def WRITABLE_def USER_ACCESSIBLE_def HUGE_PAGE_def COW_def NO_EXECUTE_def
  by (rule flag_test; simp)+

lemma bit_entry_frame [entry_bits]: "bit (entry_frame e) n \<longleftrightarrow> 12 \<le> n \<and> n < 48 \<and> bit e n"
  unfolding entry_frame_def PhysAddr_new_def mask_lits word_and_mask by (auto simp: bit_simps)

lemma bit_top: "bit ((e :: u64) AND push_bit 63 1) n \<longleftrightarrow> n = 63 \<and> bit e n"
  by (subst bit_and_iff, subst bit_push_bit_iff) (auto simp: bit_1_iff dest: bit_imp_le_length)

lemma bit_entry_flags [entry_bits]: "bit (entry_flags e) n \<longleftrightarrow> (n < 12 \<or> n = 63) \<and> bit e n"
  unfolding entry_flags_def mask_lits word_and_mask bit_or_iff bit_top by (auto simp: bit_simps)

lemma bit_new_page [entry_bits]:
  "bit (new_page phys flags) n \<longleftrightarrow> 12 \<le> n \<and> n < 48 \<and> bit phys n \<or> bit flags n"
  unfolding new_page_def frame_bits_def mask_lits word_and_mask by (auto simp: bit_simps)

text \<open>A physical address that fits the 36-bit frame field; a set of flags outside that field.\<close>

definition phys_ok :: "u64 \<Rightarrow> bool" where
  "phys_ok a \<longleftrightarrow> is_aligned_4k a \<and> a < 0x1000000000000"

definition flags_ok :: "u64 \<Rightarrow> bool" where
  "flags_ok f \<longleftrightarrow> entry_flags f = f"

lemma bits_eqI: "(\<And>n. bit (v :: u64) n = bit w n) \<Longrightarrow> v = w"
  by (rule bit_word_eqI) simp

lemma less_bits: "(a :: u64) < 0x1000000000000 \<longleftrightarrow> (\<forall>n. bit a n \<longrightarrow> n < 48)"
proof -
  have "a < 0x1000000000000 \<longleftrightarrow> unat a < 2 ^ 48" by (simp add: word_less_nat_alt)
  also have "\<dots> \<longleftrightarrow> take_bit 48 (unat a) = unat a" by (simp add: take_bit_nat_eq_self_iff)
  also have "\<dots> \<longleftrightarrow> take_bit 48 a = a" by (simp add: word_unat_eq_iff unsigned_take_bit_eq)
  also have "\<dots> \<longleftrightarrow> (\<forall>n. bit a n \<longrightarrow> n < 48)"
  proof
    assume "take_bit 48 a = a"
    then show "\<forall>n. bit a n \<longrightarrow> n < 48" by (metis bit_take_bit_iff)
  next
    assume "\<forall>n. bit a n \<longrightarrow> n < 48"
    then show "take_bit 48 a = a" by (intro bits_eqI) (auto simp: bit_simps)
  qed
  finally show ?thesis .
qed

lemma take_bit_0_bits: "take_bit k (a :: u64) = 0 \<longleftrightarrow> (\<forall>n. bit a n \<longrightarrow> k \<le> n)"
proof
  assume "take_bit k a = 0"
  then show "\<forall>n. bit a n \<longrightarrow> k \<le> n" by (metis bit_take_bit_iff bit_0_eq bot_apply bot_bool_def not_le)
next
  assume "\<forall>n. bit a n \<longrightarrow> k \<le> n"
  then show "take_bit k a = 0" by (intro bits_eqI) (auto simp: bit_simps)
qed

lemma phys_ok_bits: "phys_ok a \<longleftrightarrow> (\<forall>n. bit a n \<longrightarrow> 12 \<le> n \<and> n < 48)"
proof -
  have "is_aligned_4k a \<longleftrightarrow> (\<forall>n. bit a n \<longrightarrow> 12 \<le> n)"
    unfolding is_aligned_4k_def mask_lits word_and_mask by (rule take_bit_0_bits)
  then show ?thesis unfolding phys_ok_def less_bits by blast
qed

lemma flags_ok_bits: "flags_ok f \<longleftrightarrow> (\<forall>n. bit f n \<longrightarrow> n < 12 \<or> n = 63)"
proof
  assume "flags_ok f"
  then show "\<forall>n. bit f n \<longrightarrow> n < 12 \<or> n = 63" by (metis flags_ok_def bit_entry_flags)
next
  assume "\<forall>n. bit f n \<longrightarrow> n < 12 \<or> n = 63"
  then show "flags_ok f" unfolding flags_ok_def by (intro bits_eqI) (auto simp: bit_entry_flags)
qed

lemma entry_frame_new_page: "phys_ok phys \<Longrightarrow> flags_ok flags \<Longrightarrow> entry_frame (new_page phys flags) = phys"
  by (rule bit_word_eqI) (auto simp: entry_bits phys_ok_bits flags_ok_bits)

lemma entry_flags_new_page: "phys_ok phys \<Longrightarrow> flags_ok flags \<Longrightarrow> entry_flags (new_page phys flags) = flags"
  by (rule bit_word_eqI) (auto simp: entry_bits phys_ok_bits flags_ok_bits)

lemma entry_frame_ok: "phys_ok (entry_frame e)"
  by (simp add: phys_ok_bits bit_entry_frame)

lemma entry_flags_ok: "flags_ok (entry_flags e)"
  by (simp add: flags_ok_bits bit_entry_flags)

lemma entry_frame_with_flags: "flags_ok flags \<Longrightarrow> entry_frame (with_flags e flags) = entry_frame e"
  by (simp add: with_flags_def entry_frame_new_page entry_frame_ok)

lemma entry_flags_with_flags: "flags_ok flags \<Longrightarrow> entry_flags (with_flags e flags) = flags"
  by (simp add: with_flags_def entry_flags_new_page entry_frame_ok)

section \<open>Virtual addresses\<close>

lemma index_take: "drop_bit k (v :: u64) AND 0x1FF = take_bit 9 (drop_bit k v)"
  unfolding mask_lits word_and_mask ..

lemma index_less: "unat (drop_bit k (v :: u64) AND 0x1FF) < 512"
proof -
  have "unat (take_bit 9 (drop_bit k v)) = take_bit 9 (unat (drop_bit k v))" by (rule unsigned_take_bit_eq)
  also have "\<dots> < 2 ^ 9" by (rule take_bit_nat_less_exp)
  finally show ?thesis by (simp add: index_take)
qed

lemma indices_less [simp]: "pml4_index v < 512" "pdpt_index v < 512" "pd_index v < 512" "pt_index v < 512"
  by (simp_all only: pml4_index_def pdpt_index_def pd_index_def pt_index_def index_less)

lemma index_eq: "unat (drop_bit k (v :: u64) AND 0x1FF) = unat (drop_bit k (w :: u64) AND 0x1FF) \<longleftrightarrow>
    (\<forall>n. k \<le> n \<longrightarrow> n < k + 9 \<longrightarrow> bit v n = bit w n)"
proof -
  have "unat (drop_bit k v AND 0x1FF) = unat (drop_bit k w AND 0x1FF) \<longleftrightarrow>
      take_bit 9 (drop_bit k v) = take_bit 9 (drop_bit k w)"
    unfolding index_take by (simp add: word_unat_eq_iff)
  also have "\<dots> \<longleftrightarrow> (\<forall>m < 9. bit v (k + m) = bit w (k + m))"
  proof
    assume a: "take_bit 9 (drop_bit k v) = take_bit 9 (drop_bit k w)"
    show "\<forall>m < 9. bit v (k + m) = bit w (k + m)"
    proof (intro allI impI)
      fix m :: nat assume "m < 9"
      with arg_cong[OF a, of "\<lambda>x. bit x m"] show "bit v (k + m) = bit w (k + m)"
        by (simp add: bit_take_bit_iff bit_drop_bit_eq)
    qed
  next
    assume "\<forall>m < 9. bit v (k + m) = bit w (k + m)"
    then show "take_bit 9 (drop_bit k v) = take_bit 9 (drop_bit k w)"
      by (intro bits_eqI) (auto simp: bit_take_bit_iff bit_drop_bit_eq)
  qed
  also have "\<dots> \<longleftrightarrow> (\<forall>n. k \<le> n \<longrightarrow> n < k + 9 \<longrightarrow> bit v n = bit w n)"
    by (metis add_less_cancel_left le_Suc_ex le_add1)
  finally show ?thesis .
qed

lemma index_ranges:
  "(\<forall>n :: nat. 12 \<le> n \<longrightarrow> n < 48 \<longrightarrow> P n) \<longleftrightarrow>
   (\<forall>n. 39 \<le> n \<longrightarrow> n < 39 + 9 \<longrightarrow> P n) \<and> (\<forall>n. 30 \<le> n \<longrightarrow> n < 30 + 9 \<longrightarrow> P n) \<and>
   (\<forall>n. 21 \<le> n \<longrightarrow> n < 21 + 9 \<longrightarrow> P n) \<and> (\<forall>n. 12 \<le> n \<longrightarrow> n < 12 + 9 \<longrightarrow> P n)"
  (is "_ \<longleftrightarrow> ?R")
proof
  assume r: ?R
  show "\<forall>n. 12 \<le> n \<longrightarrow> n < 48 \<longrightarrow> P n"
  proof (intro allI impI)
    fix n :: nat assume "12 \<le> n" "n < 48"
    then consider "39 \<le> n \<and> n < 39 + 9" | "30 \<le> n \<and> n < 30 + 9" | "21 \<le> n \<and> n < 21 + 9" | "12 \<le> n \<and> n < 12 + 9"
      by linarith
    then show "P n" using r by cases blast+
  qed
qed simp

text \<open>The path of an address through the four levels, and the page it lies in.\<close>

definition path :: "u64 \<Rightarrow> nat list" where
  "path v = [pml4_index v, pdpt_index v, pd_index v, pt_index v]"

definition page_number :: "u64 \<Rightarrow> u64" where
  "page_number v = take_bit 36 (drop_bit 12 v)"

lemma path_eq_iff: "path v = path w \<longleftrightarrow> page_number v = page_number w"
proof -
  have "page_number v = page_number w \<longleftrightarrow> (\<forall>n. 12 \<le> n \<longrightarrow> n < 48 \<longrightarrow> bit v n = bit w n)"
  proof
    assume a: "page_number v = page_number w"
    show "\<forall>n. 12 \<le> n \<longrightarrow> n < 48 \<longrightarrow> bit v n = bit w n"
    proof (intro allI impI)
      fix n :: nat assume "12 \<le> n" "n < 48"
      with arg_cong[OF a, of "\<lambda>x. bit x (n - 12)"] show "bit v n = bit w n"
        by (auto simp: page_number_def bit_take_bit_iff bit_drop_bit_eq)
    qed
  next
    assume "\<forall>n. 12 \<le> n \<longrightarrow> n < 48 \<longrightarrow> bit v n = bit w n"
    then show "page_number v = page_number w"
      unfolding page_number_def by (intro bits_eqI) (auto simp: bit_take_bit_iff bit_drop_bit_eq)
  qed
  moreover have "path v = path w \<longleftrightarrow> (\<forall>n. 12 \<le> n \<longrightarrow> n < 48 \<longrightarrow> bit v n = bit w n)"
    unfolding path_def list.inject pml4_index_def pdpt_index_def pd_index_def pt_index_def index_eq
      index_ranges by blast
  ultimately show ?thesis by simp
qed

section \<open>Main properties\<close>




end
