(* ===== verification/Page_Table.thy ===== *)
theory Page_Table
  imports Paging_Entry Frame_Alloc
begin

text \<open>
  Four-level page tables (\<open>paging/table.rs\<close>): the table walk \<open>translate\<close>, the
  builder that installs 4 KiB and 2 MiB mappings and allocates intermediate
  tables on demand, and the boot-time bump allocator it draws frames from
  (\<open>paging/allocator.rs\<close>).  The memory of the tables is a function from the
  physical address of a table frame and an index to the entry stored there.
\<close>

type_synonym pt_mem = "u64 \<Rightarrow> nat \<Rightarrow> u64"

section \<open>Tables\<close>

definition PageTable_get :: "pt_mem \<Rightarrow> u64 \<Rightarrow> nat \<Rightarrow> panic + u64" where
  "PageTable_get mem t index = (if 512 \<le> index then Inl Assertion else Inr (mem t index))"

definition PageTable_set :: "pt_mem \<Rightarrow> u64 \<Rightarrow> nat \<Rightarrow> u64 \<Rightarrow> panic + pt_mem" where
  "PageTable_set mem t index entry =
     (if 512 \<le> index then Inl Assertion else Inr (mem(t := (mem t)(index := entry))))"

definition PageTable_zero :: "pt_mem \<Rightarrow> u64 \<Rightarrow> pt_mem" where
  "PageTable_zero mem t = mem(t := (\<lambda>index. if index < 512 then 0 else mem t index))"

text \<open>The walk of \<open>PageTableWalker::translate\<close>, with its 1 GiB and 2 MiB leaves.\<close>

definition translate :: "pt_mem \<Rightarrow> u64 \<Rightarrow> u64 \<Rightarrow> panic + u64 option" where
  "translate mem pml4 virt =
     and_then (PageTable_get mem pml4 (pml4_index virt)) (\<lambda>pml4_entry.
     if \<not> is_present pml4_entry then Inr None else
     and_then (PageTable_get mem (entry_frame pml4_entry) (pdpt_index virt)) (\<lambda>pdpt_entry.
     if \<not> is_present pdpt_entry then Inr None
     else if is_huge_page pdpt_entry then Inr (Some (phys_add (entry_frame pdpt_entry) (virt AND 0x3FFFFFFF)))
     else and_then (PageTable_get mem (entry_frame pdpt_entry) (pd_index virt)) (\<lambda>pd_entry.
     if \<not> is_present pd_entry then Inr None
     else if is_huge_page pd_entry then Inr (Some (phys_add (entry_frame pd_entry) (virt AND 0x1FFFFF)))
     else and_then (PageTable_get mem (entry_frame pd_entry) (pt_index virt)) (\<lambda>pt_entry.
     if \<not> is_present pt_entry then Inr None
     else Inr (Some (phys_add (entry_frame pt_entry) (page_offset virt)))))))"

section \<open>The boot-time frame pool\<close>

definition EARLY_FRAMES :: nat where
  "EARLY_FRAMES = 128"

record BumpAllocator =
  bump_next :: nat
  pool_base :: u64
  va_offset :: u64

text \<open>The pool's address and the image offset are fixed before the first allocation.\<close>

definition bump_alloc :: "BumpAllocator \<Rightarrow> panic + (u64 \<times> BumpAllocator)" where
  "bump_alloc b =
     (if EARLY_FRAMES \<le> bump_next b then Inl OOM
      else Inr (PhysAddr_new (pool_base b + of_nat (bump_next b * 4096) - va_offset b),
                b\<lparr>bump_next := bump_next b + 1\<rparr>))"

definition consumed_range :: "BumpAllocator \<Rightarrow> u64 \<times> u64" where
  "consumed_range b =
     (PhysAddr_new (pool_base b - va_offset b),
      PhysAddr_new (pool_base b + of_nat (bump_next b * 4096) - va_offset b))"

section \<open>The builder\<close>

text \<open>
  The allocator is dispatched dynamically (\<open>AllocatorRef\<close>), so it is an argument.
  \<open>ensure_table\<close> is the block that \<open>walk_to_pd\<close> and \<open>map_page_internal\<close> repeat per level:
  an absent entry gets a fresh zeroed table.
\<close>

type_synonym 's frame_alloc = "'s \<Rightarrow> panic + (u64 \<times> 's)"

definition ensure_table ::
  "'s frame_alloc \<Rightarrow> u64 \<Rightarrow> u64 \<Rightarrow> nat \<Rightarrow> pt_mem \<times> 's \<Rightarrow> panic + (u64 \<times> pt_mem \<times> 's)" where
  "ensure_table al flags t index = (\<lambda>(mem, s).
     and_then (PageTable_get mem t index) (\<lambda>entry.
     if is_present entry then Inr (entry_frame entry, mem, s)
     else and_then (al s) (\<lambda>(frame, s').
       let mem' = PageTable_zero mem frame; entry' = new_page frame flags in
       and_then (PageTable_set mem' t index entry') (\<lambda>mem''.
       Inr (entry_frame entry', mem'', s')))))"

definition walk_to_pd ::
  "'s frame_alloc \<Rightarrow> u64 \<Rightarrow> u64 \<Rightarrow> pt_mem \<times> 's \<Rightarrow> panic + (u64 \<times> pt_mem \<times> 's)" where
  "walk_to_pd al pml4 virt st =
     and_then (ensure_table al (with_writable (with_present 0)) pml4 (pml4_index virt) st) (\<lambda>(pdpt, st1).
     ensure_table al (with_writable (with_present 0)) pdpt (pdpt_index virt) st1)"

definition map_page ::
  "'s frame_alloc \<Rightarrow> u64 \<Rightarrow> u64 \<Rightarrow> u64 \<Rightarrow> u64 \<Rightarrow> pt_mem \<times> 's \<Rightarrow> panic + (pt_mem \<times> 's)" where
  "map_page al pml4 virt pa flags st =
     and_then (walk_to_pd al pml4 virt st) (\<lambda>(pd, st1).
     and_then (ensure_table al (with_writable (with_present 0)) pd (pd_index virt) st1) (\<lambda>(pt, mem, s).
     and_then (PageTable_set mem pt (pt_index virt) (new_page pa flags)) (\<lambda>mem'.
     Inr (mem', s))))"

definition map_huge_2m ::
  "'s frame_alloc \<Rightarrow> u64 \<Rightarrow> u64 \<Rightarrow> u64 \<Rightarrow> u64 \<Rightarrow> pt_mem \<times> 's \<Rightarrow> panic + (pt_mem \<times> 's)" where
  "map_huge_2m al pml4 virt pa flags st =
     (if virt AND 0x1FFFFF \<noteq> 0 \<or> pa AND 0x1FFFFF \<noteq> 0 then Inl Assertion else
     and_then (walk_to_pd al pml4 virt st) (\<lambda>(pd, mem, s).
     and_then (PageTable_set mem pd (pd_index virt) (new_page pa (with_huge_page flags))) (\<lambda>mem'.
     Inr (mem', s))))"

definition builder_new :: "'s frame_alloc \<Rightarrow> pt_mem \<times> 's \<Rightarrow> panic + (u64 \<times> pt_mem \<times> 's)" where
  "builder_new al = (\<lambda>(mem, s). and_then (al s) (\<lambda>(pml4_frame, s').
     Inr (pml4_frame, PageTable_zero mem pml4_frame, s')))"

section \<open>What a table tree maps\<close>

lemma get_index [simp]:
  "PageTable_get mem t (pml4_index v) = Inr (mem t (pml4_index v))"
  "PageTable_get mem t (pdpt_index v) = Inr (mem t (pdpt_index v))"
  "PageTable_get mem t (pd_index v) = Inr (mem t (pd_index v))"
  "PageTable_get mem t (pt_index v) = Inr (mem t (pt_index v))"
  by (simp_all add: PageTable_get_def not_le)

lemma set_index [simp]:
  "PageTable_set mem t (pml4_index v) e = Inr (mem(t := (mem t)(pml4_index v := e)))"
  "PageTable_set mem t (pdpt_index v) e = Inr (mem(t := (mem t)(pdpt_index v := e)))"
  "PageTable_set mem t (pd_index v) e = Inr (mem(t := (mem t)(pd_index v := e)))"
  "PageTable_set mem t (pt_index v) e = Inr (mem(t := (mem t)(pt_index v := e)))"
  by (simp_all add: PageTable_set_def not_le)

text \<open>
  The leaf entry that governs a path of indices below table \<open>t\<close>, with the number of
  address bits it leaves to the offset.  Huge leaves exist at the levels with one
  or two levels below them.
\<close>

definition huge_leaf :: "nat list \<Rightarrow> u64 \<Rightarrow> bool" where
  "huge_leaf is e \<longleftrightarrow> length is \<in> {1, 2} \<and> is_huge_page e"

fun resolve :: "pt_mem \<Rightarrow> u64 \<Rightarrow> nat list \<Rightarrow> (u64 \<times> nat) option" where
  "resolve mem t [] = None"
| "resolve mem t (i # is) =
     (let e = mem t i in
      if \<not> is_present e then None
      else if is = [] \<or> huge_leaf is e then Some (e, 12 + 9 * length is)
      else resolve mem (entry_frame e) is)"

definition leaf_target :: "u64 \<Rightarrow> u64 \<times> nat \<Rightarrow> u64" where
  "leaf_target v = (\<lambda>(e, k). phys_add (entry_frame e) (take_bit k v))"

lemma translate_resolve: "translate mem pml4 v = Inr (map_option (leaf_target v) (resolve mem pml4 (path v)))"
  unfolding translate_def path_def mask_lits word_and_mask page_offset_def
  by (simp add: huge_leaf_def leaf_target_def Let_def numeral_eq_Suc)

text \<open>
  Ownership of table frames: \<open>own t\<close> is the path of indices at which table \<open>t\<close> sits.  In a
  well-formed tree every present entry of a table above the last level that is not
  a huge leaf leads to the table owned by the extended path.  At the root only the
  entries in \<open>D\<close> are considered (the user half, for an address space).
\<close>

definition tree :: "nat set \<Rightarrow> pt_mem \<Rightarrow> u64 \<Rightarrow> (u64 \<rightharpoonup> nat list) \<Rightarrow> bool" where
  "tree D mem root own \<longleftrightarrow> own root = Some [] \<and>
     (\<forall>t p i is. own t = Some p \<longrightarrow> length (p @ i # is) = 4 \<longrightarrow> i < 512 \<longrightarrow> (p = [] \<longrightarrow> i \<in> D) \<longrightarrow> is \<noteq> [] \<longrightarrow>
        is_present (mem t i) \<longrightarrow> \<not> huge_leaf is (mem t i) \<longrightarrow> own (entry_frame (mem t i)) = Some (p @ [i]))"

text \<open>A path the tree is concerned with.\<close>

definition proper :: "nat set \<Rightarrow> nat list \<Rightarrow> bool" where
  "proper D q \<longleftrightarrow> length q = 4 \<and> hd q \<in> D \<and> (\<forall>i \<in> set q. i < 512)"

lemma path_proper: "pml4_index v \<in> D \<Longrightarrow> proper D (path v)"
  by (simp add: proper_def path_def)

lemma tree_next:
  assumes "tree D mem root own" "own t = Some p" "proper D (p @ i # is)" "is \<noteq> []"
    "is_present (mem t i)" "\<not> huge_leaf is (mem t i)"
  shows "own (entry_frame (mem t i)) = Some (p @ [i])"
proof -
  have "i < 512" "p = [] \<Longrightarrow> i \<in> D" "length (p @ i # is) = 4" using assms(3) by (auto simp: proper_def)
  with assms show ?thesis unfolding tree_def by blast
qed

text \<open>Two memories that agree on the entries along a path resolve it alike.\<close>

lemma resolve_cong:
  assumes "tree D mem root own" "own t = Some p" "proper D (p @ is)"
    and "\<And>t' k. k < 4 \<Longrightarrow> own t' = Some (take k (p @ is)) \<Longrightarrow> mem' t' ((p @ is) ! k) = mem t' ((p @ is) ! k)"
  shows "resolve mem' t is = resolve mem t is"
  using assms(2-)
proof (induction "is" arbitrary: t p)
  case (Cons i "is")
  have eq: "mem' t i = mem t i"
    using Cons.prems(3)[of "length p" t] Cons.prems(1,2) by (auto simp: proper_def nth_append)
  show ?case
  proof (cases "\<not> is_present (mem t i) \<or> is = [] \<or> huge_leaf is (mem t i)")
    case False
    then have "own (entry_frame (mem t i)) = Some (p @ [i])"
      using tree_next[OF assms(1) Cons.prems(1,2)] by blast
    from Cons.IH[OF this] Cons.prems(2,3) False eq show ?thesis by (simp add: Let_def)
  qed (auto simp: eq Let_def)
qed simp

text \<open>\<open>reach mem root q k t\<close>: following \<open>k\<close> indices of the path \<open>q\<close> from the root leads to the table \<open>t\<close>.\<close>

primrec reach :: "pt_mem \<Rightarrow> u64 \<Rightarrow> nat list \<Rightarrow> nat \<Rightarrow> u64 \<Rightarrow> bool" where
  "reach mem root q 0 t \<longleftrightarrow> t = root"
| "reach mem root q (Suc k) t \<longleftrightarrow> (\<exists>u. reach mem root q k u \<and> is_present (mem u (q ! k)) \<and>
     \<not> huge_leaf (drop (Suc k) q) (mem u (q ! k)) \<and> t = entry_frame (mem u (q ! k)))"

lemma reach_own:
  assumes "tree D mem root own" "proper D q" "k < 4" "reach mem root q k t"
  shows "own t = Some (take k q)"
  using assms(3,4)
proof (induction k arbitrary: t)
  case 0
  with assms(1) show ?case by (simp add: tree_def)
next
  case (Suc k)
  then obtain u where u: "reach mem root q k u" "is_present (mem u (q ! k))"
      "\<not> huge_leaf (drop (Suc k) q) (mem u (q ! k))" "t = entry_frame (mem u (q ! k))" by auto
  have l: "length q = 4" using assms(2) by (simp add: proper_def)
  with Suc.prems(1) have "take k q @ q ! k # drop (Suc k) q = q" "drop (Suc k) q \<noteq> []"
      "take (Suc k) q = take k q @ [q ! k]"
    by (simp_all add: id_take_nth_drop[symmetric] take_Suc_conv_app_nth)
  with tree_next[OF assms(1) Suc.IH[OF _ u(1)] _ _ u(2,3)] u(4) Suc.prems(1) assms(2) show ?case by simp
qed

lemma reach_resolve:
  assumes "length q = 4" "k < 4" "reach mem root q k t"
  shows "resolve mem root q = resolve mem t (drop k q)"
  using assms(2,3)
proof (induction k arbitrary: t)
  case (Suc k)
  then obtain u where u: "reach mem root q k u" "is_present (mem u (q ! k))"
      "\<not> huge_leaf (drop (Suc k) q) (mem u (q ! k))" "t = entry_frame (mem u (q ! k))" by auto
  have "drop k q = q ! k # drop (Suc k) q" "drop (Suc k) q \<noteq> []"
    using assms(1) Suc.prems(1) by (simp_all add: Cons_nth_drop_Suc)
  with Suc.IH[OF _ u(1)] Suc.prems(1) u(2-) show ?case by (simp add: Let_def)
qed simp

text \<open>Reaching depends only on the entries along the path above the table reached.\<close>

lemma reach_cong:
  assumes "tree D mem root own" "proper D q" "k < 4" "reach mem root q k t"
    and "\<And>t' j. j < k \<Longrightarrow> own t' = Some (take j q) \<Longrightarrow> mem' t' (q ! j) = mem t' (q ! j)"
  shows "reach mem' root q k t"
  using assms(3-)
proof (induction k arbitrary: t)
  case (Suc k)
  then obtain u where u: "reach mem root q k u" "is_present (mem u (q ! k))"
      "\<not> huge_leaf (drop (Suc k) q) (mem u (q ! k))" "t = entry_frame (mem u (q ! k))" by auto
  have "own u = Some (take k q)" using reach_own[OF assms(1,2) _ u(1)] Suc.prems(1) by simp
  then have "mem' u (q ! k) = mem u (q ! k)" using Suc.prems(3) by simp
  moreover have "reach mem' root q k u" using Suc.IH[OF _ u(1)] Suc.prems by simp
  ultimately show ?case using u by auto
qed simp

text \<open>Writing one entry of a table on a path.\<close>

lemma take_nth_neq:
  assumes "length q = 4" "length q' = 4" "k < 4" "j < 4" "take k q = take j q'" "q ! k = q' ! j"
  shows "k = j \<and> take (Suc k) q = take (Suc k) q'"
proof -
  have "length (take k q) = length (take j q')" using assms(5) by simp
  with assms(1-4) have "k = j" by simp
  with assms show ?thesis by (simp add: take_Suc_conv_app_nth)
qed

lemma write_entry:
  fixes e :: u64
  assumes tr: "tree D mem root own" and q: "proper D q" and k: "k < 4" and r: "reach mem root q k t"
  defines "mem' \<equiv> mem(t := (mem t)(q ! k := e))"
  shows "reach mem' root q k t"
    and "proper D q' \<Longrightarrow> take (Suc k) q' \<noteq> take (Suc k) q \<Longrightarrow> resolve mem' root q' = resolve mem root q'"
    and "is_present e \<Longrightarrow> k = 3 \<or> huge_leaf (drop (Suc k) q) e \<Longrightarrow>
           resolve mem' root q = Some (e, 12 + 9 * (3 - k)) \<and> tree D mem' root own"
proof -
  have o: "own t = Some (take k q)" by (rule reach_own[OF tr q k r])
  have l: "length q = 4" using q by (simp add: proper_def)
  have ne: "mem' t' (q ! j) = mem t' (q ! j)" if "j < k" "own t' = Some (take j q)" for t' j
    using that o take_nth_neq[OF l l k, of j] k by (auto simp: mem'_def)
  show r': "reach mem' root q k t" by (rule reach_cong[OF tr q k r ne])
  show "resolve mem' root q' = resolve mem root q'"
    if q': "proper D q'" "take (Suc k) q' \<noteq> take (Suc k) q"
  proof (rule resolve_cong[OF tr, of _ "[]"])
    show "own root = Some []" using tr by (simp add: tree_def)
    show "proper D ([] @ q')" using q' by simp
    fix t' j assume "j < 4" "own t' = Some (take j ([] @ q'))"
    then show "mem' t' (([] @ q') ! j) = mem t' (([] @ q') ! j)"
      using o take_nth_neq[of q q' k j] l q' k by (auto simp: mem'_def proper_def)
  qed
  show "resolve mem' root q = Some (e, 12 + 9 * (3 - k)) \<and> tree D mem' root own"
    if e: "is_present e" "k = 3 \<or> huge_leaf (drop (Suc k) q) e"
  proof
    have "drop k q = q ! k # drop (Suc k) q" using l k by (simp add: Cons_nth_drop_Suc)
    with reach_resolve[OF l k r'] e l k show "resolve mem' root q = Some (e, 12 + 9 * (3 - k))"
      by (auto simp: mem'_def Let_def)
    show "tree D mem' root own"
      unfolding tree_def
    proof (intro conjI allI impI)
      show "own root = Some []" using tr by (simp add: tree_def)
      fix t' p i "is"
      assume a: "own t' = Some p" "length (p @ i # is) = 4" "i < 512" "p = [] \<longrightarrow> i \<in> D" "is \<noteq> []"
        "is_present (mem' t' i)" "\<not> huge_leaf is (mem' t' i)"
      have "\<not> (t' = t \<and> i = q ! k)"
      proof
        assume "t' = t \<and> i = q ! k"
        then have "length p = k" "mem' t' i = e" using a(1) o l k by (auto simp: mem'_def)
        then have "length is = 3 - k" "mem' t' i = e" using a(2) by auto
        then have "length is = length (drop (Suc k) q)" "k \<noteq> 3" using l a(5) by auto
        then have "huge_leaf is e" using e(2) by (simp add: huge_leaf_def)
        with a(7) \<open>mem' t' i = e\<close> show False by simp
      qed
      then have "mem' t' i = mem t' i" by (auto simp: mem'_def)
      with tr a show "own (entry_frame (mem' t' i)) = Some (p @ [i])"
        unfolding tree_def by (metis (no_types, lifting))
    qed
  qed
qed

lemma huge_leaf_length: "length is = length js \<Longrightarrow> huge_leaf is e = huge_leaf js e"
  by (simp add: huge_leaf_def)

lemma reach_prefix:
  assumes "length q = length q'" "take k q = take k q'"
  shows "reach mem root q k t = reach mem root q' k t"
  using assms(2)
proof (induction k arbitrary: t)
  case (Suc k)
  have eq: "take k q = take k q'"
    using Suc.prems assms(1) by (metis take_take min.absorb1 le_SucI order_refl)
  show ?case
  proof (cases "k < length q")
    case True
    then have "q ! k = q' ! k" using Suc.prems assms(1) by (metis nth_take lessI)
    moreover have "huge_leaf (drop (Suc k) q) e = huge_leaf (drop (Suc k) q') e" for e
      using assms(1) by (intro huge_leaf_length) simp
    ultimately show ?thesis using Suc.IH[OF eq] by simp
  next
    case False
    then have "q = q'" using eq assms(1) by simp
    then show ?thesis by simp
  qed
qed simp

text \<open>Installing a fresh zeroed table below an absent entry changes no translation.\<close>

lemma is_present_0 [simp]: "\<not> is_present 0"
  by (simp add: is_present_def)

lemma resolve_zero: "(\<And>i. i < 512 \<Longrightarrow> mem t i = 0) \<Longrightarrow> (\<forall>i \<in> set is. i < 512) \<Longrightarrow> resolve mem t is = None"
  by (cases "is") auto

definition table_flags :: "u64 \<Rightarrow> bool" where
  "table_flags flags \<longleftrightarrow> flags_ok flags \<and> bit flags 0 \<and> \<not> bit flags 7"

lemma table_entry:
  assumes "phys_ok f" "table_flags flags"
  shows "is_present (new_page f flags)" "\<not> huge_leaf is (new_page f flags)" "entry_frame (new_page f flags) = f"
  using assms by (simp_all add: table_flags_def entry_bits huge_leaf_def entry_frame_new_page)

lemma install_table:
  assumes tr: "tree D mem root own" and q: "proper D q" and k: "k < 3" and r: "reach mem root q k t"
    and absent: "\<not> is_present (mem t (q ! k))" and f: "own f = None" "phys_ok f" and fl: "table_flags flags"
  defines "mem' \<equiv> (PageTable_zero mem f)(t := (PageTable_zero mem f t)(q ! k := new_page f flags))"
  shows "tree D mem' root (own(f \<mapsto> take (Suc k) q))" (is ?tree)
    and "reach mem' root q (Suc k) f" (is ?reach)
    and "proper D q' \<Longrightarrow> resolve mem' root q' = resolve mem root q'" (is "_ \<Longrightarrow> ?res")
proof -
  note e = table_entry[OF f(2) fl]
  have o: "own t = Some (take k q)" by (rule reach_own[OF tr q _ r]) (use k in simp)
  have tf: "t \<noteq> f" using o f(1) by auto
  have l: "length q = 4" using q by (simp add: proper_def)
  have new: "mem' t (q ! k) = new_page f flags" by (simp add: mem'_def)
  have zero: "mem' f i = 0" if "i < 512" for i using tf that by (simp add: mem'_def PageTable_zero_def)
  have old: "mem' t' i = mem t' i" if "own t' \<noteq> None" "t' \<noteq> t \<or> i \<noteq> q ! k" for t' i
    using that f(1) by (auto simp: mem'_def PageTable_zero_def)
  have sk: "take (Suc k) q = take k q @ [q ! k]" using l k by (simp add: take_Suc_conv_app_nth)
  show ?tree
    unfolding tree_def
  proof (intro conjI allI impI)
    show "(own(f \<mapsto> take (Suc k) q)) root = Some []" using tr f(1) by (auto simp: tree_def)
    fix t' p i "is"
    assume a: "(own(f \<mapsto> take (Suc k) q)) t' = Some p" "length (p @ i # is) = 4" "i < 512" "p = [] \<longrightarrow> i \<in> D"
      "is \<noteq> []" "is_present (mem' t' i)" "\<not> huge_leaf is (mem' t' i)"
    have "t' \<noteq> f" using a(3,6) zero by auto
    then have ot: "own t' = Some p" using a(1) by simp
    show "(own(f \<mapsto> take (Suc k) q)) (entry_frame (mem' t' i)) = Some (p @ [i])"
    proof (cases "t' = t \<and> i = q ! k")
      case True
      with ot o have "p = take k q" by simp
      with True new e(3) sk show ?thesis by simp
    next
      case False
      then have "mem' t' i = mem t' i" using old ot by auto
      with tr ot a have "own (entry_frame (mem t' i)) = Some (p @ [i])"
        unfolding tree_def by (metis (no_types, lifting))
      with f(1) \<open>mem' t' i = mem t' i\<close> show ?thesis by auto
    qed
  qed
  have "reach mem' root q k t"
  proof (rule reach_cong[OF tr q _ r])
    fix t' j assume j: "j < k" "own t' = Some (take j q)"
    then have "length (take j q) \<noteq> length (take k q)" using l k by simp
    then have "t' \<noteq> t" using o j(2) by (metis option.inject)
    then show "mem' t' (q ! j) = mem t' (q ! j)" using old j by simp
  qed (use k in simp)
  then show ?reach using new e by auto
  show ?res if q': "proper D q'"
  proof -
    have "resolve mem' t1 is = resolve mem t1 is" if "own t1 = Some p" "proper D (p @ is)" for t1 p "is"
      using that
    proof (induction "is" arbitrary: t1 p)
      case (Cons i "is")
      show ?case
      proof (cases "t1 = t \<and> i = q ! k")
        case True
        have "\<forall>i \<in> set is. i < 512" using Cons.prems(2) by (simp add: proper_def)
        with zero have "resolve mem' f is = None" by (rule resolve_zero)
        moreover have "is \<noteq> []" using True o Cons.prems l k by (auto simp: proper_def)
        ultimately show ?thesis using True new e absent by (simp add: Let_def)
      next
        case False
        then have eq: "mem' t1 i = mem t1 i" using old Cons.prems(1) by auto
        show ?thesis
        proof (cases "\<not> is_present (mem t1 i) \<or> is = [] \<or> huge_leaf is (mem t1 i)")
          case False
          then have "own (entry_frame (mem t1 i)) = Some (p @ [i])"
            using tree_next[OF tr Cons.prems] by blast
          from Cons.IH[OF this] Cons.prems(2) False eq show ?thesis by (simp add: Let_def)
        qed (auto simp: eq Let_def)
      qed
    qed simp
    from this[of root "[]" q'] tr q' show ?thesis by (simp add: tree_def)
  qed
qed

section \<open>Building mappings over a source of fresh frames\<close>

text \<open>
  What the builder needs of its allocator: while \<open>n\<close> frames are left and the frames
  \<open>H\<close> are handed out, an allocation returns a frame outside \<open>H\<close> that a page-table entry can
  hold; it panics only when no frame is left.
\<close>

definition leaf_below :: "nat \<Rightarrow> (u64 \<times> nat) option \<Rightarrow> bool" where
  "leaf_below b r \<longleftrightarrow> (case r of None \<Rightarrow> True | Some (_, m) \<Rightarrow> m < b)"

lemma leaf_below_mono: "leaf_below b r \<Longrightarrow> b \<le> c \<Longrightarrow> leaf_below c r"
  by (auto simp: leaf_below_def split: option.splits)

text \<open>A tree that has gained tables: all new frames are its own, and no table of another tree has changed.\<close>

definition grown :: "(u64 \<rightharpoonup> nat list) \<Rightarrow> u64 set \<Rightarrow> pt_mem \<Rightarrow> (u64 \<rightharpoonup> nat list) \<Rightarrow> u64 set \<Rightarrow> pt_mem \<Rightarrow> bool" where
  "grown own H mem own' H' mem' \<longleftrightarrow> dom own \<subseteq> dom own' \<and> H' = H \<union> dom own' \<and> dom own' \<inter> H \<subseteq> dom own \<and>
     (\<forall>t \<in> H - dom own. mem' t = mem t)"

lemma grown_refl: "dom own \<subseteq> H \<Longrightarrow> grown own H mem own H mem"
  by (auto simp: grown_def)

lemma grown_trans:
  assumes a: "grown own H mem own1 H1 mem1" and b: "grown own1 H1 mem1 own2 H2 mem2"
  shows "grown own H mem own2 H2 mem2"
proof -
  have a': "dom own \<subseteq> dom own1" "H1 = H \<union> dom own1" "dom own1 \<inter> H \<subseteq> dom own" "\<And>t. t \<in> H - dom own \<Longrightarrow> mem1 t = mem t"
    and b': "dom own1 \<subseteq> dom own2" "H2 = H1 \<union> dom own2" "dom own2 \<inter> H1 \<subseteq> dom own1" "\<And>t. t \<in> H1 - dom own1 \<Longrightarrow> mem2 t = mem1 t"
    using a b unfolding grown_def by blast+
  have "mem2 t = mem t" if "t \<in> H - dom own" for t
  proof -
    have "t \<in> H1 - dom own1" using that a' by auto
    then show ?thesis using a'(4)[OF that] b'(4) by simp
  qed
  moreover have "dom own \<subseteq> dom own2" using a'(1) b'(1) by (rule subset_trans)
  moreover have "H2 = H \<union> dom own2" using a'(2) b'(1,2) by blast
  moreover have "dom own2 \<inter> H \<subseteq> dom own" using a'(2,3) b'(3) by blast
  ultimately show ?thesis unfolding grown_def by blast
qed

locale frame_source =
  fixes al :: "'s frame_alloc"
    and inv :: "u64 set \<Rightarrow> nat \<Rightarrow> 's \<Rightarrow> bool"
  assumes fresh: "inv H n s \<Longrightarrow> al s = Inr (f, s') \<Longrightarrow> phys_ok f \<and> f \<notin> H \<and> 0 < n \<and> inv (insert f H) (n - 1) s'"
    and exhausted: "inv H n s \<Longrightarrow> al s = Inl e \<Longrightarrow> n = 0 \<and> e = OOM"
begin

definition tables_ok :: "nat set \<Rightarrow> u64 \<Rightarrow> (u64 \<rightharpoonup> nat list) \<Rightarrow> u64 set \<Rightarrow> nat \<Rightarrow> pt_mem \<times> 's \<Rightarrow> bool" where
  "tables_ok D root own H n = (\<lambda>(mem, s). tree D mem root own \<and> inv H n s \<and> dom own \<subseteq> H)"

text \<open>
  The states an ensured table leaves behind: same translations, at most \<open>c\<close> frames
  used, all new frames are tables of this tree, and the tables of other trees are untouched.
\<close>

definition extends :: "nat set \<Rightarrow> u64 \<Rightarrow> (u64 \<rightharpoonup> nat list) \<Rightarrow> nat \<Rightarrow> nat \<Rightarrow> u64 set \<Rightarrow> pt_mem \<Rightarrow> pt_mem \<times> 's \<Rightarrow> bool" where
  "extends D root own c n H mem st \<longleftrightarrow> (\<exists>own' H' n'. tables_ok D root own' H' n' st \<and> n \<le> n' + c \<and>
     grown own H mem own' H' (fst st) \<and> (\<forall>q. proper D q \<longrightarrow> resolve (fst st) root q = resolve mem root q))"

lemma extends_refl: "tables_ok D root own H n (mem, s) \<Longrightarrow> extends D root own 0 n H mem (mem, s)"
  unfolding extends_def fst_conv
  by (intro exI[of _ own] exI[of _ H] exI[of _ n] conjI grown_refl) (auto simp: tables_ok_def)

lemma extends_weaken: "extends D root own c n H mem st \<Longrightarrow> extends D root own (Suc c) n H mem st"
  unfolding extends_def by (elim exE conjE, intro exI conjI, assumption) auto

lemma ensure_table_spec:
  assumes ok: "tables_ok D root own H n (mem, s)" and q: "proper D q" and k: "k < 3" and r: "reach mem root q k t"
    and small: "leaf_below (12 + 9 * (3 - k)) (resolve mem root q)" and fl: "table_flags flags"
  shows "ensure_table al flags t (q ! k) (mem, s) = Inl OOM \<and> n = 0 \<or>
    (\<exists>t' mem' s'. ensure_table al flags t (q ! k) (mem, s) = Inr (t', mem', s') \<and>
       extends D root own 1 n H mem (mem', s') \<and> reach mem' root q (Suc k) t')"
proof -
  have tr: "tree D mem root own" and i: "inv H n s" and d: "dom own \<subseteq> H" using ok by (auto simp: tables_ok_def)
  have q4: "length q = 4" "q ! k < 512" using q k by (auto simp: proper_def)
  have g: "PageTable_get mem t (q ! k) = Inr (mem t (q ! k))" using q4 by (simp add: PageTable_get_def)
  show ?thesis
  proof (cases "is_present (mem t (q ! k))")
    case True
    have "\<not> huge_leaf (drop (Suc k) q) (mem t (q ! k))"
    proof
      assume h: "huge_leaf (drop (Suc k) q) (mem t (q ! k))"
      have "drop k q = q ! k # drop (Suc k) q" using q4 k by (simp add: Cons_nth_drop_Suc)
      then have "resolve mem root q = Some (mem t (q ! k), 12 + 9 * (3 - k))"
        using reach_resolve[OF q4(1) _ r] k h True q4 by (simp add: Let_def)
      with small show False by (simp add: leaf_below_def)
    qed
    with True r have "reach mem root q (Suc k) (entry_frame (mem t (q ! k)))" by auto
    moreover have "extends D root own 1 n H mem (mem, s)"
      using extends_weaken[OF extends_refl[OF ok]] by simp
    ultimately show ?thesis using True g by (simp add: ensure_table_def)
  next
    case False
    show ?thesis
    proof (cases "al s")
      case (Inl e)
      with exhausted[OF i Inl] False g show ?thesis by (simp add: ensure_table_def)
    next
      case (Inr p)
      then obtain f s' where a: "al s = Inr (f, s')" by (cases p) auto
      note fr = fresh[OF i a]
      then have f: "own f = None" "phys_ok f" using d by auto
      let ?mem = "(PageTable_zero mem f)(t := (PageTable_zero mem f t)(q ! k := new_page f flags))"
      note ins = install_table[OF tr q k r False f fl]
      have "tables_ok D root (own(f \<mapsto> take (Suc k) q)) (insert f H) (n - 1) (?mem, s')"
        using ins(1) fr d by (auto simp: tables_ok_def)
      moreover have "own t = Some (take k q)" by (rule reach_own[OF tr q _ r]) (use k in simp)
      then have "grown own H mem (own(f \<mapsto> take (Suc k) q)) (insert f H) ?mem"
        using fr d by (auto simp: grown_def PageTable_zero_def)
      ultimately have "extends D root own 1 n H mem (?mem, s')"
        unfolding extends_def fst_conv using ins(3) by fastforce
      moreover have "ensure_table al flags t (q ! k) (mem, s) = Inr (f, ?mem, s')"
        using False a g q4 table_entry[OF f(2) fl] by (simp add: ensure_table_def Let_def PageTable_set_def)
      ultimately show ?thesis using ins(2) by blast
    qed
  qed
qed

text \<open>One more level, from a state reached by ensuring \<open>c\<close> levels.\<close>

lemma ensure_table_next:
  assumes ex: "extends D root own c n H mem (mem1, s1)" and q: "proper D q" and k: "k < 3" and r: "reach mem1 root q k t"
    and small: "leaf_below (12 + 9 * (3 - k)) (resolve mem root q)" and fl: "table_flags flags"
  shows "ensure_table al flags t (q ! k) (mem1, s1) = Inl OOM \<and> n \<le> c \<or>
    (\<exists>t' mem' s'. ensure_table al flags t (q ! k) (mem1, s1) = Inr (t', mem', s') \<and>
       extends D root own (Suc c) n H mem (mem', s') \<and> reach mem' root q (Suc k) t')"
proof -
  obtain own1 H1 n1 where e: "tables_ok D root own1 H1 n1 (mem1, s1)" "n \<le> n1 + c" "grown own H mem own1 H1 mem1"
      "\<And>q. proper D q \<Longrightarrow> resolve mem1 root q = resolve mem root q"
    using ex unfolding extends_def by auto
  have "extends D root own (Suc c) n H mem st" if x: "extends D root own1 1 n1 H1 mem1 st" for st
  proof -
    obtain own2 H2 n2 where f: "tables_ok D root own2 H2 n2 st" "n1 \<le> n2 + 1" "grown own1 H1 mem1 own2 H2 (fst st)"
        "\<And>q. proper D q \<Longrightarrow> resolve (fst st) root q = resolve mem1 root q"
      using x unfolding extends_def by auto
    then show ?thesis using e(2,4) grown_trans[OF e(3) f(3)] unfolding extends_def
      by (intro exI[of _ own2] exI[of _ H2] exI[of _ n2]) simp
  qed
  moreover have "leaf_below (12 + 9 * (3 - k)) (resolve mem1 root q)"
    using small e(4)[OF q] by simp
  ultimately show ?thesis
    using ensure_table_spec[OF e(1) q k r _ fl] e(2) by (metis add_0)
qed

lemma walk_to_pd_spec:
  assumes ok: "tables_ok D root own H n (mem, s)" and q: "proper D (path v)"
    and small: "leaf_below 30 (resolve mem root (path v))"
  shows "walk_to_pd al root v (mem, s) = Inl OOM \<and> n < 2 \<or>
    (\<exists>t' mem' s'. walk_to_pd al root v (mem, s) = Inr (t', mem', s') \<and>
       extends D root own 2 n H mem (mem', s') \<and> reach mem' root (path v) 2 t')"
proof -
  let ?fl = "with_writable (with_present 0)"
  have fl: "table_flags ?fl"
    by (simp add: table_flags_def flags_ok_def with_writable_def with_present_def WRITABLE_def PRESENT_def entry_flags_def bit_simps)
  have p: "path v ! 0 = pml4_index v" "path v ! 1 = pdpt_index v" by (simp_all add: path_def)
  have s0: "leaf_below (12 + 9 * (3 - 0)) (resolve mem root (path v))" "leaf_below (12 + 9 * (3 - 1)) (resolve mem root (path v))"
    by (rule leaf_below_mono[OF small]; simp)+
  have "reach mem root (path v) 0 root" by simp
  from ensure_table_next[OF extends_refl[OF ok] q _ this s0(1) fl]
  consider "ensure_table al ?fl root (path v ! 0) (mem, s) = Inl OOM" "n \<le> 0"
    | t1 mem1 s1 where "ensure_table al ?fl root (path v ! 0) (mem, s) = Inr (t1, mem1, s1)"
        "extends D root own 1 n H mem (mem1, s1)" "reach mem1 root (path v) 1 t1"
    by auto
  then show ?thesis
  proof cases
    case 1
    then show ?thesis by (simp add: walk_to_pd_def p)
  next
    case 2
    from ensure_table_next[OF 2(2) q _ 2(3) s0(2) fl] 2(1) show ?thesis
      unfolding p by (auto simp: walk_to_pd_def numeral_2_eq_2)
  qed
qed

text \<open>The effect of installing the leaf \<open>e\<close> for all paths that share the first \<open>m\<close> indices of \<open>q\<close>.\<close>

definition maps :: "nat set \<Rightarrow> u64 \<Rightarrow> (u64 \<rightharpoonup> nat list) \<Rightarrow> u64 set \<Rightarrow> nat \<Rightarrow> nat \<Rightarrow> pt_mem \<Rightarrow> nat list \<Rightarrow> nat \<Rightarrow> u64 \<Rightarrow> pt_mem \<times> 's \<Rightarrow> bool" where
  "maps D root own H c n mem q m e st \<longleftrightarrow> (\<exists>own' H' n'. tables_ok D root own' H' n' st \<and> n \<le> n' + c \<and>
     grown own H mem own' H' (fst st) \<and>
     (\<forall>q'. proper D q' \<longrightarrow> resolve (fst st) root q' =
        (if take m q' = take m q then Some (e, 12 + 9 * (4 - m)) else resolve mem root q')))"

lemma write_leaf:
  assumes ex: "extends D root own c n H mem (mem1, s1)" and q: "proper D q" and k: "k < 4" and r: "reach mem1 root q k t"
    and e: "is_present e" "k = 3 \<or> k = 2 \<and> is_huge_page e"
  shows "maps D root own H c n mem q (Suc k) e (mem1(t := (mem1 t)(q ! k := e)), s1)"
proof -
  obtain own1 H1 n1 where o: "tree D mem1 root own1" "inv H1 n1 s1" "dom own1 \<subseteq> H1" "n \<le> n1 + c" "grown own H mem own1 H1 mem1"
      "\<And>q. proper D q \<Longrightarrow> resolve mem1 root q = resolve mem root q"
    using ex unfolding extends_def tables_ok_def by auto
  have h: "k = 3 \<or> huge_leaf (drop (Suc k) q') e" if "proper D q'" for q'
    using e(2) that by (auto simp: huge_leaf_def proper_def)
  let ?mem = "mem1(t := (mem1 t)(q ! k := e))"
  have "tree D ?mem root own1" using write_entry(3)[OF o(1) q k r e(1) h[OF q]] by simp
  moreover have "resolve ?mem root q' = (if take (Suc k) q' = take (Suc k) q then Some (e, 12 + 9 * (4 - Suc k)) else resolve mem root q')"
    if q': "proper D q'" for q'
  proof (cases "take (Suc k) q' = take (Suc k) q")
    case True
    then have "take k q' = take k q" "q' ! k = q ! k"
      by (metis take_take min.absorb1 le_SucI order_refl, metis nth_take lessI True)
    then have "reach mem1 root q' k t" using reach_prefix[of q q' k] r q q' by (simp add: proper_def)
    from write_entry(3)[OF o(1) q' k this e(1) h[OF q']] True \<open>q' ! k = q ! k\<close> show ?thesis by simp
  next
    case False
    with write_entry(2)[OF o(1) q k r q' False] o(6)[OF q'] show ?thesis by simp
  qed
  moreover have "own1 t = Some (take k q)" by (rule reach_own[OF o(1) q k r])
  then have "grown own1 H1 mem1 own1 H1 ?mem" using o(3) by (auto simp: grown_def)
  with o(5) have "grown own H mem own1 H1 ?mem" by (rule grown_trans)
  ultimately show ?thesis using o unfolding maps_def tables_ok_def by fastforce
qed

lemma map_page_spec:
  assumes ok: "tables_ok D root own H n (mem, s)" and q: "proper D (path v)"
    and small: "leaf_below 21 (resolve mem root (path v))" and e: "is_present (new_page pa flags)"
  shows "map_page al root v pa flags (mem, s) = Inl OOM \<and> n < 3 \<or>
    (\<exists>st. map_page al root v pa flags (mem, s) = Inr st \<and> maps D root own H 3 n mem (path v) 4 (new_page pa flags) st)"
proof -
  let ?fl = "with_writable (with_present 0)"
  have fl: "table_flags ?fl"
    by (simp add: table_flags_def flags_ok_def with_writable_def with_present_def WRITABLE_def PRESENT_def entry_flags_def bit_simps)
  have p: "path v ! 2 = pd_index v" "path v ! 3 = pt_index v" by (simp_all add: path_def)
  have sm: "leaf_below 30 (resolve mem root (path v))" "leaf_below (12 + 9 * (3 - 2)) (resolve mem root (path v))"
    by (rule leaf_below_mono[OF small]; simp)+
  from walk_to_pd_spec[OF ok q sm(1)] show ?thesis
  proof (elim disjE exE conjE)
    fix pd mem1 s1
    assume w: "walk_to_pd al root v (mem, s) = Inr (pd, mem1, s1)" "extends D root own 2 n H mem (mem1, s1)"
      "reach mem1 root (path v) 2 pd"
    have "(2 :: nat) < 3" by simp
    from ensure_table_next[OF w(2) q this w(3) sm(2) fl] show ?thesis
    proof (elim disjE exE conjE)
      fix pt mem2 s2
      assume x: "ensure_table al ?fl pd (path v ! 2) (mem1, s1) = Inr (pt, mem2, s2)"
        "extends D root own (Suc 2) n H mem (mem2, s2)" "reach mem2 root (path v) (Suc 2) pt"
      from write_leaf[OF x(2) q _ _ e, of 3 pt] x(1,3) w(1) show ?thesis
        unfolding p by (simp add: map_page_def numeral_eq_Suc)
    qed (use w(1) p in \<open>auto simp: map_page_def\<close>)
  qed (auto simp: map_page_def)
qed

lemma map_huge_2m_spec:
  assumes ok: "tables_ok D root own H n (mem, s)" and q: "proper D (path v)"
    and small: "leaf_below 30 (resolve mem root (path v))" and e: "is_present (new_page pa flags)"
    and a: "v AND 0x1FFFFF = 0" "pa AND 0x1FFFFF = 0"
  shows "map_huge_2m al root v pa flags (mem, s) = Inl OOM \<and> n < 2 \<or>
    (\<exists>st. map_huge_2m al root v pa flags (mem, s) = Inr st \<and>
       maps D root own H 2 n mem (path v) 3 (new_page pa (with_huge_page flags)) st)"
proof -
  have p: "path v ! 2 = pd_index v" by (simp add: path_def)
  have h: "is_present (new_page pa (with_huge_page flags))" "is_huge_page (new_page pa (with_huge_page flags))"
    using e by (auto simp: entry_bits with_huge_page_def HUGE_PAGE_def bit_simps)
  from walk_to_pd_spec[OF ok q small] show ?thesis
  proof (elim disjE exE conjE)
    fix pd mem1 s1
    assume w: "walk_to_pd al root v (mem, s) = Inr (pd, mem1, s1)" "extends D root own 2 n H mem (mem1, s1)"
      "reach mem1 root (path v) 2 pd"
    from write_leaf[OF w(2) q _ w(3) h(1)] h(2) w(1) a show ?thesis
      unfolding p by (simp add: map_huge_2m_def numeral_eq_Suc)
  qed (use a in \<open>auto simp: map_huge_2m_def\<close>)
qed

lemma builder_new_spec:
  assumes "inv H n s"
  shows "builder_new al (mem, s) = Inl OOM \<and> n = 0 \<or>
    (\<exists>root mem' s'. builder_new al (mem, s) = Inr (root, mem', s') \<and> root \<notin> H \<and> 0 < n \<and>
       tables_ok D root [root \<mapsto> []] (insert root H) (n - 1) (mem', s') \<and>
       (\<forall>q. proper D q \<longrightarrow> resolve mem' root q = None))"
proof (cases "al s")
  case (Inl e)
  with exhausted[OF assms Inl] show ?thesis by (simp add: builder_new_def)
next
  case (Inr p)
  then obtain f s' where a: "al s = Inr (f, s')" by (cases p) auto
  have "tree D (PageTable_zero mem f) f [f \<mapsto> []]"
    by (auto simp: tree_def PageTable_zero_def split: if_splits)
  moreover have "proper D q \<Longrightarrow> resolve (PageTable_zero mem f) f q = None" for q
    by (rule resolve_zero) (auto simp: PageTable_zero_def proper_def)
  ultimately show ?thesis using fresh[OF assms a] a by (auto simp: builder_new_def tables_ok_def)
qed

end

section \<open>The two allocators of the kernel are such sources\<close>

lemma phys_ok_unat: "phys_ok a \<longleftrightarrow> unat a mod 4096 = 0 \<and> unat a < 2 ^ 48"
proof -
  have "unat (take_bit 12 a) = take_bit 12 (unat a)" by (rule unsigned_take_bit_eq)
  then have "unat (take_bit 12 a) = unat a mod 4096" by (simp only: take_bit_eq_mod[of 12 "unat a"]) simp
  then have "is_aligned_4k a \<longleftrightarrow> unat a mod 4096 = 0"
    unfolding is_aligned_4k_def mask_lits word_and_mask by (metis unsigned_0 unsigned_word_eqI)
  then show ?thesis by (simp add: phys_ok_def word_less_nat_alt)
qed

lemma PhysAddr_new_id: "phys_ok a \<Longrightarrow> PhysAddr_new a = a"
  unfolding PhysAddr_new_def mask_lits word_and_mask phys_ok_bits
  by (rule bits_eqI) (auto simp: bit_take_bit_iff)

definition pool_frame :: "BumpAllocator \<Rightarrow> nat \<Rightarrow> u64" where
  "pool_frame b i = pool_base b - va_offset b + of_nat (i * 4096)"

definition bump_inv :: "u64 set \<Rightarrow> nat \<Rightarrow> BumpAllocator \<Rightarrow> bool" where
  "bump_inv H n b \<longleftrightarrow> phys_ok (pool_base b - va_offset b) \<and>
     unat (pool_base b - va_offset b) + EARLY_FRAMES * 4096 \<le> 2 ^ 48 \<and>
     n = EARLY_FRAMES - bump_next b \<and> H \<subseteq> pool_frame b ` {..<bump_next b}"

lemma unat_pool_frame:
  assumes "bump_inv H n b" "i < EARLY_FRAMES"
  shows "unat (pool_frame b i) = unat (pool_base b - va_offset b) + i * 4096"
proof -
  let ?b = "pool_base b - va_offset b"
  have m: "unat (of_nat (i * 4096) :: u64) = i * 4096"
    by (rule of_nat_inverse[OF refl]) (use assms(2) in \<open>simp add: EARLY_FRAMES_def\<close>)
  have "i * 4096 \<le> EARLY_FRAMES * 4096" using assms(2) by simp
  then have "unat ?b + i * 4096 \<le> 2 ^ 48" using assms(1) unfolding bump_inv_def by linarith
  then have "unat ?b + i * 4096 < 2 ^ LENGTH(64)" by simp
  then show ?thesis unfolding pool_frame_def using m by (subst unat_add_lem[THEN iffD1]) simp_all
qed

interpretation bump: frame_source bump_alloc bump_inv
proof
  fix H n and b :: BumpAllocator and f s'
  assume inv: "bump_inv H n b" and a: "bump_alloc b = Inr (f, s')"
  have nx: "bump_next b < EARLY_FRAMES" and s': "s' = b\<lparr>bump_next := bump_next b + 1\<rparr>"
    and f: "f = PhysAddr_new (pool_frame b (bump_next b))"
    using a by (auto simp: bump_alloc_def pool_frame_def algebra_simps split: if_splits)
  note u = unat_pool_frame[OF inv]
  have lim: "unat (pool_base b - va_offset b) + EARLY_FRAMES * 4096 \<le> 2 ^ 48"
    and al: "unat (pool_base b - va_offset b) mod 4096 = 0"
    using inv unfolding bump_inv_def phys_ok_unat by blast+
  have "bump_next b * 4096 < EARLY_FRAMES * 4096" using nx by simp
  then have ok: "phys_ok (pool_frame b (bump_next b))"
    unfolding phys_ok_unat u[OF nx] using lim al \<open>bump_next b * 4096 < EARLY_FRAMES * 4096\<close> by (intro conjI) (simp, linarith)
  then have fe: "f = pool_frame b (bump_next b)" using f by (simp add: PhysAddr_new_id)
  have "pool_frame b (bump_next b) \<noteq> pool_frame b j" if "j < bump_next b" for j
  proof
    assume "pool_frame b (bump_next b) = pool_frame b j"
    then have "unat (pool_frame b (bump_next b)) = unat (pool_frame b j)" by simp
    moreover have "j < EARLY_FRAMES" using that nx by simp
    ultimately have "bump_next b * 4096 = j * 4096" using u[OF nx] u[of j] by linarith
    with that show False by simp
  qed
  then have "f \<notin> H" using inv fe unfolding bump_inv_def by auto
  moreover have "pool_frame s' = pool_frame b" by (simp add: s' pool_frame_def fun_eq_iff)
  ultimately show "phys_ok f \<and> f \<notin> H \<and> 0 < n \<and> bump_inv (insert f H) (n - 1) s'"
    using inv ok fe nx by (auto simp: bump_inv_def s' lessThan_Suc)
next
  fix H n and b :: BumpAllocator and e
  assume "bump_inv H n b" "bump_alloc b = Inl e"
  then show "n = 0 \<and> e = OOM" by (auto simp: bump_inv_def bump_alloc_def split: if_splits)
qed

text \<open>The kernel's global allocator, as address spaces use it.\<close>

definition kernel_alloc :: "galloc frame_alloc" where
  "kernel_alloc g = and_then (alloc_frame g) (\<lambda>(b, g'). Inr (PhysAddr_new (of_nat b), g'))"

definition frame_addr :: "nat \<Rightarrow> u64" where
  "frame_addr f = of_nat (f * 4096)"

definition kernel_inv :: "u64 set \<Rightarrow> nat \<Rightarrow> galloc \<Rightarrow> bool" where
  "kernel_inv H n g \<longleftrightarrow> (\<exists>Hf F. galloc_inv Hf F g \<and> H \<subseteq> frame_addr ` Hf \<and> n = card F)"

lemma unat_frame_addr: "f < 2 ^ 32 \<Longrightarrow> unat (frame_addr f) = f * 4096"
  unfolding frame_addr_def by (rule of_nat_inverse[OF refl]) simp

lemma frame_addr_inj: "f < 2 ^ 32 \<Longrightarrow> g < 2 ^ 32 \<Longrightarrow> frame_addr f = frame_addr g \<longleftrightarrow> f = g"
  by (metis mult_cancel2 unat_frame_addr zero_neq_numeral)

interpretation kernel: frame_source kernel_alloc kernel_inv
proof
  fix H n g f s'
  assume inv: "kernel_inv H n g" and a: "kernel_alloc g = Inr (f, s')"
  obtain Hf F where i: "galloc_inv Hf F g" "H \<subseteq> frame_addr ` Hf" "n = card F"
    using inv by (auto simp: kernel_inv_def)
  have fin: "finite F" using i(1) by (auto simp: galloc_inv_def)
  obtain b where b: "alloc_frame g = Inr (b, s')" "f = PhysAddr_new (of_nat b)"
    using a by (auto simp: kernel_alloc_def and_then_Inr_iff)
  have r: "galloc_inv (insert (b div 4096) Hf) (F - {b div 4096}) s'" "b div 4096 \<in> F" "b mod 4096 = 0"
    using alloc_order_inv[OF i(1), of 0] b(1) by (auto simp: alloc_frame_eq block_0)
  have lt: "\<forall>x \<in> insert (b div 4096) Hf. x < 2 ^ 32" using r(1) by (auto simp: galloc_inv_def)
  have bb: "b = b div 4096 * 4096" using r(3) by (simp add: minus_mod_eq_div_mult [symmetric])
  then have fa: "of_nat b = frame_addr (b div 4096)" by (simp add: frame_addr_def)
  have "phys_ok (frame_addr (b div 4096))"
    using lt by (simp add: phys_ok_unat unat_frame_addr)
  then have ok: "f = frame_addr (b div 4096)" "phys_ok f" using b(2) fa by (simp_all add: PhysAddr_new_id)
  have "b div 4096 \<notin> Hf" using r(2) kalloc.disjoint[OF i(1)] by blast
  then have "f \<notin> frame_addr ` Hf" using lt unfolding ok(1) by (auto simp: frame_addr_inj)
  moreover have "kernel_inv (insert f H) (n - 1) s'"
    using r i(2,3) ok fin unfolding kernel_inv_def
    by (intro exI[of _ "insert (b div 4096) Hf"] exI[of _ "F - {b div 4096}"]) auto
  moreover have "0 < n" using r(2) i(3) fin by (auto simp: card_gt_0_iff)
  ultimately show "phys_ok f \<and> f \<notin> H \<and> 0 < n \<and> kernel_inv (insert f H) (n - 1) s'"
    using i(2) ok by auto
next
  fix H n g e
  assume inv: "kernel_inv H n g" and a: "kernel_alloc g = Inl e"
  obtain Hf F where i: "galloc_inv Hf F g" "n = card F" using inv by (auto simp: kernel_inv_def)
  from a alloc_order_inv[OF i(1), of 0] i(2) show "n = 0 \<and> e = OOM"
    by (auto simp: kernel_alloc_def and_then_Inl_iff alloc_frame_eq)
qed

section \<open>Sequences of mapping requests\<close>

datatype map_req = Page4K u64 u64 u64 | Huge2M u64 u64 u64

fun do_req :: "'s frame_alloc \<Rightarrow> u64 \<Rightarrow> map_req \<Rightarrow> pt_mem \<times> 's \<Rightarrow> panic + (pt_mem \<times> 's)" where
  "do_req al root (Page4K v pa flags) st = map_page al root v pa flags st"
| "do_req al root (Huge2M v pa flags) st = map_huge_2m al root v pa flags st"

definition build :: "'s frame_alloc \<Rightarrow> u64 \<Rightarrow> map_req list \<Rightarrow> pt_mem \<times> 's \<Rightarrow> panic + (pt_mem \<times> 's)" where
  "build al root rs st = foldl (\<lambda>acc r. and_then acc (do_req al root r)) (Inr st) rs"

text \<open>What a list of requests should map: the last request that covers an address decides.\<close>

fun req_level :: "map_req \<Rightarrow> nat" where
  "req_level (Page4K _ _ _) = 4"
| "req_level (Huge2M _ _ _) = 3"

fun req_virt :: "map_req \<Rightarrow> u64" where
  "req_virt (Page4K v _ _) = v"
| "req_virt (Huge2M v _ _) = v"

fun req_phys :: "map_req \<Rightarrow> u64" where
  "req_phys (Page4K _ pa _) = pa"
| "req_phys (Huge2M _ pa _) = pa"

fun req_flags :: "map_req \<Rightarrow> u64" where
  "req_flags (Page4K _ _ f) = f"
| "req_flags (Huge2M _ _ f) = f"

fun req_entry :: "map_req \<Rightarrow> u64" where
  "req_entry (Page4K v pa flags) = new_page pa flags"
| "req_entry (Huge2M v pa flags) = new_page pa (with_huge_page flags)"

definition covers :: "map_req \<Rightarrow> u64 \<Rightarrow> bool" where
  "covers r w \<longleftrightarrow> take (req_level r) (path w) = take (req_level r) (path (req_virt r))"

definition req_target :: "map_req \<Rightarrow> u64 \<Rightarrow> u64" where
  "req_target r w = phys_add (req_phys r) (take_bit (12 + 9 * (4 - req_level r)) w)"

definition lookup_reqs :: "map_req list \<Rightarrow> u64 \<Rightarrow> u64 option" where
  "lookup_reqs rs w = map_option (\<lambda>r. req_target r w) (find (\<lambda>r. covers r w) (rev rs))"

definition req_ok :: "nat set \<Rightarrow> map_req \<Rightarrow> bool" where
  "req_ok D r \<longleftrightarrow> pml4_index (req_virt r) \<in> D \<and> phys_ok (req_phys r) \<and> flags_ok (req_flags r) \<and>
     bit (req_flags r) 0 \<and> (req_level r = 3 \<longrightarrow> req_virt r AND 0x1FFFFF = 0 \<and> req_phys r AND 0x1FFFFF = 0)"

text \<open>No small page is requested inside a region that an earlier request mapped huge.\<close>

fun admissible :: "map_req list \<Rightarrow> bool" where
  "admissible [] \<longleftrightarrow> True"
| "admissible (r # rs) \<longleftrightarrow>
     (req_level r = 3 \<longrightarrow> (\<forall>r' \<in> set rs. req_level r' = 4 \<longrightarrow> \<not> covers r (req_virt r'))) \<and> admissible rs"

lemma admissible_snoc:
  "admissible (rs @ [r']) \<longleftrightarrow> admissible rs \<and>
     (req_level r' = 4 \<longrightarrow> (\<forall>r \<in> set rs. req_level r = 3 \<longrightarrow> \<not> covers r (req_virt r')))"
  by (induction rs) auto

definition leaf_of :: "map_req list \<Rightarrow> nat list \<Rightarrow> (u64 \<times> nat) option" where
  "leaf_of rs q = map_option (\<lambda>r. (req_entry r, 12 + 9 * (4 - req_level r)))
     (find (\<lambda>r. take (req_level r) q = take (req_level r) (path (req_virt r))) (rev rs))"

lemma leaf_of_snoc: "leaf_of (rs @ [r]) q = (if take (req_level r) q = take (req_level r) (path (req_virt r))
    then Some (req_entry r, 12 + 9 * (4 - req_level r)) else leaf_of rs q)"
  by (simp add: leaf_of_def)

lemma req_level_cases: "req_level r = 3 \<or> req_level r = 4"
  by (cases r) auto

lemma find_Some_memD: "find P xs = Some x \<Longrightarrow> x \<in> set xs \<and> P x"
  by (auto simp: find_Some_iff)

lemma leaf_of_below:
  assumes "\<And>r. r \<in> set rs \<Longrightarrow> req_level r = 3 \<Longrightarrow> \<not> covers r v"
  shows "leaf_below 21 (leaf_of rs (path v))"
proof (cases "find (\<lambda>r. covers r v) (rev rs)")
  case (Some r)
  then have "r \<in> set rs" "covers r v" by (auto dest: find_Some_memD)
  with assms req_level_cases[of r] have "req_level r = 4" by blast
  with Some show ?thesis by (simp add: leaf_of_def leaf_below_def covers_def)
qed (simp add: leaf_of_def leaf_below_def covers_def)

lemma leaf_of_below_30: "leaf_below 30 (leaf_of rs q)"
proof -
  have "12 + 9 * (4 - req_level r) < 30" for r using req_level_cases[of r] by auto
  then show ?thesis by (simp add: leaf_of_def leaf_below_def split: option.split)
qed

context frame_source
begin

lemma do_req_spec:
  assumes ok: "tables_ok D root own H n st" and r: "req_ok D r"
    and small: "leaf_below (if req_level r = 4 then 21 else 30) (resolve (fst st) root (path (req_virt r)))"
  shows "do_req al root r st = Inl OOM \<and> n < 3 \<or>
    (\<exists>st'. do_req al root r st = Inr st' \<and> maps D root own H 3 n (fst st) (path (req_virt r)) (req_level r) (req_entry r) st')"
proof -
  obtain mem s where st: "st = (mem, s)" by (cases st)
  have q: "proper D (path (req_virt r))" using r by (simp add: req_ok_def path_proper)
  have mono: "maps D root own H 2 n mem q m e st' \<Longrightarrow> maps D root own H 3 n mem q m e st'" for q m e st'
    unfolding maps_def by fastforce
  show ?thesis
  proof (cases r)
    case (Page4K v pa flags)
    then have "is_present (new_page pa flags)" using r by (simp add: req_ok_def entry_bits)
    with map_page_spec[OF ok[unfolded st]] q small Page4K st show ?thesis by simp
  next
    case (Huge2M v pa flags)
    then have e: "is_present (new_page pa flags)" "v AND 0x1FFFFF = 0" "pa AND 0x1FFFFF = 0"
      using r by (simp_all add: req_ok_def entry_bits)
    have "proper D (path v)" "leaf_below 30 (resolve mem root (path v))" using q small Huge2M st by simp_all
    from map_huge_2m_spec[OF ok[unfolded st] this e] mono Huge2M st show ?thesis by fastforce
  qed
qed

lemma build_spec:
  assumes ok: "tables_ok D root own H n st" and none: "\<And>q. proper D q \<Longrightarrow> resolve (fst st) root q = None"
    and rs: "\<forall>r \<in> set rs. req_ok D r" "admissible rs"
  shows "build al root rs st = Inl OOM \<and> n < 3 * length rs \<or>
    (\<exists>st' own' H' n'. build al root rs st = Inr st' \<and> tables_ok D root own' H' n' st' \<and> n \<le> n' + 3 * length rs \<and>
       (\<forall>q. proper D q \<longrightarrow> resolve (fst st') root q = leaf_of rs q))"
  using rs
proof (induction rs rule: rev_induct)
  case Nil
  show ?case using ok none by (auto simp: build_def leaf_of_def)
next
  case (snoc r rs)
  have b: "build al root (rs @ [r]) st = and_then (build al root rs st) (do_req al root r)"
    by (simp add: build_def)
  have r: "req_ok D r" using snoc.prems by simp
  then have q: "proper D (path (req_virt r))" by (simp add: req_ok_def path_proper)
  from snoc have "build al root rs st = Inl OOM \<and> n < 3 * length rs \<or>
    (\<exists>st' own' H' n'. build al root rs st = Inr st' \<and> tables_ok D root own' H' n' st' \<and> n \<le> n' + 3 * length rs \<and>
       (\<forall>q. proper D q \<longrightarrow> resolve (fst st') root q = leaf_of rs q))"
    by (simp add: admissible_snoc)
  then show ?case
  proof (elim disjE exE conjE)
    fix st' own' H' n'
    assume i: "build al root rs st = Inr st'" "tables_ok D root own' H' n' st'" "n \<le> n' + 3 * length rs"
      "\<forall>q. proper D q \<longrightarrow> resolve (fst st') root q = leaf_of rs q"
    have "leaf_below (if req_level r = 4 then 21 else 30) (resolve (fst st') root (path (req_virt r)))"
      using i(4) q leaf_of_below[of rs "req_virt r"] leaf_of_below_30 snoc.prems(2)
      by (auto simp: admissible_snoc)
    from do_req_spec[OF i(2) r this] show ?thesis
    proof (elim disjE exE conjE)
      fix st2
      assume d: "do_req al root r st' = Inr st2"
        "maps D root own' H' 3 n' (fst st') (path (req_virt r)) (req_level r) (req_entry r) st2"
      then obtain own2 H2 n2 where m: "tables_ok D root own2 H2 n2 st2" "n' \<le> n2 + 3"
          "\<And>q. proper D q \<Longrightarrow> resolve (fst st2) root q = leaf_of (rs @ [r]) q"
        using i(4) unfolding maps_def leaf_of_snoc by auto
      have "n \<le> n2 + 3 * length (rs @ [r])" using m(2) i(3) by simp
      with m show ?thesis unfolding b i(1) and_then_simps d(1) by blast
    qed (use b i in auto)
  qed (simp add: b)
qed

end

lemma flags_ok_huge: "flags_ok f \<Longrightarrow> flags_ok (with_huge_page f)"
  unfolding flags_ok_bits with_huge_page_def HUGE_PAGE_def bit_or_iff bit_push_bit_iff bit_1_iff by auto

lemma lookup_leaf_of:
  assumes "\<forall>r \<in> set rs. req_ok D r"
  shows "map_option (leaf_target w) (leaf_of rs (path w)) = lookup_reqs rs w"
proof (cases "find (\<lambda>r. covers r w) (rev rs)")
  case (Some r)
  then have "req_ok D r" using assms by (auto dest: find_Some_memD)
  then have "entry_frame (req_entry r) = req_phys r"
    by (cases r) (simp_all add: req_ok_def entry_frame_new_page flags_ok_huge)
  with Some show ?thesis
    by (simp add: leaf_of_def lookup_reqs_def leaf_target_def req_target_def covers_def)
qed (simp add: leaf_of_def lookup_reqs_def covers_def)

section \<open>Main property\<close>

text \<open>
  C22: the builder installs exactly the requested mappings.  On a fresh top-level
  table over the boot-time frame pool, a list of 4 KiB and 2 MiB mapping requests
  (aligned, with representable frames, and no small page inside a region mapped
  huge before) succeeds when three frames per request are left, and afterwards the
  hardware walk of every address gives the frame and offset of the last request
  that covers it, and no translation where none does: allocating intermediate
  tables never disturbs another mapping.
\<close>

theorem builder_refines_requests:
  assumes "bump_inv H n b" "builder_new bump_alloc (mem, b) = Inr (root, st)"
    "\<forall>r \<in> set rs. req_ok UNIV r" "admissible rs"
  shows "(3 * length rs < n \<longrightarrow> (\<exists>st'. build bump_alloc root rs st = Inr st')) \<and>
    (\<forall>st' w. build bump_alloc root rs st = Inr st' \<longrightarrow> translate (fst st') root w = Inr (lookup_reqs rs w))"
proof -
  obtain own H' where ok: "bump.tables_ok UNIV root own H' (n - 1) st" "\<And>q. proper UNIV q \<Longrightarrow> resolve (fst st) root q = None" "0 < n"
    using bump.builder_new_spec[OF assms(1), of mem UNIV] assms(2) by auto
  have p: "proper UNIV (path w)" for w by (simp add: path_proper)
  from bump.build_spec[OF ok(1,2) assms(3,4)] ok(3) show ?thesis
    by (auto simp: translate_resolve p lookup_leaf_of[OF assms(3)])
qed

definition demo_pool :: BumpAllocator where
  "demo_pool = \<lparr>bump_next = 0, pool_base = 0xFFFFFFFF80200000, va_offset = 0xFFFFFFFF80000000\<rparr>"

definition demo_reqs :: "map_req list" where
  "demo_reqs = [Page4K 0x400000 0x5000 3, Huge2M 0x200000 0x600000 3]"

theorem builder_refines_requests_witness:
  "\<exists>root st st'. builder_new bump_alloc (\<lambda>_ _. 7, demo_pool) = Inr (root, st) \<and> build bump_alloc root demo_reqs st = Inr st' \<and>
     translate (fst st') root 0x400123 = Inr (Some 0x5123) \<and> translate (fst st') root 0x234567 = Inr (Some 0x634567)"
proof -
  have inv: "bump_inv {} 128 demo_pool"
    by (simp add: bump_inv_def demo_pool_def EARLY_FRAMES_def phys_ok_def is_aligned_4k_def)
  have rs: "\<forall>r \<in> set demo_reqs. req_ok UNIV r" "admissible demo_reqs"
    by (simp_all add: demo_reqs_def req_ok_def phys_ok_def is_aligned_4k_def flags_ok_def entry_flags_def covers_def
        path_def pml4_index_def pdpt_index_def pd_index_def pt_index_def)
  obtain root st where b: "builder_new bump_alloc (\<lambda>_ _. 7, demo_pool) = Inr (root, st)"
    by (simp add: builder_new_def bump_alloc_def demo_pool_def EARLY_FRAMES_def)
  note r = builder_refines_requests[OF inv b rs]
  obtain st' where s: "build bump_alloc root demo_reqs st = Inr st'" using r by (auto simp: demo_reqs_def)
  have "lookup_reqs demo_reqs 0x400123 = Some 0x5123" "lookup_reqs demo_reqs 0x234567 = Some 0x634567"
    by (simp_all add: lookup_reqs_def demo_reqs_def covers_def req_target_def phys_add_def PhysAddr_new_def
        path_def pml4_index_def pdpt_index_def pd_index_def pt_index_def take_bit_eq_mod)
  then have "translate (fst st') root 0x400123 = Inr (Some 0x5123)" "translate (fst st') root 0x234567 = Inr (Some 0x634567)"
    using r s by simp_all
  with b s show ?thesis by blast
qed

end
