(* ===== verification/Slot_Table.thy ===== *)
theory Slot_Table
  imports Rumicos_Prelude
begin

text \<open>
  Fixed-capacity tables.  The kernel's sparse tables (copy-on-write counts, process
  identifiers, the page cache) share one shape: an array of buckets, each an array
  of optional entries, with the bucket chosen by a hash of the key.  This theory
  gives their abstract contents as a map and the laws the components rely on.
\<close>

section \<open>One bucket\<close>

type_synonym 'e slots = "'e option list"

definition slot_of :: "('e \<Rightarrow> bool) \<Rightarrow> 'e slots \<Rightarrow> nat option" where
  "slot_of P xs = first_idx (\<lambda>s. case s of None \<Rightarrow> False | Some e \<Rightarrow> P e) xs"

definition free_slot :: "'e slots \<Rightarrow> nat option" where
  "free_slot xs = first_idx (\<lambda>s. s = None) xs"

definition slot_find :: "('e \<Rightarrow> bool) \<Rightarrow> 'e slots \<Rightarrow> 'e option" where
  "slot_find P xs = (case slot_of P xs of None \<Rightarrow> None | Some i \<Rightarrow> xs ! i)"

lemma slot_of_SomeD:
  assumes "slot_of P xs = Some i"
  obtains e where "i < length xs" "xs ! i = Some e" "P e"
proof -
  have "i < length xs \<and> (case xs ! i of None \<Rightarrow> False | Some e \<Rightarrow> P e)"
    using first_idx_SomeD[OF assms[unfolded slot_of_def]] by blast
  then show thesis using that by (cases "xs ! i") auto
qed

lemma slot_of_None_iff: "slot_of P xs = None \<longleftrightarrow> (\<forall>e. Some e \<in> set xs \<longrightarrow> \<not> P e)"
  unfolding slot_of_def first_idx_None_iff by (force split: option.splits)

lemma slot_find_None_iff: "slot_find P xs = None \<longleftrightarrow> (\<forall>e. Some e \<in> set xs \<longrightarrow> \<not> P e)"
  unfolding slot_of_None_iff[symmetric] slot_find_def
  by (auto split: option.splits elim: slot_of_SomeD)

lemma slot_find_SomeD: "slot_find P xs = Some e \<Longrightarrow> P e \<and> Some e \<in> set xs"
  unfolding slot_find_def by (auto split: option.splits elim!: slot_of_SomeD simp: in_set_conv_nth)

lemma free_slot_SomeD: "free_slot xs = Some i \<Longrightarrow> i < length xs \<and> xs ! i = None"
  unfolding free_slot_def using first_idx_SomeD by fast

lemma free_slot_None_iff: "free_slot xs = None \<longleftrightarrow> None \<notin> set xs"
  unfolding free_slot_def first_idx_None_iff by metis

lemma in_set_update_iff:
  assumes "i < length xs"
  shows "y \<in> set (xs[i := x]) \<longleftrightarrow> y = x \<or> (\<exists>j < length xs. j \<noteq> i \<and> xs ! j = y)"
proof
  assume "y \<in> set (xs[i := x])"
  then obtain j where "j < length xs" "xs[i := x] ! j = y" by (auto simp: in_set_conv_nth)
  then show "y = x \<or> (\<exists>j < length xs. j \<noteq> i \<and> xs ! j = y)" by (cases "j = i") auto
next
  assume "y = x \<or> (\<exists>j < length xs. j \<noteq> i \<and> xs ! j = y)"
  then obtain j where "j < length xs" "xs[i := x] ! j = y" using assms by (metis nth_list_update)
  then show "y \<in> set (xs[i := x])" using nth_mem[of j "xs[i := x]"] by simp
qed

text \<open>Entries of one bucket carry different keys.\<close>

definition keys_distinct :: "('e \<Rightarrow> 'k) \<Rightarrow> 'e slots \<Rightarrow> bool" where
  "keys_distinct key xs \<longleftrightarrow> (\<forall>i j e e'. i < length xs \<longrightarrow> j < length xs \<longrightarrow> xs ! i = Some e \<longrightarrow> xs ! j = Some e' \<longrightarrow>
     key e = key e' \<longrightarrow> i = j)"

lemma keys_distinctD:
  "keys_distinct key xs \<Longrightarrow> i < length xs \<Longrightarrow> j < length xs \<Longrightarrow> xs ! i = Some e \<Longrightarrow> xs ! j = Some e' \<Longrightarrow>
   key e = key e' \<Longrightarrow> i = j"
  unfolding keys_distinct_def by blast

lemma keys_distinct_empty [simp]: "keys_distinct key (replicate n None)"
  by (simp add: keys_distinct_def)

lemma slot_find_eq_Some_iff:
  assumes "keys_distinct key xs"
  shows "slot_find (\<lambda>e. key e = k) xs = Some e \<longleftrightarrow> Some e \<in> set xs \<and> key e = k"
proof
  assume m: "Some e \<in> set xs \<and> key e = k"
  then obtain i where i: "i < length xs" "xs ! i = Some e" "key e = k" by (auto simp: in_set_conv_nth)
  have "slot_of (\<lambda>e. key e = k) xs \<noteq> None" unfolding slot_of_None_iff using m by blast
  then obtain j where j: "slot_of (\<lambda>e. key e = k) xs = Some j" by blast
  from j obtain e' where e': "j < length xs" "xs ! j = Some e'" "key e' = k" by (rule slot_of_SomeD)
  have "i = j" by (rule keys_distinctD[OF assms i(1) e'(1) i(2) e'(2)]) (simp add: i(3) e'(3))
  with i(2) j show "slot_find (\<lambda>e. key e = k) xs = Some e" by (simp add: slot_find_def)
qed (auto dest: slot_find_SomeD)

text \<open>Storing an entry at its own slot or at a free slot, and clearing a slot.\<close>

lemma slot_put:
  assumes d: "keys_distinct key xs" and i: "i < length xs" and k: "key e = k"
    and old: "xs ! i = None \<and> slot_find (\<lambda>e. key e = k) xs = None \<or> (\<exists>e0. xs ! i = Some e0 \<and> key e0 = k)"
  shows "keys_distinct key (xs[i := Some e])"
    and "slot_find (\<lambda>e. key e = k') (xs[i := Some e]) = (if k' = k then Some e else slot_find (\<lambda>e. key e = k') xs)"
proof -
  have only: "j = i" if j: "j < length xs" "xs ! j = Some e'" "key e' = k" for j e'
  proof (cases "xs ! i")
    case None
    with old have "slot_find (\<lambda>e. key e = k) xs = None" by auto
    then have "Some e' \<notin> set xs" unfolding slot_find_None_iff using j(3) by blast
    with nth_mem[OF j(1)] j(2) show ?thesis by simp
  next
    case (Some e0)
    with old have "key e0 = k" by auto
    with keys_distinctD[OF d j(1) i j(2) Some] j(3) show ?thesis by simp
  qed
  show d': "keys_distinct key (xs[i := Some e])"
    unfolding keys_distinct_def
  proof (intro allI impI)
    fix a b ea eb
    assume h: "a < length (xs[i := Some e])" "b < length (xs[i := Some e])" "xs[i := Some e] ! a = Some ea"
      "xs[i := Some e] ! b = Some eb" "key ea = key eb"
    show "a = b"
      using h k only[of a ea] only[of b eb] keys_distinctD[OF d, of a b ea eb] i
      by (auto simp: nth_list_update split: if_splits)
  qed
  have mem: "Some e' \<in> set (xs[i := Some e]) \<longleftrightarrow> e' = e \<or> (Some e' \<in> set xs \<and> key e' \<noteq> k)" if "key e' \<noteq> k \<or> e' = e" for e'
  proof (cases "e' = e")
    case True
    with i show ?thesis by (auto simp: set_update_memI)
  next
    case False
    with that have kk: "key e' \<noteq> k" by simp
    have "xs ! i \<noteq> Some e'"
      using old kk by auto
    moreover have "Some e' \<in> set xs \<longleftrightarrow> (\<exists>j < length xs. xs ! j = Some e')" by (auto simp: in_set_conv_nth)
    ultimately show ?thesis using False kk unfolding in_set_update_iff[OF i] by blast
  qed
  show "slot_find (\<lambda>e. key e = k') (xs[i := Some e]) = (if k' = k then Some e else slot_find (\<lambda>e. key e = k') xs)"
  proof (cases "k' = k")
    case True
    then show ?thesis using slot_find_eq_Some_iff[OF d', of k e] mem[of e] k by simp
  next
    case False
    have "slot_find (\<lambda>e. key e = k') (xs[i := Some e]) = Some e' \<longleftrightarrow> slot_find (\<lambda>e. key e = k') xs = Some e'" for e'
      unfolding slot_find_eq_Some_iff[OF d'] slot_find_eq_Some_iff[OF d] using mem[of e'] False k by auto
    then show ?thesis using False by (metis not_Some_eq)
  qed
qed

lemma slot_clear:
  assumes d: "keys_distinct key xs" and i: "i < length xs" "xs ! i = Some e0" "key e0 = k"
  shows "keys_distinct key (xs[i := None])"
    and "slot_find (\<lambda>e. key e = k') (xs[i := None]) = (if k' = k then None else slot_find (\<lambda>e. key e = k') xs)"
proof -
  show d': "keys_distinct key (xs[i := None])"
    unfolding keys_distinct_def
  proof (intro allI impI)
    fix a b ea eb
    assume h: "a < length (xs[i := None])" "b < length (xs[i := None])" "xs[i := None] ! a = Some ea"
      "xs[i := None] ! b = Some eb" "key ea = key eb"
    then show "a = b" using keys_distinctD[OF d, of a b ea eb] i(1) by (auto simp: nth_list_update split: if_splits)
  qed
  have mem: "Some e' \<in> set (xs[i := None]) \<longleftrightarrow> Some e' \<in> set xs \<and> key e' \<noteq> k" for e'
  proof
    assume "Some e' \<in> set (xs[i := None])"
    then obtain j where j: "j < length xs" "xs[i := None] ! j = Some e'" by (auto simp: in_set_conv_nth)
    then have ne: "j \<noteq> i" "xs ! j = Some e'" using i(1) by (auto simp: nth_list_update split: if_splits)
    then have "key e' \<noteq> k" using keys_distinctD[OF d j(1) i(1) ne(2) i(2)] i(3) by auto
    with nth_mem[OF j(1)] ne(2) show "Some e' \<in> set xs \<and> key e' \<noteq> k" by simp
  next
    assume "Some e' \<in> set xs \<and> key e' \<noteq> k"
    then obtain j where j: "j < length xs" "xs ! j = Some e'" "key e' \<noteq> k" by (auto simp: in_set_conv_nth)
    then have "j \<noteq> i" using i by auto
    with j have "xs[i := None] ! j = Some e'" by simp
    with nth_mem[of j "xs[i := None]"] j(1) show "Some e' \<in> set (xs[i := None])" by simp
  qed
  have "slot_find (\<lambda>e. key e = k') (xs[i := None]) = Some e' \<longleftrightarrow> k' \<noteq> k \<and> slot_find (\<lambda>e. key e = k') xs = Some e'" for e'
    unfolding slot_find_eq_Some_iff[OF d'] slot_find_eq_Some_iff[OF d] using mem[of e'] by auto
  then show "slot_find (\<lambda>e. key e = k') (xs[i := None]) = (if k' = k then None else slot_find (\<lambda>e. key e = k') xs)"
    by (metis not_Some_eq)
qed

section \<open>Bucketed tables\<close>

text \<open>The hashes take the top bits of a product.\<close>

lemma top_bits_less:
  fixes w :: "'a :: len word"
  assumes "k \<le> LENGTH('a)"
  shows "unat (drop_bit k w) < 2 ^ (LENGTH('a) - k)"
proof -
  have "unat (drop_bit k w) = unat w div 2 ^ k"
    by (simp only: unat_drop_bit_eq drop_bit_eq_div[of k "unat w"])
  moreover have "unat w < 2 ^ (LENGTH('a) - k) * 2 ^ k"
    using unsigned_less[of w] assms by (simp add: power_add[symmetric])
  ultimately show ?thesis by (simp add: less_mult_imp_div_less)
qed

text \<open>What the components provide: a hash that stays within the bucket array.\<close>

locale bucketed =
  fixes hash :: "'k \<Rightarrow> nat" and key :: "'e \<Rightarrow> 'k" and buckets cap :: nat
  assumes hash_less: "hash k < buckets"
begin

definition tinv :: "'e slots list \<Rightarrow> bool" where
  "tinv T \<longleftrightarrow> length T = buckets \<and> (\<forall>b < buckets. length (T ! b) = cap \<and> keys_distinct key (T ! b) \<and>
     (\<forall>e. Some e \<in> set (T ! b) \<longrightarrow> hash (key e) = b))"

definition tmap :: "'e slots list \<Rightarrow> 'k \<rightharpoonup> 'e" where
  "tmap T k = slot_find (\<lambda>e. key e = k) (T ! hash k)"

lemma tinv_bucket:
  assumes "tinv T"
  shows "length (T ! hash k) = cap" "keys_distinct key (T ! hash k)" "hash k < length T"
  using assms hash_less[of k] by (auto simp: tinv_def)

lemma tinv_empty: "tinv (replicate buckets (replicate cap None))"
  by (simp add: tinv_def)

lemma tmap_empty: "tmap (replicate buckets (replicate cap None)) k = None"
  by (simp add: tmap_def hash_less slot_find_None_iff)

lemma tmap_key: "tmap T k = Some e \<Longrightarrow> key e = k"
  unfolding tmap_def by (auto dest: slot_find_SomeD)

text \<open>Replacing the bucket of a key by one that differs at that key only.\<close>

lemma bucket_update:
  assumes T: "tinv T" and len: "length xs = cap" and d: "keys_distinct key xs"
    and h: "\<And>e. Some e \<in> set xs \<Longrightarrow> hash (key e) = hash k"
    and f: "\<And>k'. slot_find (\<lambda>e. key e = k') xs = (if k' = k then r else slot_find (\<lambda>e. key e = k') (T ! hash k))"
  shows "tinv (T[hash k := xs])" "tmap (T[hash k := xs]) = (tmap T)(k := r)"
proof -
  have l: "hash k < length T" using tinv_bucket[OF T] by blast
  show "tinv (T[hash k := xs])"
    using T len d h l unfolding tinv_def by (auto simp: nth_list_update)
  show "tmap (T[hash k := xs]) = (tmap T)(k := r)"
  proof
    fix k'
    show "tmap (T[hash k := xs]) k' = ((tmap T)(k := r)) k'"
      using f[of k'] l by (cases "hash k' = hash k") (auto simp: tmap_def)
  qed
qed

lemma tput:
  assumes T: "tinv T" and i: "i < cap" and k: "key e = k"
    and old: "T ! hash k ! i = None \<and> tmap T k = None \<or> (\<exists>e0. T ! hash k ! i = Some e0 \<and> key e0 = k)"
  shows "tinv (T[hash k := (T ! hash k)[i := Some e]])" "tmap (T[hash k := (T ! hash k)[i := Some e]]) = (tmap T)(k \<mapsto> e)"
proof -
  note b = tinv_bucket[OF T, of k]
  have i': "i < length (T ! hash k)" using i b(1) by simp
  note s = slot_put[OF b(2) i' k old[unfolded tmap_def]]
  have h: "hash (key e') = hash k" if "Some e' \<in> set ((T ! hash k)[i := Some e])" for e'
    using that T b(3) k unfolding in_set_update_iff[OF i'] tinv_def by (metis nth_mem option.inject)
  note u = bucket_update[OF T _ s(1) h s(2)]
  show "tinv (T[hash k := (T ! hash k)[i := Some e]])" by (rule u(1)) (simp add: b(1))
  show "tmap (T[hash k := (T ! hash k)[i := Some e]]) = (tmap T)(k \<mapsto> e)" by (rule u(2)) (simp add: b(1))
qed

lemma tclear:
  assumes T: "tinv T" and i: "i < cap" "T ! hash k ! i = Some e0" "key e0 = k"
  shows "tinv (T[hash k := (T ! hash k)[i := None]])" "tmap (T[hash k := (T ! hash k)[i := None]]) = (tmap T)(k := None)"
proof -
  note b = tinv_bucket[OF T, of k]
  have i': "i < length (T ! hash k)" using i b(1) by simp
  note s = slot_clear[OF b(2) i' i(2,3)]
  have h: "hash (key e') = hash k" if "Some e' \<in> set ((T ! hash k)[i := None])" for e'
    using that T b(3) unfolding in_set_update_iff[OF i'] tinv_def by (metis nth_mem option.distinct(1))
  note u = bucket_update[OF T _ s(1) h s(2)]
  show "tinv (T[hash k := (T ! hash k)[i := None]])" by (rule u(1)) (simp add: b(1))
  show "tmap (T[hash k := (T ! hash k)[i := None]]) = (tmap T)(k := None)" by (rule u(2)) (simp add: b(1))
qed

text \<open>Searching the bucket of a key.\<close>

lemma slot_of_key:
  assumes T: "tinv T"
  shows "slot_of (\<lambda>e. key e = k) (T ! hash k) = None \<longleftrightarrow> tmap T k = None"
    and "slot_of (\<lambda>e. key e = k) (T ! hash k) = Some i \<Longrightarrow> i < cap \<and> (\<exists>e. T ! hash k ! i = Some e \<and> key e = k \<and> tmap T k = Some e)"
proof -
  show "slot_of (\<lambda>e. key e = k) (T ! hash k) = None \<longleftrightarrow> tmap T k = None"
    by (simp add: slot_of_None_iff tmap_def slot_find_None_iff)
  assume a: "slot_of (\<lambda>e. key e = k) (T ! hash k) = Some i"
  then show "i < cap \<and> (\<exists>e. T ! hash k ! i = Some e \<and> key e = k \<and> tmap T k = Some e)"
    by (rule slot_of_SomeD) (use a tinv_bucket[OF T, of k] in \<open>auto simp: tmap_def slot_find_def\<close>)
qed

lemma free_slot_key:
  assumes "tinv T" "free_slot (T ! hash k) = Some i"
  shows "i < cap \<and> T ! hash k ! i = None"
  using free_slot_SomeD[OF assms(2)] tinv_bucket[OF assms(1), of k] by simp

text \<open>A bucket has room for a new key while at most \<open>cap\<close> keys are in play.\<close>

lemma room:
  assumes T: "tinv T" and S: "finite S" "dom (tmap T) \<subseteq> S" "k \<in> S" "card {k' \<in> S. hash k' = hash k} \<le> cap"
    and new: "tmap T k = None"
  shows "\<exists>i. free_slot (T ! hash k) = Some i"
proof (rule ccontr)
  assume "\<not> ?thesis"
  then have full: "None \<notin> set (T ! hash k)" using free_slot_None_iff by fastforce
  note b = tinv_bucket[OF T, of k]
  let ?f = "\<lambda>i. key (the (T ! hash k ! i))"
  have e: "\<exists>e. T ! hash k ! i = Some e \<and> tmap T (key e) = Some e \<and> hash (key e) = hash k" if "i < cap" for i
  proof -
    have m: "T ! hash k ! i \<in> set (T ! hash k)" using that b(1) by simp
    then obtain e where e: "T ! hash k ! i = Some e" using full by (metis not_Some_eq)
    with m T b(3) have h: "hash (key e) = hash k" by (auto simp: tinv_def)
    have "tmap T (key e) = Some e"
      unfolding tmap_def h slot_find_eq_Some_iff[OF b(2)] using m e by simp
    with e h show ?thesis by blast
  qed
  have inj: "inj_on ?f {..<cap}"
    using e keys_distinctD[OF b(2)] b(1) by (intro inj_onI) (metis lessThan_iff option.sel)
  have sub: "?f ` {..<cap} \<subseteq> {k' \<in> S. hash k' = hash k} - {k}" using e S(2) new by fastforce
  have "cap = card (?f ` {..<cap})" using card_image[OF inj] by simp
  also have "\<dots> \<le> card ({k' \<in> S. hash k' = hash k} - {k})" using S(1) sub by (intro card_mono) auto
  also have "\<dots> < card {k' \<in> S. hash k' = hash k}" using S(1,3) by (intro card_Diff1_less) auto
  finally show False using S(4) by simp
qed

lemma full_bucket:
  assumes T: "tinv T" and n: "cap \<le> card {k'. tmap T k' \<noteq> None \<and> hash k' = hash k}"
  shows "free_slot (T ! hash k) = None"
proof (rule ccontr)
  assume "free_slot (T ! hash k) \<noteq> None"
  then obtain i where i: "i < cap" "T ! hash k ! i = None" using free_slot_key[OF T] by blast
  let ?K = "{k'. tmap T k' \<noteq> None \<and> hash k' = hash k}"
  let ?f = "\<lambda>j. key (the (T ! hash k ! j))"
  have "?K \<subseteq> ?f ` ({..<cap} - {i})"
  proof
    fix k' assume "k' \<in> ?K"
    then obtain e where e: "tmap T k' = Some e" "hash k' = hash k" by auto
    then have "Some e \<in> set (T ! hash k)" "key e = k'"
      using slot_find_SomeD[of "\<lambda>e. key e = k'" "T ! hash k" e] by (auto simp: tmap_def)
    then obtain j where "j < cap" "T ! hash k ! j = Some e"
      using tinv_bucket(1)[OF T, of k] by (auto simp: in_set_conv_nth)
    with i(2) \<open>key e = k'\<close> show "k' \<in> ?f ` ({..<cap} - {i})" by force
  qed
  then have "card ?K \<le> card (?f ` ({..<cap} - {i}))" by (intro card_mono) auto
  also have "\<dots> \<le> card ({..<cap} - {i})" by (rule card_image_le) simp
  also have "\<dots> < cap" using i(1) by simp
  finally show False using n by simp
qed

end

end
