(* ===== verification/Cow.thy ===== *)
theory Cow
  imports Slot_Table
begin

text \<open>
  The copy-on-write share counts (\<open>proc/cow.rs\<close>): a table of 256 buckets with 32
  entries each, from a physical frame to the number of its claimants.  A frame
  without an entry has one claimant.
\<close>

definition COW_BUCKETS :: nat where
  "COW_BUCKETS = 256"

definition COW_BUCKET_CAPACITY :: nat where
  "COW_BUCKET_CAPACITY = 32"

record CowEntry =
  cow_frame :: u64
  refcount :: u32

type_synonym cow_table = "CowEntry slots list"

definition cow_table_new :: cow_table where
  "cow_table_new = replicate COW_BUCKETS (replicate COW_BUCKET_CAPACITY None)"

definition bucket_index :: "u64 \<Rightarrow> nat" where
  "bucket_index frame = unat (drop_bit 56 (drop_bit 12 frame * 0x9e3779b97f4a7c15))"

definition cow_share :: "u64 \<Rightarrow> cow_table \<Rightarrow> cow_table" where
  "cow_share frame T =
     (let b = bucket_index frame; bucket = T ! b in
      case slot_of (\<lambda>e. cow_frame e = frame) bucket of
        Some i \<Rightarrow> T[b := bucket[i := map_option (\<lambda>e. e\<lparr>refcount := if refcount e = - 1 then - 1 else refcount e + 1\<rparr>) (bucket ! i)]]
      | None \<Rightarrow>
          (case free_slot bucket of
             Some i \<Rightarrow> T[b := bucket[i := Some \<lparr>cow_frame = frame, refcount = 2\<rparr>]]
           | None \<Rightarrow> T))"

definition cow_refcount :: "u64 \<Rightarrow> cow_table \<Rightarrow> u32" where
  "cow_refcount frame T =
     (case slot_find (\<lambda>e. cow_frame e = frame) (T ! bucket_index frame) of
        Some e \<Rightarrow> refcount e
      | None \<Rightarrow> 1)"

text \<open>The decrement that \<open>cow_unshare\<close>, \<open>cow_release\<close> and \<open>cow_resolve\<close> share.\<close>

definition cow_unshare :: "u64 \<Rightarrow> cow_table \<Rightarrow> cow_table" where
  "cow_unshare frame T =
     (let b = bucket_index frame; bucket = T ! b in
      case slot_of (\<lambda>e. cow_frame e = frame) bucket of
        Some i \<Rightarrow> T[b := bucket[i := (case bucket ! i of
                      Some e \<Rightarrow> if 2 < refcount e then Some (e\<lparr>refcount := refcount e - 1\<rparr>) else None
                    | None \<Rightarrow> None)]]
      | None \<Rightarrow> T)"

definition cow_release :: "u64 \<Rightarrow> cow_table \<Rightarrow> bool \<times> cow_table" where
  "cow_release frame T =
     (slot_of (\<lambda>e. cow_frame e = frame) (T ! bucket_index frame) = None, cow_unshare frame T)"

text \<open>\<open>cow_resolve\<close> runs its action under the bucket lock with the same answer.\<close>

definition cow_resolve :: "u64 \<Rightarrow> (bool \<Rightarrow> 'r) \<Rightarrow> cow_table \<Rightarrow> 'r \<times> cow_table" where
  "cow_resolve frame action T = (let (sole, T') = cow_release frame T in (action sole, T'))"

interpretation cow: bucketed bucket_index cow_frame COW_BUCKETS COW_BUCKET_CAPACITY
proof
  show "bucket_index f < COW_BUCKETS" for f
    using top_bits_less[of 56 "drop_bit 12 f * 0x9e3779b97f4a7c15 :: u64"] by (simp add: bucket_index_def COW_BUCKETS_def)
qed

section \<open>Counting claims\<close>

text \<open>The number of claims on each frame; frames without an entry have at most one.\<close>

fun count_ok :: "CowEntry option \<Rightarrow> nat \<Rightarrow> bool" where
  "count_ok None n \<longleftrightarrow> n \<le> 1"
| "count_ok (Some e) n \<longleftrightarrow> n = unat (refcount e) \<and> 2 \<le> n"

definition cow_rep :: "cow_table \<Rightarrow> (u64 \<Rightarrow> nat) \<Rightarrow> bool" where
  "cow_rep T c \<longleftrightarrow> cow.tinv T \<and> (\<forall>f. count_ok (cow.tmap T f) (c f))"

lemma cow_rep_new: "cow_rep cow_table_new (\<lambda>_. 1)"
  by (simp add: cow_rep_def cow_table_new_def cow.tinv_empty cow.tmap_empty)

lemma cow_rep_dom: "cow_rep T c \<Longrightarrow> cow.tmap T f \<noteq> None \<longleftrightarrow> 2 \<le> c f"
  unfolding cow_rep_def by (cases "cow.tmap T f") (auto dest!: spec[of _ f])

lemma cow_rep_update:
  assumes "cow_rep T c" "cow.tinv T'" "cow.tmap T' = (cow.tmap T)(f := r)"
    "count_ok r n"
  shows "cow_rep T' (c(f := n))"
  using assms unfolding cow_rep_def by auto

lemma cow_share_rep:
  assumes r: "cow_rep T c" and small: "c f < 2 ^ 32 - 1"
    and room: "c f \<le> 1 \<Longrightarrow> \<exists>i. free_slot (T ! bucket_index f) = Some i"
  shows "cow_rep (cow_share f T) (c(f := max 1 (c f) + 1))"
proof -
  have T: "cow.tinv T" using r by (simp add: cow_rep_def)
  show ?thesis
  proof (cases "slot_of (\<lambda>e. cow_frame e = f) (T ! bucket_index f)")
    case None
    then have n: "cow.tmap T f = None" using cow.slot_of_key(1)[OF T] by blast
    then have c: "c f \<le> 1" using cow_rep_dom[OF r, of f] by linarith
    obtain i where i: "free_slot (T ! bucket_index f) = Some i" using room[OF c] by blast
    let ?e = "\<lparr>cow_frame = f, refcount = 2\<rparr>"
    note p = cow.tput[OF T, of i ?e f]
    have "cow_rep (T[bucket_index f := (T ! bucket_index f)[i := Some ?e]]) (c(f := max 1 (c f) + 1))"
      using p cow.free_slot_key[OF T i] n c by (intro cow_rep_update[OF r, of _ f "Some ?e"]) auto
    then show ?thesis using None i by (simp add: cow_share_def Let_def)
  next
    case (Some i)
    then obtain e where e: "i < COW_BUCKET_CAPACITY" "T ! bucket_index f ! i = Some e" "cow_frame e = f" "cow.tmap T f = Some e"
      using cow.slot_of_key(2)[OF T Some] by blast
    then have c: "c f = unat (refcount e)" "2 \<le> c f"
      using r unfolding cow_rep_def by (metis count_ok.simps(2))+
    let ?e = "e\<lparr>refcount := refcount e + 1\<rparr>"
    have u: "unat (refcount e + 1) = unat (refcount e) + 1" using c small by (simp add: unat_word_ariths)
    then have ne: "refcount e \<noteq> - 1" by auto
    from u have "cow_rep (T[bucket_index f := (T ! bucket_index f)[i := Some ?e]]) (c(f := max 1 (c f) + 1))"
      using cow.tput[OF T e(1), of ?e f] e c by (intro cow_rep_update[OF r, of _ f "Some ?e"]) auto
    then show ?thesis using Some e ne by (simp add: cow_share_def Let_def)
  qed
qed

lemma cow_release_rep:
  assumes r: "cow_rep T c"
  shows "fst (cow_release f T) \<longleftrightarrow> c f \<le> 1" "cow_rep (snd (cow_release f T)) (c(f := c f - 1))"
proof -
  have T: "cow.tinv T" using r by (simp add: cow_rep_def)
  show "fst (cow_release f T) \<longleftrightarrow> c f \<le> 1"
    using cow.slot_of_key(1)[OF T, of f] cow_rep_dom[OF r, of f] by (auto simp: cow_release_def)
  show "cow_rep (snd (cow_release f T)) (c(f := c f - 1))"
  proof (cases "slot_of (\<lambda>e. cow_frame e = f) (T ! bucket_index f)")
    case None
    then have n: "cow.tmap T f = None" using cow.slot_of_key(1)[OF T] by blast
    then have "cow_rep T (c(f := c f - 1))"
      using r cow_rep_dom[OF r, of f] by (intro cow_rep_update[OF r T, of f None]) auto
    then show ?thesis using None by (simp add: cow_release_def cow_unshare_def)
  next
    case (Some i)
    then obtain e where e: "i < COW_BUCKET_CAPACITY" "T ! bucket_index f ! i = Some e" "cow_frame e = f" "cow.tmap T f = Some e"
      using cow.slot_of_key(2)[OF T Some] by blast
    then have c: "c f = unat (refcount e)" "2 \<le> c f"
      using r unfolding cow_rep_def by (metis count_ok.simps(2))+
    show ?thesis
    proof (cases "2 < refcount e")
      case True
      let ?e = "e\<lparr>refcount := refcount e - 1\<rparr>"
      have "refcount e \<noteq> 0" "2 < unat (refcount e)" using True by (auto simp: word_less_nat_alt)
      then have "unat (refcount e - 1) = unat (refcount e) - 1" "2 < unat (refcount e)"
        by (auto simp: unat_minus_one)
      then have "cow_rep (T[bucket_index f := (T ! bucket_index f)[i := Some ?e]]) (c(f := c f - 1))"
        using cow.tput[OF T e(1), of ?e f] e c by (intro cow_rep_update[OF r, of _ f "Some ?e"]) auto
      then show ?thesis using Some e True by (simp add: cow_release_def cow_unshare_def Let_def)
    next
      case False
      then have "c f = 2" using c by (simp add: word_less_nat_alt)
      then have "cow_rep (T[bucket_index f := (T ! bucket_index f)[i := None]]) (c(f := c f - 1))"
        using cow.tclear[OF T e(1-3)] by (intro cow_rep_update[OF r, of _ f None]) auto
      then show ?thesis using Some e False by (simp add: cow_release_def cow_unshare_def Let_def)
    qed
  qed
qed

section \<open>Schedules of shares and resolutions\<close>

datatype cow_op = Share u64 | Resolve u64

fun op_frame :: "cow_op \<Rightarrow> u64" where
  "op_frame (Share f) = f"
| "op_frame (Resolve f) = f"

fun cow_run :: "cow_op list \<Rightarrow> cow_table \<Rightarrow> bool list" where
  "cow_run [] T = []"
| "cow_run (Share f # ops) T = cow_run ops (cow_share f T)"
| "cow_run (Resolve f # ops) T = (let (sole, T') = cow_resolve f id T in sole # cow_run ops T')"

text \<open>The specification counts claims: only the last claimant of a frame is told it is alone.\<close>

fun claims_run :: "cow_op list \<Rightarrow> (u64 \<Rightarrow> nat) \<Rightarrow> bool list" where
  "claims_run [] c = []"
| "claims_run (Share f # ops) c = claims_run ops (c(f := max 1 (c f) + 1))"
| "claims_run (Resolve f # ops) c = (c f \<le> 1) # claims_run ops (c(f := c f - 1))"

lemma cow_run_refines:
  assumes "cow_rep T c" "\<And>f. c f \<le> k" "1 \<le> k" "k + length ops < 2 ^ 32 - 1" "dom (cow.tmap T) \<subseteq> S"
    "finite S" "op_frame ` set ops \<subseteq> S" "\<And>f. card {f' \<in> S. bucket_index f' = bucket_index f} \<le> COW_BUCKET_CAPACITY"
  shows "cow_run ops T = claims_run ops c"
  using assms
proof (induction ops arbitrary: T c k)
  case (Cons op ops)
  have T: "cow.tinv T" using Cons.prems(1) by (simp add: cow_rep_def)
  show ?case
  proof (cases op)
    case (Share f)
    have f: "f \<in> S" using Cons.prems(7) Share by simp
    have "\<exists>i. free_slot (T ! bucket_index f) = Some i" if "c f \<le> 1"
    proof (rule cow.room[OF T Cons.prems(6,5) f Cons.prems(8)])
      show "cow.tmap T f = None" using cow_rep_dom[OF Cons.prems(1), of f] that by fastforce
    qed
    moreover have "c f < 2 ^ 32 - 1" using Cons.prems(2)[of f] Cons.prems(4) by linarith
    ultimately have r: "cow_rep (cow_share f T) (c(f := max 1 (c f) + 1))"
      using cow_share_rep[OF Cons.prems(1)] by blast
    have "dom (cow.tmap (cow_share f T)) \<subseteq> S"
    proof
      fix g assume "g \<in> dom (cow.tmap (cow_share f T))"
      then have "2 \<le> (c(f := max 1 (c f) + 1)) g" using cow_rep_dom[OF r, of g] by auto
      then show "g \<in> S" using f cow_rep_dom[OF Cons.prems(1), of g] Cons.prems(5) by (cases "g = f") auto
    qed
    moreover have "(c(f := max 1 (c f) + 1)) g \<le> Suc k" for g
      using Cons.prems(2)[of f] Cons.prems(2)[of g] Cons.prems(3) by auto
    ultimately have "cow_run ops (cow_share f T) = claims_run ops (c(f := max 1 (c f) + 1))"
      using Cons.prems by (intro Cons.IH[OF r, of "Suc k"]) auto
    then show ?thesis using Share by simp
  next
    case (Resolve f)
    have r: "cow_rep (snd (cow_release f T)) (c(f := c f - 1))" by (rule cow_release_rep(2)[OF Cons.prems(1)])
    have "dom (cow.tmap (snd (cow_release f T))) \<subseteq> S"
    proof
      fix g assume "g \<in> dom (cow.tmap (snd (cow_release f T)))"
      then have "2 \<le> (c(f := c f - 1)) g" using cow_rep_dom[OF r, of g] by auto
      then have "2 \<le> c g" by (auto split: if_splits)
      then show "g \<in> S" using cow_rep_dom[OF Cons.prems(1), of g] Cons.prems(5) by auto
    qed
    moreover have "(c(f := c f - 1)) g \<le> k" for g
      using Cons.prems(2)[of f] Cons.prems(2)[of g] by auto
    ultimately have "cow_run ops (snd (cow_release f T)) = claims_run ops (c(f := c f - 1))"
      using Cons.prems by (intro Cons.IH[OF r, of k]) auto
    then show ?thesis
      using cow_release_rep(1)[OF Cons.prems(1), of f] Resolve by (simp add: cow_resolve_def case_prod_unfold)
  qed
qed simp

section \<open>Main properties\<close>

text \<open>
  C23: share counts are exact.  In every schedule of shares and resolutions (fewer
  than \<open>2^32 - 2\<close> of them, with at most 32 of the frames in any one bucket) the
  answers of \<open>cow_resolve\<close> are those of claim counting: of the claimants of a frame, every one but
  the last is told that the frame is still shared and must copy or leave it, and the
  last one is told it may reuse or free it.
\<close>

theorem cow_counts_claims:
  assumes "length ops < 2 ^ 32 - 2"
    "\<And>f. card {f' \<in> op_frame ` set ops. bucket_index f' = bucket_index f} \<le> COW_BUCKET_CAPACITY"
  shows "cow_run ops cow_table_new = claims_run ops (\<lambda>_. 1)"
proof (rule cow_run_refines[OF cow_rep_new, of 1])
  have "cow.tmap cow_table_new f = None" for f by (simp add: cow_table_new_def cow.tmap_empty)
  then show "dom (cow.tmap cow_table_new) \<subseteq> op_frame ` set ops" by auto
qed (use assms in auto)

text \<open>A fork leaves two claimants; a second fork of one of them a third.\<close>

theorem cow_counts_claims_witness:
  "cow_run [Share 0x5000, Share 0x9000, Share 0x5000, Resolve 0x5000, Resolve 0x5000, Resolve 0x9000, Resolve 0x5000]
     cow_table_new = [False, False, False, True]"
proof -
  let ?ops = "[Share 0x5000, Share 0x9000, Share 0x5000, Resolve 0x5000, Resolve 0x5000, Resolve 0x9000, Resolve 0x5000]"
  have "card {f' \<in> op_frame ` set ?ops. bucket_index f' = b} \<le> COW_BUCKET_CAPACITY" for b
  proof -
    have "card {f' \<in> op_frame ` set ?ops. bucket_index f' = b} \<le> card {0x5000, 0x9000 :: u64}" by (rule card_mono) auto
    also have "\<dots> = 2" by simp
    finally show ?thesis by (simp add: COW_BUCKET_CAPACITY_def)
  qed
  then have "cow_run ?ops cow_table_new = claims_run ?ops (\<lambda>_. 1)" by (intro cow_counts_claims) simp_all
  then show ?thesis by simp
qed

section \<open>A full bucket\<close>

lemma fold_share_rep:
  assumes "distinct fs" "length fs \<le> COW_BUCKET_CAPACITY"
  shows "cow_rep (fold cow_share fs cow_table_new) (\<lambda>f. if f \<in> set fs then 2 else 1)"
  using assms
proof (induction fs rule: rev_induct)
  case Nil
  show ?case using cow_rep_new by simp
next
  case (snoc f fs)
  let ?T = "fold cow_share fs cow_table_new" and ?c = "\<lambda>f. if f \<in> set fs then 2 else 1 :: nat"
  have r: "cow_rep ?T ?c" using snoc by simp
  then have T: "cow.tinv ?T" by (simp add: cow_rep_def)
  have d: "cow.tmap ?T g \<noteq> None \<longleftrightarrow> g \<in> set fs" for g using cow_rep_dom[OF r, of g] by auto
  have "\<exists>i. free_slot (?T ! bucket_index f) = Some i"
  proof (rule cow.room[OF T, of "set (fs @ [f])"])
    have "card {k' \<in> set (fs @ [f]). bucket_index k' = bucket_index f} \<le> card (set (fs @ [f]))"
      by (rule card_mono) auto
    also have "\<dots> \<le> COW_BUCKET_CAPACITY" using card_length[of "fs @ [f]"] snoc.prems(2) by linarith
    finally show "card {k' \<in> set (fs @ [f]). bucket_index k' = bucket_index f} \<le> COW_BUCKET_CAPACITY" .
    show "cow.tmap ?T f = None" using d[of f] snoc.prems(1) by auto
  qed (use d in auto)
  then have "cow_rep (cow_share f ?T) (?c(f := max 1 (?c f) + 1))" by (intro cow_share_rep[OF r]) auto
  moreover have "?c(f := max 1 (?c f) + 1) = (\<lambda>g. if g \<in> set (fs @ [f]) then 2 else 1)"
    using snoc.prems(1) by (auto simp: fun_eq_iff)
  ultimately show ?case by simp
qed

text \<open>Thirty-three frames that hash to the same bucket.\<close>

definition crowd :: "u64 list" where
  "crowd = map (\<lambda>n. push_bit 12 n)
    [233, 466, 610, 843, 1220, 1453, 1597, 1830, 2207, 2440, 2817, 3050, 3194, 3427, 3804, 4037, 4181, 4414, 4791, 5024, 5401, 5634, 5778, 6011, 6388, 6621, 6998, 7231, 7375, 7608, 7985, 8218, 8362]"

lemma crowd_bucket: "\<forall>f \<in> set crowd. bucket_index f = 0"
  by (simp add: crowd_def bucket_index_def)

lemma crowd_distinct: "distinct crowd" "length crowd = 33"
  by (simp_all add: crowd_def)

text \<open>
  C27: the counts are lost when a bucket is full.  After sharing thirty-three frames
  of one bucket, each of which then has two claimants, the first claimant of the
  last frame is told that it is alone, so it writes the frame in place, or frees
  it, under the other claimant's mapping.
\<close>

theorem cow_full_bucket_drops_share:
  "fst (cow_release (last crowd) (fold cow_share crowd cow_table_new)) \<and>
   hd (claims_run (map Share crowd @ [Resolve (last crowd)]) (\<lambda>_. 1)) = False"
proof
  let ?fs = "butlast crowd" and ?f = "last crowd"
  let ?T = "fold cow_share ?fs cow_table_new"
  have c: "crowd = ?fs @ [?f]" using crowd_distinct(2) by (intro append_butlast_last_id[symmetric]) auto
  have "distinct (?fs @ [?f])" unfolding c[symmetric] by (rule crowd_distinct(1))
  then have d: "distinct ?fs" "?f \<notin> set ?fs" "length ?fs = 32" using crowd_distinct(2) by simp_all
  have r: "cow_rep ?T (\<lambda>g. if g \<in> set ?fs then 2 else 1)"
    using d by (intro fold_share_rep) (simp_all add: COW_BUCKET_CAPACITY_def)
  then have T: "cow.tinv ?T" by (simp add: cow_rep_def)
  have m: "cow.tmap ?T g \<noteq> None \<longleftrightarrow> g \<in> set ?fs" for g using cow_rep_dom[OF r, of g] by auto
  have b: "bucket_index g = bucket_index ?f" if "g \<in> set ?fs" for g
    using crowd_bucket in_set_butlastD[OF that] last_in_set[of crowd] crowd_distinct(2) by fastforce
  have "{g. cow.tmap ?T g \<noteq> None \<and> bucket_index g = bucket_index ?f} = set ?fs" using m b by auto
  then have "free_slot (?T ! bucket_index ?f) = None"
    using d distinct_card[OF d(1)] by (intro cow.full_bucket[OF T]) (simp add: COW_BUCKET_CAPACITY_def)
  moreover have s: "slot_of (\<lambda>e. cow_frame e = ?f) (?T ! bucket_index ?f) = None"
    using cow.slot_of_key(1)[OF T] m[of ?f] d(2) by blast
  ultimately have "cow_share ?f ?T = ?T" by (simp add: cow_share_def Let_def)
  moreover have "fold cow_share crowd cow_table_new = cow_share ?f ?T" by (subst c) simp
  ultimately show "fst (cow_release ?f (fold cow_share crowd cow_table_new))" using s by (simp add: cow_release_def)
  show "hd (claims_run (map Share crowd @ [Resolve ?f]) (\<lambda>_. 1)) = False"
    by (simp add: crowd_def)
qed

end
