(* ===== verification/Fd_Table.thy ===== *)
theory Fd_Table
  imports Slot_Table
begin

text \<open>
  File descriptors (\<open>proc/fd.rs\<close>) and the reference counts of the VNodes behind
  them: allocation of the lowest free descriptor, duplication, inheritance across
  \<open>fork\<close>, closing (\<open>fs/syscall.rs\<close>), the closing of all descriptors at exit
  (\<open>proc/process.rs\<close>) and the descriptor part of \<open>pipe\<close> (\<open>fs/pipe.rs\<close>).
  For pipe ends the reference count is what decides end-of-file, so it has to be
  the number of open descriptors.
\<close>

definition MAX_FDS :: nat where
  "MAX_FDS = 64"

definition EBADF_FD :: int where
  "EBADF_FD = - 9"

definition EMFILE :: int where
  "EMFILE = - 24"

definition O_RDONLY :: u32 where "O_RDONLY = 0"
definition O_WRONLY :: u32 where "O_WRONLY = 1"
definition O_RDWR :: u32 where "O_RDWR = 2"

record FdEntry =
  vnode_ptr :: u64
  fd_offset :: u64
  fd_flags :: u32

type_synonym FdTable = "FdEntry slots"
type_synonym vnode_refs = "u64 \<Rightarrow> u32"

definition can_read :: "FdEntry \<Rightarrow> bool" where
  "can_read e = (let mode = fd_flags e AND 3 in mode = O_RDONLY \<or> mode = O_RDWR)"

definition can_write :: "FdEntry \<Rightarrow> bool" where
  "can_write e = (let mode = fd_flags e AND 3 in mode = O_WRONLY \<or> mode = O_RDWR)"

definition FdTable_new :: FdTable where
  "FdTable_new = replicate MAX_FDS None"

definition fd_alloc :: "u64 \<Rightarrow> u32 \<Rightarrow> FdTable \<Rightarrow> int \<times> FdTable" where
  "fd_alloc vn flags t =
     (case free_slot t of
        Some i \<Rightarrow> (int i, t[i := Some \<lparr>vnode_ptr = vn, fd_offset = 0, fd_flags = flags\<rparr>])
      | None \<Rightarrow> (EMFILE, t))"

definition fd_get :: "FdTable \<Rightarrow> int \<Rightarrow> FdEntry option" where
  "fd_get t fd = (if fd < 0 \<or> int MAX_FDS \<le> fd then None else t ! nat fd)"

definition fd_close :: "int \<Rightarrow> FdTable \<Rightarrow> int \<times> FdTable" where
  "fd_close fd t =
     (if fd < 0 \<or> int MAX_FDS \<le> fd then (EBADF_FD, t)
      else if t ! nat fd = None then (EBADF_FD, t)
      else (0, t[nat fd := None]))"

definition get_vnode_ptr :: "FdTable \<Rightarrow> int \<Rightarrow> u64" where
  "get_vnode_ptr t fd = (case fd_get t fd of Some e \<Rightarrow> vnode_ptr e | None \<Rightarrow> 0)"

definition vnode_inc_ref :: "u64 \<Rightarrow> vnode_refs \<Rightarrow> vnode_refs" where
  "vnode_inc_ref vn refs = refs(vn := refs vn + 1)"

definition vnode_dec_ref :: "u64 \<Rightarrow> vnode_refs \<Rightarrow> vnode_refs" where
  "vnode_dec_ref vn refs = refs(vn := refs vn - 1)"

fun inc_refs :: "FdTable \<Rightarrow> vnode_refs \<Rightarrow> vnode_refs" where
  "inc_refs [] refs = refs"
| "inc_refs (None # t) refs = inc_refs t refs"
| "inc_refs (Some e # t) refs = inc_refs t (if vnode_ptr e \<noteq> 0 then vnode_inc_ref (vnode_ptr e) refs else refs)"

definition clone_for_fork :: "FdTable \<Rightarrow> vnode_refs \<Rightarrow> FdTable \<times> vnode_refs" where
  "clone_for_fork t refs = (t, inc_refs t refs)"

definition fd_dup :: "int \<Rightarrow> FdTable \<times> vnode_refs \<Rightarrow> int \<times> FdTable \<times> vnode_refs" where
  "fd_dup old_fd = (\<lambda>(t, refs).
     case fd_get t old_fd of
       None \<Rightarrow> (EBADF_FD, t, refs)
     | Some entry \<Rightarrow>
         (case free_slot t of
            Some i \<Rightarrow> (int i, t[i := Some entry], vnode_inc_ref (vnode_ptr entry) refs)
          | None \<Rightarrow> (EMFILE, t, refs)))"

definition fd_dup2 :: "int \<Rightarrow> int \<Rightarrow> FdTable \<times> vnode_refs \<Rightarrow> int \<times> FdTable \<times> vnode_refs" where
  "fd_dup2 old_fd new_fd = (\<lambda>(t, refs).
     if old_fd = new_fd then (if fd_get t old_fd \<noteq> None then new_fd else EBADF_FD, t, refs)
     else case fd_get t old_fd of
       None \<Rightarrow> (EBADF_FD, t, refs)
     | Some entry \<Rightarrow>
         if new_fd < 0 \<or> int MAX_FDS \<le> new_fd then (EBADF_FD, t, refs)
         else let refs' = (case t ! nat new_fd of Some old \<Rightarrow> vnode_dec_ref (vnode_ptr old) refs | None \<Rightarrow> refs)
              in (new_fd, t[nat new_fd := Some entry], vnode_inc_ref (vnode_ptr entry) refs'))"

section \<open>Closing\<close>

text \<open>
  \<open>release\<close> is dispatched through the VNode's operations: a pipe end gives up one
  reference, every other VNode does nothing.  Which VNodes are pipe ends is the
  parameter \<open>pp\<close>.
\<close>

definition vnode_release :: "(u64 \<Rightarrow> bool) \<Rightarrow> u64 \<Rightarrow> vnode_refs \<Rightarrow> vnode_refs" where
  "vnode_release pp vn refs = (if pp vn then vnode_dec_ref vn refs else refs)"

definition sys_close :: "(u64 \<Rightarrow> bool) \<Rightarrow> int \<Rightarrow> FdTable \<times> vnode_refs \<Rightarrow> int \<times> FdTable \<times> vnode_refs" where
  "sys_close pp fd = (\<lambda>(t, refs).
     let vn_ptr = get_vnode_ptr t fd; (r, t') = fd_close fd t in
     (r, t', if r = 0 \<and> vn_ptr \<noteq> 0 then vnode_release pp vn_ptr refs else refs))"

fun release_all :: "(u64 \<Rightarrow> bool) \<Rightarrow> FdTable \<Rightarrow> vnode_refs \<Rightarrow> vnode_refs" where
  "release_all pp [] refs = refs"
| "release_all pp (None # t) refs = release_all pp t refs"
| "release_all pp (Some e # t) refs =
     release_all pp t (if vnode_ptr e \<noteq> 0 then vnode_release pp (vnode_ptr e) refs else refs)"

definition exit_fds :: "(u64 \<Rightarrow> bool) \<Rightarrow> FdTable \<times> vnode_refs \<Rightarrow> FdTable \<times> vnode_refs" where
  "exit_fds pp = (\<lambda>(t, refs). (map (\<lambda>_. None) t, release_all pp t refs))"

text \<open>The descriptor part of \<open>sys_pipe\<close>: both ends are created with one reference.\<close>

definition sys_pipe_fds :: "u64 \<Rightarrow> u64 \<Rightarrow> FdTable \<times> vnode_refs \<Rightarrow> (int + int \<times> int) \<times> FdTable \<times> vnode_refs" where
  "sys_pipe_fds read_vn write_vn = (\<lambda>(t, refs).
     let refs' = refs(read_vn := 1, write_vn := 1);
         (r, t1) = fd_alloc read_vn O_RDONLY t in
     if r < 0 then (Inl r, t1, refs')
     else let (w, t2) = fd_alloc write_vn O_WRONLY t1 in
          if w < 0 then (Inl w, snd (fd_close r t2), refs')
          else (Inr (r, w), t2, refs'))"

section \<open>Open descriptors of a VNode\<close>

definition refers :: "u64 \<Rightarrow> FdEntry option \<Rightarrow> bool" where
  "refers vn s = (case s of None \<Rightarrow> False | Some e \<Rightarrow> vnode_ptr e = vn)"

definition open_fds :: "u64 \<Rightarrow> FdTable \<Rightarrow> nat" where
  "open_fds vn t = length (filter (refers vn) t)"

lemma refers_simps [simp]: "\<not> refers vn None" "refers vn (Some e) \<longleftrightarrow> vnode_ptr e = vn"
  by (simp_all add: refers_def)

lemma open_fds_update:
  assumes "i < length t"
  shows "open_fds vn (t[i := s]) + (if refers vn (t ! i) then 1 else 0) = open_fds vn t + (if refers vn s then 1 else 0)"
proof -
  have "t[i := s] = take i t @ s # drop (Suc i) t" "t = take i t @ t ! i # drop (Suc i) t"
    using assms by (simp_all add: upd_conv_take_nth_drop id_take_nth_drop)
  then have "open_fds vn (t[i := s]) = length (filter (refers vn) (take i t @ s # drop (Suc i) t))"
    "open_fds vn t = length (filter (refers vn) (take i t @ t ! i # drop (Suc i) t))"
    by (simp_all only: open_fds_def)
  then show ?thesis by simp
qed

lemma open_fds_put: "i < length t \<Longrightarrow> t ! i = None \<Longrightarrow> open_fds vn (t[i := Some e]) = open_fds vn t + (if vnode_ptr e = vn then 1 else 0)"
  using open_fds_update[of i t vn "Some e"] by simp

lemma open_fds_clear: "i < length t \<Longrightarrow> t ! i = Some e \<Longrightarrow> open_fds vn t = open_fds vn (t[i := None]) + (if vnode_ptr e = vn then 1 else 0)"
  using open_fds_update[of i t vn None] by simp

lemma inc_refs_open: "vn \<noteq> 0 \<Longrightarrow> inc_refs t refs vn = refs vn + of_nat (open_fds vn t)"
  by (induction t refs rule: inc_refs.induct) (auto simp: open_fds_def vnode_inc_ref_def algebra_simps)

lemma release_all_open: "vn \<noteq> 0 \<Longrightarrow> pp vn \<Longrightarrow> release_all pp t refs vn = refs vn - of_nat (open_fds vn t)"
  by (induction pp t refs rule: release_all.induct)
     (auto simp: open_fds_def vnode_release_def vnode_dec_ref_def algebra_simps)

lemma open_fds_none [simp]: "open_fds vn (map (\<lambda>_. None) t) = 0"
  by (simp add: open_fds_def filter_empty_conv)

section \<open>All processes\<close>

record fd_sys =
  tables :: "FdTable list"
  vrefs :: vnode_refs
  ends :: "u64 set"

definition total :: "u64 \<Rightarrow> FdTable list \<Rightarrow> nat" where
  "total vn ts = (\<Sum>t \<leftarrow> ts. open_fds vn t)"

datatype fd_op = OpenFile nat u64 u32 | MakePipe nat u64 u64 | Dup nat int | Dup2 nat int int
  | Close nat int | Fork nat | Exit nat

fun op_pid :: "fd_op \<Rightarrow> nat" where
  "op_pid (OpenFile p _ _) = p" | "op_pid (MakePipe p _ _) = p" | "op_pid (Dup p _) = p" | "op_pid (Dup2 p _ _) = p"
| "op_pid (Close p _) = p" | "op_pid (Fork p) = p" | "op_pid (Exit p) = p"

text \<open>\<open>put_table\<close> stores the table and counts an operation of process \<open>p\<close> returns.\<close>

definition put_table :: "nat \<Rightarrow> FdTable \<times> vnode_refs \<Rightarrow> fd_sys \<Rightarrow> fd_sys" where
  "put_table p r S = S\<lparr>tables := (tables S)[p := fst r], vrefs := snd r\<rparr>"

fun fd_step :: "(u64 \<Rightarrow> bool) \<Rightarrow> fd_op \<Rightarrow> fd_sys \<Rightarrow> fd_sys" where
  "fd_step pp (OpenFile p vn flags) S = put_table p (snd (fd_alloc vn flags (tables S ! p)), vrefs S) S"
| "fd_step pp (MakePipe p r w) S =
     (let (res, t, refs) = sys_pipe_fds r w (tables S ! p, vrefs S)
      in (put_table p (t, refs) S)\<lparr>ends := ends S \<union> (case res of Inl _ \<Rightarrow> {} | Inr _ \<Rightarrow> {r, w})\<rparr>)"
| "fd_step pp (Dup p fd) S = put_table p (snd (fd_dup fd (tables S ! p, vrefs S))) S"
| "fd_step pp (Dup2 p a b) S = put_table p (snd (fd_dup2 a b (tables S ! p, vrefs S))) S"
| "fd_step pp (Close p fd) S = put_table p (snd (sys_close pp fd (tables S ! p, vrefs S))) S"
| "fd_step pp (Fork p) S =
     (let (t, refs) = clone_for_fork (tables S ! p) (vrefs S) in S\<lparr>tables := tables S @ [t], vrefs := refs\<rparr>)"
| "fd_step pp (Exit p) S = put_table p (exit_fds pp (tables S ! p, vrefs S)) S"

text \<open>The VNodes of a new pipe are fresh frames; \<open>open\<close> resolves a path, which never leads to a pipe end.\<close>

fun op_ok :: "(u64 \<Rightarrow> bool) \<Rightarrow> fd_sys \<Rightarrow> fd_op \<Rightarrow> bool" where
  "op_ok pp S (OpenFile p vn flags) \<longleftrightarrow> p < length (tables S) \<and> \<not> pp vn"
| "op_ok pp S (MakePipe p r w) \<longleftrightarrow> p < length (tables S) \<and> pp r \<and> pp w \<and> r \<noteq> w \<and> r \<noteq> 0 \<and> w \<noteq> 0 \<and>
     r \<notin> ends S \<and> w \<notin> ends S \<and> total r (tables S) = 0 \<and> total w (tables S) = 0"
| "op_ok pp S op \<longleftrightarrow> op_pid op < length (tables S)"

inductive fd_reach :: "(u64 \<Rightarrow> bool) \<Rightarrow> fd_sys \<Rightarrow> bool" for pp where
  fd_init: "fd_reach pp \<lparr>tables = [FdTable_new], vrefs = refs, ends = {}\<rparr>"
| fd_next: "fd_reach pp S \<Longrightarrow> op_ok pp S op \<Longrightarrow> fd_reach pp (fd_step pp op S)"

section \<open>Reference counts of pipe ends\<close>

lemma total_update: "p < length ts \<Longrightarrow> total vn (ts[p := t]) + open_fds vn (ts ! p) = total vn ts + open_fds vn t"
proof -
  assume p: "p < length ts"
  then have "total vn (ts[p := t]) = total vn (take p ts @ t # drop (Suc p) ts)"
    "total vn ts = total vn (take p ts @ ts ! p # drop (Suc p) ts)"
    by (simp_all add: upd_conv_take_nth_drop id_take_nth_drop[symmetric])
  then show ?thesis by (simp add: total_def)
qed

text \<open>One operation on a table changes the count of a pipe end exactly as its open descriptors.\<close>

definition balanced :: "u64 \<Rightarrow> FdTable \<times> vnode_refs \<Rightarrow> FdTable \<times> vnode_refs \<Rightarrow> bool" where
  "balanced vn = (\<lambda>(t, refs) (t', refs'). length t' = length t \<and>
     refs' vn + of_nat (open_fds vn t) = refs vn + of_nat (open_fds vn t'))"

lemma fd_get_SomeD: "fd_get t fd = Some e \<Longrightarrow> 0 \<le> fd \<and> nat fd < MAX_FDS \<and> t ! nat fd = Some e"
  by (auto simp: fd_get_def split: if_splits)

lemma balanced_alloc: "\<not> pp vn' \<Longrightarrow> pp vn \<Longrightarrow> balanced vn (t, refs) (snd (fd_alloc vn' flags t), refs)"
  by (auto simp: balanced_def fd_alloc_def open_fds_put dest!: free_slot_SomeD split: option.splits)

lemma balanced_dup: "balanced vn (t, refs) (snd (fd_dup fd (t, refs)))"
  by (auto simp: balanced_def fd_dup_def vnode_inc_ref_def open_fds_put algebra_simps dest!: free_slot_SomeD split: option.splits)

lemma balanced_dup2:
  assumes "length t = MAX_FDS"
  shows "balanced vn (t, refs) (snd (fd_dup2 a b (t, refs)))"
proof -
  have "balanced vn (t, refs) (t[nat b := Some e], vnode_inc_ref (vnode_ptr e)
      (case t ! nat b of Some old \<Rightarrow> vnode_dec_ref (vnode_ptr old) refs | None \<Rightarrow> refs))" if "nat b < MAX_FDS" for e
    using that assms open_fds_update[of "nat b" t vn "Some e"]
    by (cases "t ! nat b") (auto simp: balanced_def vnode_inc_ref_def vnode_dec_ref_def algebra_simps split: if_splits
        dest!: arg_cong[of _ _ "of_nat :: nat \<Rightarrow> u32"])
  moreover have "0 \<le> b \<Longrightarrow> b < int MAX_FDS \<Longrightarrow> nat b < MAX_FDS" by simp
  moreover have "balanced vn (t, refs) (t, refs)" by (simp add: balanced_def)
  ultimately show ?thesis by (auto simp: fd_dup2_def Let_def split: option.split)
qed

lemma balanced_close:
  assumes "pp vn" "vn \<noteq> 0" "length t = MAX_FDS"
  shows "balanced vn (t, refs) (snd (sys_close pp fd (t, refs)))"
proof (cases "fd_get t fd")
  case None
  then have "fd_close fd t = (EBADF_FD, t)" by (auto simp: fd_close_def fd_get_def split: if_splits)
  then show ?thesis by (simp add: sys_close_def balanced_def EBADF_FD_def)
next
  case (Some e)
  note e = fd_get_SomeD[OF Some]
  then have "fd_close fd t = (0, t[nat fd := None])" by (auto simp: fd_close_def)
  moreover have "get_vnode_ptr t fd = vnode_ptr e" using Some by (simp add: get_vnode_ptr_def)
  ultimately show ?thesis
    using open_fds_clear[of "nat fd" t e vn] e assms
    by (auto simp: sys_close_def balanced_def vnode_release_def vnode_dec_ref_def Let_def)
qed

lemma balanced_exit: "pp vn \<Longrightarrow> vn \<noteq> 0 \<Longrightarrow> balanced vn (t, refs) (exit_fds pp (t, refs))"
  by (simp add: exit_fds_def balanced_def release_all_open)

lemma sys_pipe_fds_cases:
  assumes "length t = MAX_FDS"
  shows "(\<exists>e. sys_pipe_fds r w (t, refs) = (Inl e, t, refs(r := 1, w := 1))) \<or>
    (\<exists>i j. i < length t \<and> j < length t \<and> i \<noteq> j \<and> t ! i = None \<and> t ! j = None \<and>
       sys_pipe_fds r w (t, refs) = (Inr (int i, int j),
         t[i := Some \<lparr>vnode_ptr = r, fd_offset = 0, fd_flags = O_RDONLY\<rparr>, j := Some \<lparr>vnode_ptr = w, fd_offset = 0, fd_flags = O_WRONLY\<rparr>],
         refs(r := 1, w := 1)))"
proof (cases "free_slot t")
  case None
  then show ?thesis by (auto simp: sys_pipe_fds_def fd_alloc_def EMFILE_def Let_def)
next
  case (Some i)
  note i = free_slot_SomeD[OF Some]
  let ?t = "t[i := Some \<lparr>vnode_ptr = r, fd_offset = 0, fd_flags = O_RDONLY\<rparr>]"
  show ?thesis
  proof (cases "free_slot ?t")
    case None
    have "fd_close (int i) ?t = (0, t)"
      using i assms by (simp add: fd_close_def) (metis list_update_id)
    then show ?thesis using Some None by (simp add: sys_pipe_fds_def fd_alloc_def EMFILE_def Let_def)
  next
    case (Some j)
    note j = free_slot_SomeD[OF Some]
    then have "j \<noteq> i" using i by auto
    then show ?thesis using Some \<open>free_slot t = Some i\<close> i j by (auto simp: sys_pipe_fds_def fd_alloc_def Let_def)
  qed
qed

definition fd_inv :: "(u64 \<Rightarrow> bool) \<Rightarrow> fd_sys \<Rightarrow> bool" where
  "fd_inv pp S \<longleftrightarrow> (\<forall>t \<in> set (tables S). length t = MAX_FDS) \<and>
     (\<forall>vn \<in> ends S. pp vn \<and> vn \<noteq> 0 \<and> vrefs S vn = of_nat (total vn (tables S)))"

lemma put_table_inv:
  assumes "fd_inv pp S" "p < length (tables S)"
    "\<And>vn. vn \<in> ends S \<Longrightarrow> pp vn \<Longrightarrow> vn \<noteq> 0 \<Longrightarrow> balanced vn (tables S ! p, vrefs S) r" "length (fst r) = MAX_FDS"
  shows "fd_inv pp (put_table p r S)"
  unfolding fd_inv_def
proof (intro conjI ballI)
  show "length t = MAX_FDS" if "t \<in> set (tables (put_table p r S))" for t
    using that assms(1,2,4) unfolding put_table_def by (auto simp: in_set_update_iff fd_inv_def)
  fix vn assume "vn \<in> ends (put_table p r S)"
  then have vn: "vn \<in> ends S" by (simp add: put_table_def)
  then show pv: "pp vn" "vn \<noteq> 0" using assms(1) by (simp_all add: fd_inv_def)
  have "snd r vn + of_nat (open_fds vn (tables S ! p)) = vrefs S vn + of_nat (open_fds vn (fst r))"
    using assms(3)[OF vn pv] by (simp add: balanced_def case_prod_unfold)
  moreover have "vrefs S vn = of_nat (total vn (tables S))" using assms(1) vn by (simp add: fd_inv_def)
  moreover have "of_nat (total vn ((tables S)[p := fst r])) + of_nat (open_fds vn (tables S ! p)) =
      (of_nat (total vn (tables S)) + of_nat (open_fds vn (fst r)) :: u32)"
    using total_update[OF assms(2), of vn "fst r"] by (metis of_nat_add)
  ultimately show "vrefs (put_table p r S) vn = of_nat (total vn (tables (put_table p r S)))"
    by (simp add: put_table_def) (metis add_right_cancel)
qed

lemma op_lengths [simp]:
  "length (snd (fd_alloc vn flags t)) = length t" "length (fst (snd (fd_dup fd r))) = length (fst r)"
  "length (fst (snd (fd_dup2 a b r))) = length (fst r)" "length (fst (snd (sys_close pp fd r))) = length (fst r)"
  "length (fst (exit_fds pp r)) = length (fst r)"
  by (auto simp: fd_alloc_def fd_dup_def fd_dup2_def sys_close_def exit_fds_def fd_close_def Let_def case_prod_unfold
      split: option.splits)

lemma table_length: "fd_inv pp S \<Longrightarrow> p < length (tables S) \<Longrightarrow> length (tables S ! p) = MAX_FDS"
  by (simp add: fd_inv_def)

lemma fd_step_inv:
  assumes inv: "fd_inv pp S" and ok: "op_ok pp S op"
  shows "fd_inv pp (fd_step pp op S)"
proof (cases op)
  case (MakePipe p r w)
  have p: "p < length (tables S)" using ok MakePipe by simp
  have len: "length (tables S ! p) = MAX_FDS" using inv p by (simp add: fd_inv_def)
  have fresh: "r \<notin> ends S" "w \<notin> ends S" "r \<noteq> w" "pp r" "pp w" "r \<noteq> 0" "w \<noteq> 0" using ok MakePipe by simp_all
  have tot: "total r (tables S) = 0" "total w (tables S) = 0" using ok MakePipe by simp_all
  from sys_pipe_fds_cases[OF len, of r w "vrefs S"] show ?thesis
  proof (elim disjE exE conjE)
    fix e assume "sys_pipe_fds r w (tables S ! p, vrefs S) = (Inl e, tables S ! p, (vrefs S)(r := 1, w := 1))"
    then show ?thesis using inv fresh MakePipe by (auto simp: put_table_def fd_inv_def)
  next
    fix i j
    assume ij: "i < length (tables S ! p)" "j < length (tables S ! p)" "i \<noteq> j" "tables S ! p ! i = None" "tables S ! p ! j = None"
    let ?t = "(tables S ! p)[i := Some \<lparr>vnode_ptr = r, fd_offset = 0, fd_flags = O_RDONLY\<rparr>, j := Some \<lparr>vnode_ptr = w, fd_offset = 0, fd_flags = O_WRONLY\<rparr>]"
    assume eq: "sys_pipe_fds r w (tables S ! p, vrefs S) = (Inr (int i, int j), ?t, (vrefs S)(r := 1, w := 1))"
    have o: "open_fds vn ?t = open_fds vn (tables S ! p) + (if vn = r then 1 else 0) + (if vn = w then 1 else 0)" for vn
      using ij by (simp add: open_fds_put)
    have t: "total vn ((tables S)[p := ?t]) = total vn (tables S) + (if vn = r then 1 else 0) + (if vn = w then 1 else 0)" for vn
      using total_update[OF p, of vn ?t] o[of vn] by linarith
    have "vrefs S vn = of_nat (total vn (tables S))" if "vn \<in> ends S" for vn using inv that by (simp add: fd_inv_def)
    then show ?thesis
      using inv fresh MakePipe tot t len eq p by (auto simp: put_table_def fd_inv_def in_set_update_iff)
  qed
next
  case (Fork p)
  have p: "p < length (tables S)" using ok Fork by simp
  then show ?thesis
    using inv Fork by (auto simp: fd_inv_def clone_for_fork_def total_def inc_refs_open)
next
  case (OpenFile p vn flags)
  then have p: "p < length (tables S)" "\<not> pp vn" using ok by simp_all
  then show ?thesis
    using inv OpenFile balanced_alloc[of pp vn] by (auto intro!: put_table_inv[OF inv] simp: table_length[OF inv])
next
  case (Dup p fd)
  then show ?thesis
    using ok balanced_dup by (auto intro!: put_table_inv[OF inv] simp: table_length[OF inv])
next
  case (Dup2 p a b)
  then show ?thesis
    using ok balanced_dup2 by (auto intro!: put_table_inv[OF inv] simp: table_length[OF inv])
next
  case (Close p fd)
  then show ?thesis
    using ok balanced_close by (auto intro!: put_table_inv[OF inv] simp: table_length[OF inv])
next
  case (Exit p)
  then show ?thesis
    using ok balanced_exit by (auto intro!: put_table_inv[OF inv] simp: table_length[OF inv])
qed

text \<open>
  C24: a pipe end's reference count is its number of open descriptors.  In every
  system state reachable by opening files, creating pipes, duplicating, closing,
  forking and exiting, in any order and over any number of processes (fewer than
  \<open>2^32\<close> descriptors in all), the count of each end of a created pipe equals the
  number of descriptors, over all processes, that refer to it: it reaches zero, which
  is what readers take for end-of-file, exactly when the last descriptor is gone.
\<close>

theorem pipe_refs_exact:
  assumes "fd_reach pp S" "vn \<in> ends S" "MAX_FDS * length (tables S) < 2 ^ 32"
  shows "unat (vrefs S vn) = total vn (tables S)"
proof -
  have inv: "fd_inv pp S"
    using assms(1)
  proof (induction rule: fd_reach.induct)
    case (fd_init refs)
    show ?case by (simp add: fd_inv_def FdTable_new_def)
  qed (rule fd_step_inv)
  have "total vn (tables S) \<le> (\<Sum>t \<leftarrow> tables S. MAX_FDS)"
    unfolding total_def using inv by (intro sum_list_mono) (auto simp: fd_inv_def open_fds_def intro: order_trans[OF length_filter_le])
  then have "total vn (tables S) < 2 ^ 32" using assms(3) by (simp add: sum_list_triv mult.commute)
  then show ?thesis using inv assms(2) by (auto simp: fd_inv_def intro!: of_nat_inverse)
qed

text \<open>A shell pipeline: create a pipe, fork, close the write end in the child, duplicate it in the parent.\<close>

definition demo_fd_ops :: "fd_op list" where
  "demo_fd_ops = [MakePipe 0 8 16, Fork 0, Close 1 1, Dup2 0 1 7, Dup 0 0, Exit 1]"

fun ops_ok :: "(u64 \<Rightarrow> bool) \<Rightarrow> fd_op list \<Rightarrow> fd_sys \<Rightarrow> bool" where
  "ops_ok pp [] S \<longleftrightarrow> True"
| "ops_ok pp (op # ops) S \<longleftrightarrow> op_ok pp S op \<and> ops_ok pp ops (fd_step pp op S)"

lemma fd_reach_fold: "fd_reach pp S \<Longrightarrow> ops_ok pp ops S \<Longrightarrow> fd_reach pp (fold (fd_step pp) ops S)"
  by (induction ops arbitrary: S) (auto intro: fd_next)

definition demo_fd_sys :: fd_sys where
  "demo_fd_sys = fold (fd_step (\<lambda>v. v = 8 \<or> v = 16)) demo_fd_ops \<lparr>tables = [FdTable_new], vrefs = (\<lambda>_. 0), ends = {}\<rparr>"

lemma demo_fd_values:
  "ops_ok (\<lambda>v. v = 8 \<or> v = 16) demo_fd_ops \<lparr>tables = [FdTable_new], vrefs = (\<lambda>_. 0), ends = {}\<rparr>"
  "16 \<in> ends demo_fd_sys" "length (tables demo_fd_sys) = 2" "total 16 (tables demo_fd_sys) = 2"
  by code_simp+

theorem pipe_refs_exact_witness: "unat (vrefs demo_fd_sys 16) = 2"
proof -
  have "fd_reach (\<lambda>v. v = 8 \<or> v = 16) demo_fd_sys"
    unfolding demo_fd_sys_def by (rule fd_reach_fold[OF fd_init demo_fd_values(1)])
  from pipe_refs_exact[OF this demo_fd_values(2)] show ?thesis
    by (simp add: demo_fd_values MAX_FDS_def)
qed

end
