(* ===== verification/Ptable.thy ===== *)
theory Ptable
  imports Slot_Table
begin

text \<open>
  The table from process identifiers to processes (\<open>proc/ptable.rs\<close>): 64 buckets of
  16 entries, hashed by the top bits of a 32-bit product.
\<close>

definition PTABLE_BUCKETS :: nat where
  "PTABLE_BUCKETS = 64"

definition PTABLE_BUCKET_CAP :: nat where
  "PTABLE_BUCKET_CAP = 16"

record PTableEntry =
  pt_pid :: u32
  proc_ptr :: u64

type_synonym ptable = "PTableEntry slots list"

definition ptable_new :: ptable where
  "ptable_new = replicate PTABLE_BUCKETS (replicate PTABLE_BUCKET_CAP None)"

definition ptable_bucket :: "u32 \<Rightarrow> nat" where
  "ptable_bucket pid = unat (drop_bit 26 (pid * 0x9e3779b9))"

text \<open>The scan prefers an entry of the same process over the first free slot.\<close>

definition ptable_insert :: "u32 \<Rightarrow> u64 \<Rightarrow> ptable \<Rightarrow> ptable" where
  "ptable_insert pid ptr T =
     (let b = ptable_bucket pid; bucket = T ! b;
          target = (case slot_of (\<lambda>e. pt_pid e = pid) bucket of Some i \<Rightarrow> Some i | None \<Rightarrow> free_slot bucket) in
      case target of
        Some i \<Rightarrow> T[b := bucket[i := Some \<lparr>pt_pid = pid, proc_ptr = ptr\<rparr>]]
      | None \<Rightarrow> T)"

definition ptable_remove :: "u32 \<Rightarrow> ptable \<Rightarrow> ptable" where
  "ptable_remove pid T =
     (let b = ptable_bucket pid in
      T[b := map (\<lambda>s. case s of Some e \<Rightarrow> if pt_pid e = pid then None else Some e | None \<Rightarrow> None) (T ! b)])"

definition ptable_find :: "u32 \<Rightarrow> ptable \<Rightarrow> u64 option" where
  "ptable_find pid T = map_option proc_ptr (slot_find (\<lambda>e. pt_pid e = pid) (T ! ptable_bucket pid))"

interpretation ptab: bucketed ptable_bucket pt_pid PTABLE_BUCKETS PTABLE_BUCKET_CAP
proof
  show "ptable_bucket pid < PTABLE_BUCKETS" for pid
    using top_bits_less[of 26 "pid * 0x9e3779b9 :: u32"] by (simp add: ptable_bucket_def PTABLE_BUCKETS_def)
qed

lemma ptable_find_tmap: "ptable_find pid T = map_option proc_ptr (ptab.tmap T pid)"
  by (simp add: ptable_find_def ptab.tmap_def)

lemma ptable_new_inv: "ptab.tinv ptable_new" "ptable_find pid ptable_new = None"
  by (simp_all add: ptable_new_def ptab.tinv_empty ptable_find_tmap ptab.tmap_empty)

text \<open>Room for a process: it has an entry already or its bucket a free slot.\<close>

definition has_room :: "u32 \<Rightarrow> ptable \<Rightarrow> bool" where
  "has_room pid T \<longleftrightarrow> ptable_find pid T \<noteq> None \<or> free_slot (T ! ptable_bucket pid) \<noteq> None"

lemma ptable_insert_spec:
  assumes T: "ptab.tinv T"
  shows "ptab.tinv (ptable_insert pid ptr T)"
    "ptable_find p (ptable_insert pid ptr T) = (if p = pid \<and> has_room pid T then Some ptr else ptable_find p T)"
proof -
  let ?e = "\<lparr>pt_pid = pid, proc_ptr = ptr\<rparr>"
  have "ptab.tinv (ptable_insert pid ptr T) \<and>
    ptab.tmap (ptable_insert pid ptr T) = (if has_room pid T then (ptab.tmap T)(pid \<mapsto> ?e) else ptab.tmap T)"
  proof (cases "slot_of (\<lambda>e. pt_pid e = pid) (T ! ptable_bucket pid)")
    case (Some i)
    then obtain e where e: "i < PTABLE_BUCKET_CAP" "T ! ptable_bucket pid ! i = Some e" "pt_pid e = pid" "ptab.tmap T pid = Some e"
      using ptab.slot_of_key(2)[OF T Some] by blast
    then have "has_room pid T" by (simp add: has_room_def ptable_find_tmap)
    with Some ptab.tput[OF T e(1), of ?e pid] e show ?thesis by (simp add: ptable_insert_def Let_def)
  next
    case None
    then have n: "ptab.tmap T pid = None" using ptab.slot_of_key(1)[OF T] by blast
    show ?thesis
    proof (cases "free_slot (T ! ptable_bucket pid)")
      case (Some i)
      with None n ptab.free_slot_key[OF T Some] ptab.tput[OF T, of i ?e pid] show ?thesis
        by (simp add: ptable_insert_def Let_def has_room_def)
    next
      case no: None
      then show ?thesis using None n T by (simp add: ptable_insert_def Let_def has_room_def ptable_find_tmap)
    qed
  qed
  then show "ptab.tinv (ptable_insert pid ptr T)"
    "ptable_find p (ptable_insert pid ptr T) = (if p = pid \<and> has_room pid T then Some ptr else ptable_find p T)"
    by (auto simp: ptable_find_tmap)
qed

text \<open>With distinct keys, clearing every matching slot clears the one that matches.\<close>

lemma clear_matching:
  assumes d: "keys_distinct key xs" and i: "slot_of (\<lambda>e. key e = k) xs = Some i"
  shows "map (\<lambda>s. case s of Some e \<Rightarrow> if key e = k then None else Some e | None \<Rightarrow> None) xs = xs[i := None]"
proof (rule nth_equalityI)
  obtain e0 where e0: "i < length xs" "xs ! i = Some e0" "key e0 = k" using i by (rule slot_of_SomeD)
  fix j
  assume "j < length (map (\<lambda>s. case s of Some e \<Rightarrow> if key e = k then None else Some e | None \<Rightarrow> None) xs)"
  then have j: "j < length xs" by simp
  show "map (\<lambda>s. case s of Some e \<Rightarrow> if key e = k then None else Some e | None \<Rightarrow> None) xs ! j = xs[i := None] ! j"
  proof (cases "j = i")
    case False
    have "key e \<noteq> k" if "xs ! j = Some e" for e
      using keys_distinctD[OF d j e0(1) that e0(2)] e0(3) False by auto
    then show ?thesis using j False by (cases "xs ! j") auto
  qed (use j e0 in simp)
qed simp

lemma clear_none_matching:
  assumes "slot_of (\<lambda>e. key e = k) xs = None"
  shows "map (\<lambda>s. case s of Some e \<Rightarrow> if key e = k then None else Some e | None \<Rightarrow> None) xs = xs"
  using assms unfolding slot_of_None_iff by (intro map_idI) (auto split: option.split)

lemma ptable_remove_spec:
  assumes T: "ptab.tinv T"
  shows "ptab.tinv (ptable_remove pid T)" "ptable_find p (ptable_remove pid T) = (if p = pid then None else ptable_find p T)"
proof -
  have "ptab.tinv (ptable_remove pid T) \<and> ptab.tmap (ptable_remove pid T) = (ptab.tmap T)(pid := None)"
  proof (cases "slot_of (\<lambda>e. pt_pid e = pid) (T ! ptable_bucket pid)")
    case (Some i)
    then obtain e where e: "i < PTABLE_BUCKET_CAP" "T ! ptable_bucket pid ! i = Some e" "pt_pid e = pid"
      using ptab.slot_of_key(2)[OF T Some] by blast
    with ptab.tclear[OF T e] clear_matching[OF ptab.tinv_bucket(2)[OF T] Some] show ?thesis
      by (simp add: ptable_remove_def Let_def)
  next
    case None
    then have "ptab.tmap T pid = None" using ptab.slot_of_key(1)[OF T] by blast
    with T clear_none_matching[OF None] show ?thesis by (simp add: ptable_remove_def Let_def fun_upd_idem)
  qed
  then show "ptab.tinv (ptable_remove pid T)" "ptable_find p (ptable_remove pid T) = (if p = pid then None else ptable_find p T)"
    by (auto simp: ptable_find_tmap)
qed

lemma has_room_new [simp]: "has_room pid ptable_new"
proof -
  have "ptable_new ! ptable_bucket pid = replicate PTABLE_BUCKET_CAP None"
    using ptab.hash_less[of pid] by (simp add: ptable_new_def)
  then have "free_slot (ptable_new ! ptable_bucket pid) \<noteq> None"
    unfolding free_slot_None_iff by (simp add: PTABLE_BUCKET_CAP_def)
  then show ?thesis by (simp add: has_room_def)
qed

lemma has_room_other_bucket:
  assumes "ptab.tinv T" "ptable_bucket p \<noteq> ptable_bucket pid"
  shows "has_room p (ptable_insert pid ptr T) = has_room p T"
proof -
  have "ptable_insert pid ptr T ! ptable_bucket p = T ! ptable_bucket p"
    using assms(2) by (auto simp: ptable_insert_def Let_def split: option.split)
  then show ?thesis using ptable_insert_spec(2)[OF assms(1)] assms(2) by (auto simp: has_room_def)
qed

section \<open>Main property\<close>

text \<open>
  C26: the process table is a map with a per-bucket limit.  On every well-formed
  table, an insertion makes the process findable and changes no other process,
  unless its bucket is full, when it changes nothing; a removal makes exactly that
  process unfindable; and both leave the table well-formed.
\<close>

theorem ptable_is_map:
  assumes "ptab.tinv T"
  shows "ptable_find p (ptable_insert pid ptr T) = (if p = pid \<and> has_room pid T then Some ptr else ptable_find p T) \<and>
    ptable_find p (ptable_remove pid T) = (if p = pid then None else ptable_find p T) \<and>
    ptab.tinv (ptable_insert pid ptr T) \<and> ptab.tinv (ptable_remove pid T)"
  using ptable_insert_spec[OF assms] ptable_remove_spec[OF assms] by simp

theorem ptable_is_map_witness:
  "ptable_find 7 (ptable_insert 7 0x9000 ptable_new) = Some 0x9000 \<and> ptable_find 7 (ptable_remove 7 ptable_new) = None"
  using ptable_is_map[OF ptable_new_inv(1), of 7 7] by simp

end
