(* ===== verification/Process.thy ===== *)
theory Process
  imports Ptable "HOL-Library.Multiset"
begin

text \<open>
  Process lifecycle (\<open>proc/process.rs\<close>, \<open>proc/fork.rs\<close>, \<open>proc/wait.rs\<close>): the children list of
  a process, creation of a child, exit to a zombie with notification of the parent,
  and \<open>wait4\<close> with reaping.  Processes live at the direct-map address of their
  frame; a frame that is not in \<open>heap\<close> holds no process.  Address spaces, kernel stacks
  and the scheduler are not part of this state.
\<close>

definition MAX_CHILDREN :: nat where "MAX_CHILDREN = 32"
definition MAX_PROCESSES :: nat where "MAX_PROCESSES = 64"
definition ECHILD :: int where "ECHILD = - 10"
definition EAGAIN :: int where "EAGAIN = - 11"
definition WNOHANG :: u32 where "WNOHANG = 1"
definition SIGCHLD :: nat where "SIGCHLD = 17"
definition USER_TOP :: nat where "USER_TOP = 0x0000800000000000"
definition USER_MIN :: nat where "USER_MIN = 4096"

datatype ProcessState = Running | Zombie

record Process =
  p_pid :: u32
  p_state :: ProcessState
  exit_code :: u32
  parent_pid :: u32
  pending_bits :: u64
  children :: "u32 list"
  child_count :: u32
  child_exit_seq :: u32

record proc_sys =
  heap :: "u64 \<Rightarrow> Process option"
  ptbl :: ptable
  flat :: "u64 list"
  next_pid :: u32

section \<open>The children list\<close>

definition add_child :: "u32 \<Rightarrow> Process \<Rightarrow> bool \<times> Process" where
  "add_child child_pid P =
     (case first_idx (\<lambda>s. s = 0) (children P) of
        Some i \<Rightarrow> (True, P\<lparr>children := (children P)[i := child_pid], child_count := child_count P + 1\<rparr>)
      | None \<Rightarrow> (False, P))"

definition remove_child :: "u32 \<Rightarrow> Process \<Rightarrow> Process" where
  "remove_child child_pid P =
     (case first_idx (\<lambda>s. s = child_pid) (children P) of
        Some i \<Rightarrow> P\<lparr>children := (children P)[i := 0], child_count := child_count P - 1\<rparr>
      | None \<Rightarrow> P)"

definition children_full :: "Process \<Rightarrow> bool" where
  "children_full P = list_all (\<lambda>s. s \<noteq> 0) (children P)"

section \<open>Creation\<close>

text \<open>\<open>register_process\<close> panics when the flat table is full.\<close>

definition register_process :: "u64 \<Rightarrow> u64 list \<Rightarrow> u64 list option" where
  "register_process ptr fl = (case first_idx (\<lambda>s. s = 0) fl of Some i \<Rightarrow> Some (fl[i := ptr]) | None \<Rightarrow> None)"

definition unregister_process :: "u64 \<Rightarrow> u64 list \<Rightarrow> u64 list" where
  "unregister_process ptr fl = map (\<lambda>s. if s = ptr then 0 else s) fl"

definition new_process :: "u32 \<Rightarrow> u32 \<Rightarrow> Process" where
  "new_process pid parent =
     \<lparr>p_pid = pid, p_state = Running, exit_code = 0, parent_pid = parent, pending_bits = 0,
      children = replicate MAX_CHILDREN 0, child_count = 0, child_exit_seq = 0\<rparr>"

text \<open>\<open>child_ptr\<close> is the frame the allocator hands out for the child.  \<open>None\<close> is a panic.\<close>

definition sys_fork :: "u64 \<Rightarrow> u64 \<Rightarrow> proc_sys \<Rightarrow> (int \<times> proc_sys) option" where
  "sys_fork parent_ptr child_ptr S =
     (case heap S parent_ptr of
        None \<Rightarrow> Some (- 14, S)
      | Some P \<Rightarrow>
          if children_full P then Some (EAGAIN, S)
          else let child_pid = next_pid S; child = new_process child_pid (p_pid P) in
            (case register_process child_ptr (flat S) of
               None \<Rightarrow> None
             | Some fl \<Rightarrow>
                 (let (added, P') = add_child child_pid P in
                  if \<not> added then None
                  else Some (uint child_pid,
                    \<lparr>heap = (heap S)(child_ptr \<mapsto> child, parent_ptr \<mapsto> P'),
                     ptbl = ptable_insert child_pid child_ptr (ptbl S),
                     flat = fl, next_pid = child_pid + 1\<rparr>))))"

section \<open>Exit and wait\<close>

definition proc_exit :: "u64 \<Rightarrow> u32 \<Rightarrow> proc_sys \<Rightarrow> proc_sys" where
  "proc_exit ptr code S =
     (case heap S ptr of
        None \<Rightarrow> S
      | Some p \<Rightarrow>
          let S1 = S\<lparr>heap := (heap S)(ptr \<mapsto> p\<lparr>p_state := Zombie, exit_code := code\<rparr>)\<rparr> in
          if parent_pid p = 0 then S1
          else (case ptable_find (parent_pid p) (ptbl S1) of
                  None \<Rightarrow> S1
                | Some parent \<Rightarrow>
                    (case heap S1 parent of
                       None \<Rightarrow> S1
                     | Some P \<Rightarrow> S1\<lparr>heap := (heap S1)(parent \<mapsto>
                         P\<lparr>pending_bits := pending_bits P OR push_bit SIGCHLD 1, child_exit_seq := child_exit_seq P + 1\<rparr>)\<rparr>)))"

definition encode_exit_status :: "u32 \<Rightarrow> u32" where
  "encode_exit_status code = push_bit 8 (code AND 0xFF)"

definition is_user_ptr :: "u64 \<Rightarrow> nat \<Rightarrow> bool" where
  "is_user_ptr addr len =
     (if 2 ^ 64 \<le> unat addr + len then False
      else USER_MIN \<le> unat addr \<and> unat addr + len \<le> USER_TOP)"

fun zombie_scan :: "proc_sys \<Rightarrow> int \<Rightarrow> u32 list \<Rightarrow> (u32 \<times> u32) option" where
  "zombie_scan S pid [] = None"
| "zombie_scan S pid (c # cs) =
     (if c = 0 then zombie_scan S pid cs
      else if 0 < pid \<and> c \<noteq> word_of_int pid then zombie_scan S pid cs
      else case ptable_find c (ptbl S) of
        None \<Rightarrow> zombie_scan S pid cs
      | Some ptr \<Rightarrow>
          (case heap S ptr of
             None \<Rightarrow> zombie_scan S pid cs
           | Some q \<Rightarrow> if p_state q = Zombie then Some (c, exit_code q) else zombie_scan S pid cs))"

definition find_zombie :: "u64 \<Rightarrow> int \<Rightarrow> proc_sys \<Rightarrow> (u32 \<times> u32) option" where
  "find_zombie parent pid S =
     (if pid < - 1 then None
      else case heap S parent of None \<Rightarrow> None | Some P \<Rightarrow> zombie_scan S pid (children P))"

text \<open>The tables a reaped child is removed from; its frame holds no process afterwards.\<close>

definition reap_zombie :: "u64 \<Rightarrow> u32 \<Rightarrow> proc_sys \<Rightarrow> proc_sys" where
  "reap_zombie parent child_pid S =
     (case ptable_find child_pid (ptbl S) of
        None \<Rightarrow> S
      | Some child \<Rightarrow>
          S\<lparr>heap := (heap S)(parent := map_option (remove_child child_pid) (heap S parent), child := None),
            ptbl := ptable_remove child_pid (ptbl S), flat := unregister_process child (flat S)\<rparr>)"

text \<open>One pass of the loop of \<open>sys_wait4\<close>: it returns, or blocks until a child exits.\<close>

datatype wait_res = WaitRet int "u32 option" | WaitBlock

definition sys_wait4 :: "u64 \<Rightarrow> int \<Rightarrow> u64 \<Rightarrow> u32 \<Rightarrow> proc_sys \<Rightarrow> wait_res \<times> proc_sys" where
  "sys_wait4 parent pid status_ptr options S =
     (case heap S parent of
        None \<Rightarrow> (WaitRet (- 22) None, S)
      | Some P \<Rightarrow>
          if pid < - 1 then (WaitRet ECHILD None, S)
          else if child_count P = 0 then (WaitRet ECHILD None, S)
          else (case find_zombie parent pid S of
                  Some (child_pid, code) \<Rightarrow>
                    (WaitRet (uint child_pid)
                       (if status_ptr \<noteq> 0 \<and> is_user_ptr status_ptr 4 then Some (encode_exit_status code) else None),
                     reap_zombie parent child_pid S)
                | None \<Rightarrow>
                    if options AND WNOHANG \<noteq> 0 then (WaitRet 0 None, S) else (WaitBlock, S)))"

section \<open>The children list as a set\<close>

definition kids :: "Process \<Rightarrow> u32 set" where
  "kids P = set (children P) - {0}"

definition kids_ok :: "Process \<Rightarrow> bool" where
  "kids_ok P \<longleftrightarrow> length (children P) = MAX_CHILDREN \<and> distinct (filter (\<lambda>c. c \<noteq> 0) (children P)) \<and>
     child_count P = of_nat (length (filter (\<lambda>c. c \<noteq> 0) (children P)))"

lemma mset_filter_update:
  assumes "i < length xs"
  shows "mset (filter Q (xs[i := v])) + (if Q (xs ! i) then {#xs ! i#} else {#}) =
         mset (filter Q xs) + (if Q v then {#v#} else {#})"
proof -
  have "xs[i := v] = take i xs @ v # drop (Suc i) xs" "xs = take i xs @ xs ! i # drop (Suc i) xs"
    using assms by (simp_all add: upd_conv_take_nth_drop id_take_nth_drop)
  then have "mset (filter Q (xs[i := v])) = mset (filter Q (take i xs @ v # drop (Suc i) xs))"
    "mset (filter Q xs) = mset (filter Q (take i xs @ xs ! i # drop (Suc i) xs))" by simp_all
  then show ?thesis by simp
qed

lemma kids_mset: "kids P = set_mset (mset (filter (\<lambda>c. c \<noteq> 0) (children P)))"
  by (auto simp: kids_def)

lemma add_child_spec:
  assumes ok: "kids_ok P" and room: "\<not> children_full P" and c: "c \<noteq> 0" "c \<notin> kids P"
  shows "\<exists>P'. add_child c P = (True, P') \<and> kids_ok P' \<and> kids P' = insert c (kids P) \<and>
     p_pid P' = p_pid P \<and> parent_pid P' = parent_pid P \<and> p_state P' = p_state P"
proof -
  have "0 \<in> set (children P)" using room by (auto simp: children_full_def list_all_iff)
  from first_idx_ex[OF this, of "\<lambda>s. s = 0"]
  obtain i where i: "first_idx (\<lambda>s. s = 0) (children P) = Some i" by auto
  have il: "i < length (children P)" "children P ! i = 0" using first_idx_SomeD[OF i] by auto
  let ?P = "P\<lparr>children := (children P)[i := c], child_count := child_count P + 1\<rparr>"
  let ?F = "filter (\<lambda>c. c \<noteq> 0)"
  have m: "mset (?F ((children P)[i := c])) = add_mset c (mset (?F (children P)))"
    using mset_filter_update[OF il(1), of "\<lambda>c. c \<noteq> 0" c] il(2) c(1) by simp
  then have "length (?F ((children P)[i := c])) = Suc (length (?F (children P)))" by (metis size_add_mset size_mset)
  moreover have "distinct (?F ((children P)[i := c]))"
  proof -
    have "mset (?F ((children P)[i := c])) = mset (c # ?F (children P))" using m by simp
    then have "distinct (?F ((children P)[i := c])) = distinct (c # ?F (children P))" by (rule mset_eq_imp_distinct_iff)
    then show ?thesis using ok c by (simp add: kids_ok_def kids_def)
  qed
  moreover have "kids ?P = insert c (kids P)" unfolding kids_mset using m by simp
  ultimately show ?thesis using i ok by (simp add: add_child_def kids_ok_def add.commute)
qed

lemma remove_child_spec:
  assumes ok: "kids_ok P" and c: "c \<in> kids P"
  shows "kids_ok (remove_child c P)" "kids (remove_child c P) = kids P - {c}"
    "p_pid (remove_child c P) = p_pid P" "parent_pid (remove_child c P) = parent_pid P"
    "p_state (remove_child c P) = p_state P"
proof -
  have "c \<in> set (children P)" using c by (simp add: kids_def)
  from first_idx_ex[OF this, of "\<lambda>s. s = c"]
  obtain i where i: "first_idx (\<lambda>s. s = c) (children P) = Some i" by auto
  have il: "i < length (children P)" "children P ! i = c" using first_idx_SomeD[OF i] by auto
  have c0: "c \<noteq> 0" using c by (simp add: kids_def)
  let ?F = "filter (\<lambda>c. c \<noteq> 0)"
  have m: "add_mset c (mset (?F ((children P)[i := 0]))) = mset (?F (children P))"
    using mset_filter_update[OF il(1), of "\<lambda>c. c \<noteq> 0" 0] il(2) c0 by simp
  then have l: "Suc (length (?F ((children P)[i := 0]))) = length (?F (children P))" by (metis size_add_mset size_mset)
  have "mset (c # ?F ((children P)[i := 0])) = mset (?F (children P))" using m by simp
  then have "distinct (c # ?F ((children P)[i := 0])) = distinct (?F (children P))" by (rule mset_eq_imp_distinct_iff)
  then have d': "distinct (?F ((children P)[i := 0]))" and n: "c \<notin># mset (?F ((children P)[i := 0]))"
    using ok by (simp_all add: kids_ok_def)
  have r: "remove_child c P = P\<lparr>children := (children P)[i := 0], child_count := child_count P - 1\<rparr>"
    using i by (simp add: remove_child_def)
  show "kids_ok (remove_child c P)" using ok d' l[symmetric] by (simp add: r kids_ok_def)
  show "kids (remove_child c P) = kids P - {c}" unfolding kids_mset m[symmetric] using n by (simp add: r)
qed (simp_all add: remove_child_def split: option.split)

lemma kids_count:
  assumes "kids_ok P"
  shows "child_count P = 0 \<longleftrightarrow> kids P = {}"
proof -
  let ?n = "length (filter (\<lambda>c. c \<noteq> 0) (children P))"
  have "?n < 2 ^ 32" using assms length_filter_le[of "\<lambda>c. c \<noteq> 0" "children P"] by (simp add: kids_ok_def MAX_CHILDREN_def)
  then have "child_count P = 0 \<longleftrightarrow> ?n = 0"
    using assms of_nat_inverse[of ?n "0 :: u32"] by (auto simp: kids_ok_def)
  then show ?thesis by (auto simp: kids_def filter_empty_conv)
qed

section \<open>The invariant of the process tables\<close>

text \<open>
  Every process is found by its identifier, identifiers are never reused, and the
  children list of a process holds exactly the processes that name it as parent.
\<close>

definition offspring :: "proc_sys \<Rightarrow> u32 \<Rightarrow> u32 set" where
  "offspring S pid = {c. \<exists>ptr q. heap S ptr = Some q \<and> p_pid q = c \<and> parent_pid q = pid}"

definition proc_ok :: "proc_sys \<Rightarrow> u64 \<Rightarrow> Process \<Rightarrow> bool" where
  "proc_ok S ptr p \<longleftrightarrow> p_pid p < next_pid S \<and> parent_pid p < p_pid p \<and>
     ptable_find (p_pid p) (ptbl S) = Some ptr \<and> kids_ok p \<and> kids p = offspring S (p_pid p)"

definition proc_inv :: "proc_sys \<Rightarrow> bool" where
  "proc_inv S \<longleftrightarrow> ptab.tinv (ptbl S) \<and> (\<forall>ptr p. heap S ptr = Some p \<longrightarrow> proc_ok S ptr p) \<and>
     (\<forall>pid ptr. ptable_find pid (ptbl S) = Some ptr \<longrightarrow> (\<exists>p. heap S ptr = Some p \<and> p_pid p = pid))"

lemma proc_invD:
  assumes "proc_inv S"
  shows "heap S ptr = Some p \<Longrightarrow> proc_ok S ptr p"
    and "ptable_find pid (ptbl S) = Some ptr \<Longrightarrow> \<exists>p. heap S ptr = Some p \<and> p_pid p = pid"
    and "ptab.tinv (ptbl S)"
  using assms by (auto simp: proc_inv_def)

lemma pid_unique:
  assumes "proc_inv S" "heap S a = Some p" "heap S b = Some q" "p_pid p = p_pid q"
  shows "a = b"
  using proc_invD(1)[OF assms(1,2)] proc_invD(1)[OF assms(1,3)] assms(4) by (simp add: proc_ok_def)

lemma child_found:
  assumes "proc_inv S" "heap S ptr = Some p" "c \<in> kids p"
  shows "\<exists>cptr q. ptable_find c (ptbl S) = Some cptr \<and> heap S cptr = Some q \<and> p_pid q = c \<and> parent_pid q = p_pid p \<and> cptr \<noteq> ptr"
proof -
  obtain cptr q where q: "heap S cptr = Some q" "p_pid q = c" "parent_pid q = p_pid p"
    using proc_invD(1)[OF assms(1,2)] assms(3) by (auto simp: proc_ok_def offspring_def)
  moreover have "ptable_find c (ptbl S) = Some cptr" "parent_pid q < p_pid q"
    using proc_invD(1)[OF assms(1) q(1)] q(2) by (auto simp: proc_ok_def)
  ultimately show ?thesis using assms(2) by auto
qed

text \<open>Changes that keep identifiers, parents and children keep the invariant.\<close>

definition same_shape :: "Process option \<Rightarrow> Process option \<Rightarrow> bool" where
  "same_shape = rel_option (\<lambda>p q. p_pid p = p_pid q \<and> parent_pid p = parent_pid q \<and> children p = children q \<and> child_count p = child_count q)"

lemma proc_inv_shape:
  assumes inv: "proc_inv S" and shape: "\<And>ptr. same_shape (heap S ptr) (h ptr)"
  shows "proc_inv (S\<lparr>heap := h\<rparr>)"
proof -
  have bwd: "\<exists>p. heap S ptr = Some p \<and> p_pid p = p_pid q \<and> parent_pid p = parent_pid q \<and> children p = children q \<and> child_count p = child_count q"
    if "h ptr = Some q" for ptr q using shape[of ptr] that by (cases "heap S ptr") (auto simp: same_shape_def)
  have fwd: "\<exists>q. h ptr = Some q \<and> p_pid p = p_pid q \<and> parent_pid p = parent_pid q"
    if "heap S ptr = Some p" for ptr p using shape[of ptr] that by (cases "h ptr") (auto simp: same_shape_def)
  have off: "offspring (S\<lparr>heap := h\<rparr>) pid = offspring S pid" for pid
  proof (intro set_eqI iffI)
    fix c assume "c \<in> offspring (S\<lparr>heap := h\<rparr>) pid"
    then obtain ptr q where "h ptr = Some q" "p_pid q = c" "parent_pid q = pid" by (auto simp: offspring_def)
    with bwd[of ptr q] show "c \<in> offspring S pid" unfolding offspring_def by auto
  next
    fix c assume "c \<in> offspring S pid"
    then obtain ptr p where "heap S ptr = Some p" "p_pid p = c" "parent_pid p = pid" by (auto simp: offspring_def)
    with fwd[of ptr p] show "c \<in> offspring (S\<lparr>heap := h\<rparr>) pid" unfolding offspring_def by fastforce
  qed
  show ?thesis
    unfolding proc_inv_def
  proof (intro conjI allI impI)
    show "ptab.tinv (ptbl (S\<lparr>heap := h\<rparr>))" using inv by (simp add: proc_inv_def)
    fix ptr q assume "heap (S\<lparr>heap := h\<rparr>) ptr = Some q"
    then obtain p where p: "heap S ptr = Some p" "p_pid p = p_pid q" "parent_pid p = parent_pid q"
        "children p = children q" "child_count p = child_count q" using bwd by auto
    from proc_invD(1)[OF inv p(1)] p show "proc_ok (S\<lparr>heap := h\<rparr>) ptr q"
      by (simp add: proc_ok_def off kids_def kids_ok_def)
  next
    fix pid ptr assume "ptable_find pid (ptbl (S\<lparr>heap := h\<rparr>)) = Some ptr"
    then show "\<exists>p. heap (S\<lparr>heap := h\<rparr>) ptr = Some p \<and> p_pid p = pid"
      using proc_invD(2)[OF inv, of pid ptr] fwd by fastforce
  qed
qed

lemma proc_exit_inv:
  assumes "proc_inv S"
  shows "proc_inv (proc_exit ptr code S)"
proof -
  have refl: "same_shape r r" for r by (simp add: same_shape_def option.rel_refl)
  have "\<exists>h. proc_exit ptr code S = S\<lparr>heap := h\<rparr> \<and> (\<forall>a. same_shape (heap S a) (h a))"
    unfolding proc_exit_def Let_def using refl
    by (auto split: option.splits intro!: exI simp: same_shape_def)
  with proc_inv_shape[OF assms] show ?thesis by metis
qed

lemma zombie_scan_None:
  "zombie_scan S pid cs = None \<Longrightarrow> c \<in> set cs \<Longrightarrow> c \<noteq> 0 \<Longrightarrow> \<not> (0 < pid \<and> c \<noteq> word_of_int pid) \<Longrightarrow>
   ptable_find c (ptbl S) = Some ptr \<Longrightarrow> heap S ptr = Some q \<Longrightarrow> p_state q \<noteq> Zombie"
  by (induction cs) (auto split: if_splits option.splits)

lemma zombie_scan_Some:
  "zombie_scan S pid cs = Some (c, code) \<Longrightarrow> c \<in> set cs \<and> c \<noteq> 0 \<and> \<not> (0 < pid \<and> c \<noteq> word_of_int pid) \<and>
   (\<exists>ptr q. ptable_find c (ptbl S) = Some ptr \<and> heap S ptr = Some q \<and> p_state q = Zombie \<and> exit_code q = code)"
  by (induction cs) (auto split: if_splits option.splits)

text \<open>Removing the process \<open>c\<close> at \<open>cptr\<close> while rewriting its parent in place.\<close>

lemma offspring_remove:
  assumes h: "heap S' = (heap S)(pp \<mapsto> P', cptr := None)" and P: "heap S pp = Some P" and ne: "cptr \<noteq> pp"
    and q: "heap S cptr = Some q" "p_pid q = c" and keep: "p_pid P' = p_pid P" "parent_pid P' = parent_pid P"
    and other: "\<And>a p. heap S a = Some p \<Longrightarrow> a \<noteq> cptr \<Longrightarrow> p_pid p \<noteq> c"
  shows "offspring S' pid = offspring S pid - {c}"
proof (intro set_eqI iffI)
  fix d assume "d \<in> offspring S' pid"
  then obtain a p where a: "heap S' a = Some p" "p_pid p = d" "parent_pid p = pid" by (auto simp: offspring_def)
  then have "a \<noteq> cptr" using h by auto
  show "d \<in> offspring S pid - {c}"
  proof (cases "a = pp")
    case True
    then have "p = P'" using a(1) h ne by simp
    then show ?thesis using P a(2,3) keep other[OF P] ne by (auto simp: offspring_def)
  next
    case False
    then have "heap S a = Some p" using a(1) h \<open>a \<noteq> cptr\<close> by simp
    then show ?thesis using a(2,3) other \<open>a \<noteq> cptr\<close> by (auto simp: offspring_def)
  qed
next
  fix d assume "d \<in> offspring S pid - {c}"
  then obtain a p where a: "heap S a = Some p" "p_pid p = d" "parent_pid p = pid" "d \<noteq> c" by (auto simp: offspring_def)
  then have ac: "a \<noteq> cptr" using q by auto
  show "d \<in> offspring S' pid"
  proof (cases "a = pp")
    case True
    then have "heap S' a = Some (P')" "p = P" using h ne a(1) P by simp_all
    then show ?thesis using a(2,3) keep unfolding offspring_def by fastforce
  next
    case False
    then show ?thesis using a ac h unfolding offspring_def by fastforce
  qed
qed

lemma reap_zombie_spec:
  assumes inv: "proc_inv S" and P: "heap S pp = Some P" and c: "c \<in> kids P"
  shows "\<exists>cptr q. ptable_find c (ptbl S) = Some cptr \<and> heap S cptr = Some q \<and> p_pid q = c \<and> parent_pid q = p_pid P \<and>
    heap (reap_zombie pp c S) cptr = None \<and> ptable_find c (ptbl (reap_zombie pp c S)) = None \<and>
    (\<forall>a. a \<noteq> pp \<longrightarrow> a \<noteq> cptr \<longrightarrow> heap (reap_zombie pp c S) a = heap S a) \<and>
    heap (reap_zombie pp c S) pp = Some (remove_child c P) \<and> proc_inv (reap_zombie pp c S)"
proof -
  obtain cptr q where q: "ptable_find c (ptbl S) = Some cptr" "heap S cptr = Some q" "p_pid q = c" "parent_pid q = p_pid P" "cptr \<noteq> pp"
    using child_found[OF inv P c] by blast
  let ?S = "reap_zombie pp c S"
  note kids = remove_child_spec[OF _ c]
  have okP: "kids_ok P" using proc_invD(1)[OF inv P] by (simp add: proc_ok_def)
  have h: "heap ?S = (heap S)(pp \<mapsto> remove_child c P, cptr := None)" "ptbl ?S = ptable_remove c (ptbl S)" "next_pid ?S = next_pid S"
    using q P by (simp_all add: reap_zombie_def)
  have other: "p_pid p \<noteq> c" if "heap S a = Some p" "a \<noteq> cptr" for a p
    using pid_unique[OF inv that(1) q(2)] q(3) that(2) by auto
  have off: "offspring ?S pid = offspring S pid - {c}" for pid
    by (rule offspring_remove[OF h(1) P q(5,2,3) kids(3,4)[OF okP] other])
  have "proc_ok ?S a p" if "heap ?S a = Some p" for a p
  proof (cases "a = pp")
    case True
    then have "p = remove_child c P" using that h q(5) by simp
    then show ?thesis
      using proc_invD(1)[OF inv P] kids[OF okP] True h other[OF P] q(5) proc_invD(3)[OF inv]
      by (auto simp: proc_ok_def off ptable_remove_spec)
  next
    case False
    then have p: "heap S a = Some p" "a \<noteq> cptr" using that h by (auto split: if_splits)
    have "c \<notin> kids p"
    proof
      assume "c \<in> kids p"
      then obtain cq qq where "ptable_find c (ptbl S) = Some cq" "heap S cq = Some qq" "parent_pid qq = p_pid p"
        using child_found[OF inv p(1)] by blast
      then have "p_pid p = p_pid P" using q by simp
      then show False using pid_unique[OF inv p(1) P] False by simp
    qed
    then show ?thesis
      using proc_invD(1)[OF inv p(1)] h other[OF p] proc_invD(3)[OF inv]
      by (auto simp: proc_ok_def off ptable_remove_spec)
  qed
  moreover have "\<exists>p. heap ?S ptr = Some p \<and> p_pid p = pid" if f: "ptable_find pid (ptbl ?S) = Some ptr" for pid ptr
  proof -
    have pid: "pid \<noteq> c" "ptable_find pid (ptbl S) = Some ptr"
      using f h ptable_remove_spec(2)[OF proc_invD(3)[OF inv]] by (auto split: if_splits)
    then obtain p where p: "heap S ptr = Some p" "p_pid p = pid" using proc_invD(2)[OF inv] by blast
    then show ?thesis using h pid(1) q kids(3)[OF okP] P by (cases "ptr = pp") auto
  qed
  moreover have "ptab.tinv (ptbl ?S)" using ptable_remove_spec(1)[OF proc_invD(3)[OF inv]] h by simp
  ultimately have "proc_inv ?S" by (simp add: proc_inv_def)
  moreover have "ptable_find c (ptbl ?S) = None" using ptable_remove_spec(2)[OF proc_invD(3)[OF inv]] h by simp
  ultimately show ?thesis using q h by (intro exI[of _ cptr] exI[of _ q]) auto
qed

lemma kids_new [simp]: "kids (new_process pid parent) = {}" "kids_ok (new_process pid parent)"
    "p_pid (new_process pid parent) = pid" "parent_pid (new_process pid parent) = parent"
  by (auto simp: kids_def kids_ok_def new_process_def)

lemma offspring_add:
  assumes S': "heap S' = (heap S)(cptr \<mapsto> new_process n (p_pid P), pp \<mapsto> P')" and P: "heap S pp = Some P" and pc: "pp \<noteq> cptr"
    and fresh: "heap S cptr = None" and P': "p_pid P' = p_pid P" "parent_pid P' = parent_pid P"
  shows "offspring S' pid = offspring S pid \<union> (if pid = p_pid P then {n} else {})"
proof (intro set_eqI iffI)
  fix d assume "d \<in> offspring S' pid"
  then obtain a p where a: "heap S' a = Some p" "p_pid p = d" "parent_pid p = pid" by (auto simp: offspring_def)
  then show "d \<in> offspring S pid \<union> (if pid = p_pid P then {n} else {})"
    using S' pc P P' unfolding offspring_def by (fastforce split: if_splits)
next
  fix d assume d: "d \<in> offspring S pid \<union> (if pid = p_pid P then {n} else {})"
  show "d \<in> offspring S' pid"
  proof (cases "d \<in> offspring S pid")
    case True
    then obtain a p where a: "heap S a = Some p" "p_pid p = d" "parent_pid p = pid" by (auto simp: offspring_def)
    then have "a \<noteq> cptr" using fresh by auto
    then show ?thesis using a S' P P' unfolding offspring_def by (cases "a = pp") fastforce+
  next
    case False
    then have "d = n" "pid = p_pid P" using d by (auto split: if_splits)
    then show ?thesis using S' pc unfolding offspring_def by fastforce
  qed
qed

lemma sys_fork_spec:
  assumes inv: "proc_inv S" and P: "heap S pp = Some P" and fresh: "heap S cptr = None" "has_room (next_pid S) (ptbl S)" "next_pid S + 1 \<noteq> 0"
    and r: "sys_fork pp cptr S = Some (r, S')"
  shows "(r = EAGAIN \<and> S' = S \<and> children_full P) \<or>
    (r = uint (next_pid S) \<and> heap S' cptr = Some (new_process (next_pid S) (p_pid P)) \<and> next_pid S \<notin> kids P \<and>
     (\<forall>a. a \<noteq> pp \<longrightarrow> a \<noteq> cptr \<longrightarrow> heap S' a = heap S a) \<and> proc_inv S')"
proof (cases "children_full P")
  case True
  then show ?thesis using r P by (simp add: sys_fork_def)
next
  case False
  let ?n = "next_pid S"
  have T: "ptab.tinv (ptbl S)" by (rule proc_invD(3)[OF inv])
  have okP: "proc_ok S pp P" by (rule proc_invD(1)[OF inv P])
  have lt: "p_pid p < ?n \<and> parent_pid p < ?n" if "heap S a = Some p" for a p
    using proc_invD(1)[OF inv that] unfolding proc_ok_def by (auto intro: less_trans)
  have new: "?n \<notin> kids P" using okP lt unfolding proc_ok_def offspring_def by force
  have n0: "?n \<noteq> 0" using lt[OF P] word_coorder.extremum_strict by metis
  obtain P' where P': "add_child ?n P = (True, P')" "kids_ok P'" "kids P' = insert ?n (kids P)"
      "p_pid P' = p_pid P" "parent_pid P' = parent_pid P"
    using add_child_spec[OF _ False n0 new] okP by (auto simp: proc_ok_def)
  have pc: "pp \<noteq> cptr" using P fresh by auto
  have S': "heap S' = (heap S)(cptr \<mapsto> new_process ?n (p_pid P), pp \<mapsto> P')" "ptbl S' = ptable_insert ?n cptr (ptbl S)"
      "next_pid S' = ?n + 1" "r = uint ?n"
    using r P False P' by (auto simp: sys_fork_def Let_def split: option.splits)
  have find: "ptable_find pid (ptbl S') = (if pid = ?n then Some cptr else ptable_find pid (ptbl S))" for pid
    using ptable_insert_spec(2)[OF T] fresh(2) S' by simp
  have "unat (?n + 1) = Suc (unat ?n)" using unatSuc[of ?n] fresh(3) by (simp add: add.commute)
  then have up: "x < ?n \<Longrightarrow> x < ?n + 1" "?n < ?n + 1" for x :: u32 by (simp_all add: word_less_nat_alt)
  have off: "offspring S' pid = offspring S pid \<union> (if pid = p_pid P then {?n} else {})" for pid
    by (rule offspring_add[OF S'(1) P pc fresh(1) P'(4,5)])
  have ok: "proc_ok S' pp P'" using okP P' lt[OF P] up unfolding proc_ok_def off find S'(3) by auto
  have "offspring S ?n = {}" unfolding offspring_def by (auto dest!: lt)
  then have okc: "proc_ok S' cptr (new_process ?n (p_pid P))" using lt[OF P] up unfolding proc_ok_def off find S'(3) by auto
  have oko: "proc_ok S' a p" if "heap S a = Some p" "a \<noteq> pp" for a p
  proof -
    have "p_pid p \<noteq> p_pid P" using pid_unique[OF inv that(1) P] that(2) by blast
    then show ?thesis using proc_invD(1)[OF inv that(1)] lt[OF that(1)] up unfolding proc_ok_def off find S'(3) by auto
  qed
  have "proc_ok S' a p" if "heap S' a = Some p" for a p
    using that S' pc ok okc oko by (cases "a = pp"; cases "a = cptr") simp_all
  moreover have "\<exists>p. heap S' ptr = Some p \<and> p_pid p = pid" if f: "ptable_find pid (ptbl S') = Some ptr" for pid ptr
  proof (cases "pid = ?n")
    case True
    then show ?thesis using f S'(1) pc unfolding find by simp
  next
    case False
    then obtain p where "heap S ptr = Some p" "p_pid p = pid" using f proc_invD(2)[OF inv, of pid ptr] unfolding find by auto
    then show ?thesis using S'(1) fresh P P' by (cases "ptr = pp") auto
  qed
  ultimately have "proc_inv S'" using ptable_insert_spec(1)[OF T] S' by (simp add: proc_inv_def)
  then show ?thesis using S' new pc by simp
qed

section \<open>Main properties\<close>

text \<open>
  Executions: boot with one process, then forks (onto a frame that holds no
  process, while the identifier's bucket has room and identifiers last), exits and
  waits, in any order.
\<close>

definition boot_sys :: "u64 \<Rightarrow> proc_sys" where
  "boot_sys ptr = \<lparr>heap = [ptr \<mapsto> new_process 1 0], ptbl = ptable_insert 1 ptr ptable_new,
     flat = ptr # replicate (MAX_PROCESSES - 1) 0, next_pid = 2\<rparr>"

inductive proc_reach :: "proc_sys \<Rightarrow> bool" where
  pr_boot: "proc_reach (boot_sys ptr)"
| pr_fork: "proc_reach S \<Longrightarrow> heap S pp = Some P \<Longrightarrow> heap S cptr = None \<Longrightarrow> has_room (next_pid S) (ptbl S) \<Longrightarrow>
    next_pid S + 1 \<noteq> 0 \<Longrightarrow> sys_fork pp cptr S = Some (r, S') \<Longrightarrow> proc_reach S'"
| pr_exit: "proc_reach S \<Longrightarrow> proc_reach (proc_exit ptr code S)"
| pr_wait: "proc_reach S \<Longrightarrow> proc_reach (snd (sys_wait4 pp pid sp opts S))"

lemma find_zombie_kid:
  assumes "proc_inv S" "heap S pp = Some P" "find_zombie pp pid S = Some (c, code)"
  shows "c \<in> kids P \<and> \<not> (0 < pid \<and> c \<noteq> word_of_int pid) \<and>
    (\<exists>ptr q. ptable_find c (ptbl S) = Some ptr \<and> heap S ptr = Some q \<and> p_state q = Zombie \<and> exit_code q = code)"
  using zombie_scan_Some[of S pid "children P" c code] assms(2,3) by (auto simp: find_zombie_def kids_def split: if_splits)

lemma sys_wait4_inv:
  assumes inv: "proc_inv S"
  shows "proc_inv (snd (sys_wait4 pp pid sp opts S))"
proof (cases "heap S pp")
  case (Some P)
  have "proc_inv (reap_zombie pp c S)" if "find_zombie pp pid S = Some (c, code)" for c code
    using find_zombie_kid[OF inv Some that] reap_zombie_spec[OF inv Some] by blast
  then show ?thesis using inv Some by (auto simp: sys_wait4_def split: option.split)
qed (use inv in \<open>simp add: sys_wait4_def\<close>)

lemma boot_inv: "proc_inv (boot_sys ptr)"
proof -
  have "ptable_find p (ptable_insert 1 ptr ptable_new) = (if p = 1 then Some ptr else None)" for p
    using ptable_insert_spec(2)[OF ptable_new_inv(1), of p 1 ptr] ptable_new_inv(2)[of p] by simp
  moreover have "offspring (boot_sys ptr) 1 = {}" by (auto simp: offspring_def boot_sys_def new_process_def split: if_splits)
  ultimately show ?thesis
    using ptable_insert_spec(1)[OF ptable_new_inv(1)]
    by (auto simp: proc_inv_def proc_ok_def boot_sys_def split: if_splits)
qed

lemma proc_reach_inv: "proc_reach S \<Longrightarrow> proc_inv S"
proof (induction rule: proc_reach.induct)
  case (pr_fork S pp P cptr r S')
  then show ?case using sys_fork_spec[OF pr_fork.IH pr_fork(2-6)] by auto
qed (simp_all add: boot_inv proc_exit_inv sys_wait4_inv)


text \<open>A parent at \<open>0x8000\<close> forks a child at \<open>0x9000\<close> that exits with code 7.\<close>

definition demo_fork :: proc_sys where
  "demo_fork = \<lparr>heap = [0x8000 \<mapsto> snd (add_child 2 (new_process 1 0)), 0x9000 \<mapsto> new_process 2 1],
     ptbl = ptable_insert 2 0x9000 (ptable_insert 1 0x8000 ptable_new),
     flat = 0x8000 # 0x9000 # replicate (MAX_PROCESSES - 2) 0, next_pid = 3\<rparr>"

lemma demo_find: "ptable_find p (ptbl demo_fork) = [1 \<mapsto> 0x8000, 2 \<mapsto> 0x9000] p"
proof -
  note T1 = ptable_insert_spec(1)[OF ptable_new_inv(1), of 1 "0x8000"]
  have "has_room 2 (ptable_insert 1 0x8000 ptable_new)"
    using has_room_other_bucket[OF ptable_new_inv(1), of 2 1] by (simp add: ptable_bucket_def)
  then show ?thesis
    using ptable_insert_spec(2)[OF T1, of p 2 "0x9000"] ptable_insert_spec(2)[OF ptable_new_inv(1), of p 1 "0x8000"] ptable_new_inv(2)[of p]
    by (simp add: demo_fork_def)
qed

lemma demo_rows: "replicate MAX_CHILDREN 0 = (0 :: u32) # replicate 31 0" "replicate (MAX_PROCESSES - Suc 0) 0 = (0 :: u64) # replicate (MAX_PROCESSES - 2) 0"
  by (simp_all add: MAX_CHILDREN_def MAX_PROCESSES_def numeral_eq_Suc)

lemma demo_fork_reach: "proc_reach demo_fork"
proof (rule pr_fork[OF pr_boot[of "0x8000"]])
  show "sys_fork 0x8000 0x9000 (boot_sys 0x8000) = Some (2, demo_fork)"
    by (simp add: sys_fork_def boot_sys_def demo_fork_def add_child_def new_process_def children_full_def
        register_process_def demo_rows fun_upd_twist)
  show "has_room (next_pid (boot_sys 0x8000)) (ptbl (boot_sys 0x8000))"
    using has_room_other_bucket[OF ptable_new_inv(1), of 2 1] by (simp add: ptable_bucket_def boot_sys_def)
qed (simp_all add: boot_sys_def)

definition demo_parent :: Process where
  "demo_parent = \<lparr>p_pid = 1, p_state = Running, exit_code = 0, parent_pid = 0, pending_bits = push_bit SIGCHLD 1,
     children = 2 # replicate 31 0, child_count = 1, child_exit_seq = 1\<rparr>"

lemma demo_exit:
  "heap (proc_exit 0x9000 7 demo_fork) = [0x8000 \<mapsto> demo_parent, 0x9000 \<mapsto> (new_process 2 1)\<lparr>p_state := Zombie, exit_code := 7\<rparr>]"
  "ptbl (proc_exit 0x9000 7 demo_fork) = ptbl demo_fork"
proof -
  have P: "snd (add_child 2 (new_process 1 0)) =
      \<lparr>p_pid = 1, p_state = Running, exit_code = 0, parent_pid = 0, pending_bits = 0, children = 2 # replicate 31 0, child_count = 1, child_exit_seq = 0\<rparr>"
    by (simp add: add_child_def new_process_def demo_rows)
  have h: "heap demo_fork = [0x8000 \<mapsto> snd (add_child 2 (new_process 1 0)), 0x9000 \<mapsto> new_process 2 1]" by (simp add: demo_fork_def)
  show "heap (proc_exit 0x9000 7 demo_fork) = [0x8000 \<mapsto> demo_parent, 0x9000 \<mapsto> (new_process 2 1)\<lparr>p_state := Zombie, exit_code := 7\<rparr>]"
    by (simp add: proc_exit_def demo_find h P demo_parent_def fun_upd_twist)
  show "ptbl (proc_exit 0x9000 7 demo_fork) = ptbl demo_fork"
    by (simp add: proc_exit_def Let_def split: option.split)
qed

lemma demo_wait: "fst (sys_wait4 0x8000 (- 1) 0x400000 0 (proc_exit 0x9000 7 demo_fork)) = WaitRet 2 (Some 0x700)"
  by (simp add: sys_wait4_def find_zombie_def demo_exit demo_find demo_parent_def is_user_ptr_def USER_MIN_def USER_TOP_def encode_exit_status_def)


text \<open>
  C28: waiting for a process that is not a child.  In every reachable state, \<open>wait4\<close> for
  a positive identifier that no child of the caller has, made by a caller with
  children and without \<open>WNOHANG\<close>, blocks; it does not report \<open>ECHILD\<close>.
\<close>

theorem wait4_stranger_blocks:
  assumes "proc_reach S" "heap S pp = Some P" "offspring S (p_pid P) \<noteq> {}"
    "0 < pid" "word_of_int pid \<notin> offspring S (p_pid P)" "opts AND WNOHANG = 0"
  shows "sys_wait4 pp pid sp opts S = (WaitBlock, S)"
proof -
  have inv: "proc_inv S" by (rule proc_reach_inv[OF assms(1)])
  have k: "kids P = offspring S (p_pid P)" "kids_ok P" using proc_invD(1)[OF inv assms(2)] by (auto simp: proc_ok_def)
  have "child_count P \<noteq> 0" using kids_count[OF k(2)] k(1) assms(3) by simp
  moreover have "find_zombie pp pid S = None"
    using find_zombie_kid[OF inv assms(2), of pid] k(1) assms(4,5) by (cases "find_zombie pp pid S") auto
  ultimately show ?thesis using assms(2,4,6) by (simp add: sys_wait4_def)
qed

theorem wait4_stranger_blocks_witness:
  "sys_wait4 0x8000 77 0 0 demo_fork = (WaitBlock, demo_fork)"
proof -
  have P: "heap demo_fork 0x8000 = Some (snd (add_child 2 (new_process 1 0)))" by (simp add: demo_fork_def)
  have "offspring demo_fork (p_pid (snd (add_child 2 (new_process 1 0)))) = {2}"
    by (auto simp: offspring_def demo_fork_def add_child_def new_process_def demo_rows split: if_splits intro!: exI[of _ "0x9000"])
  then show ?thesis using wait4_stranger_blocks[OF demo_fork_reach P, of 77 0 0] by simp
qed

end
