(* ===== verification/Bounded_Queues.thy ===== *)
theory Bounded_Queues
  imports Rumicos_Prelude
begin

text \<open>
  The contract of the kernel's bounded queues.  The scheduler's run queues, the
  single- and multi-producer rings of the message crate and the virtqueue all
  promise the same thing: a push into a queue with room appends, a push into a
  full queue is refused and changes nothing, a pop takes the oldest element.
  Clients reason about whole schedules of pushes and pops through \<open>fifo_run\<close>.
\<close>

datatype 'a fifo_op = Push_op 'a | Pop_op

datatype 'a fifo_res = Accepted 'a | Rejected | Got 'a | Nothing

fun fifo_run ::
  "('q \<Rightarrow> 'a \<Rightarrow> 'q option) \<Rightarrow> ('q \<Rightarrow> ('a \<times> 'q) option) \<Rightarrow> 'q \<Rightarrow> 'a fifo_op list \<Rightarrow> 'a fifo_res list \<times> 'q"
where
  "fifo_run push pop q [] = ([], q)"
| "fifo_run push pop q (Push_op x # ops) =
     (case push q x of
        Some q' \<Rightarrow> (let (rs, r) = fifo_run push pop q' ops in (Accepted x # rs, r))
      | None \<Rightarrow> (let (rs, r) = fifo_run push pop q ops in (Rejected # rs, r)))"
| "fifo_run push pop q (Pop_op # ops) =
     (case pop q of
        Some (x, q') \<Rightarrow> (let (rs, r) = fifo_run push pop q' ops in (Got x # rs, r))
      | None \<Rightarrow> (let (rs, r) = fifo_run push pop q ops in (Nothing # rs, r)))"

text \<open>The reference queue is a list with a capacity.\<close>

definition list_push :: "nat \<Rightarrow> 'a list \<Rightarrow> 'a \<Rightarrow> 'a list option" where
  "list_push cap xs x = (if length xs < cap then Some (xs @ [x]) else None)"

definition list_pop :: "'a list \<Rightarrow> ('a \<times> 'a list) option" where
  "list_pop xs = (case xs of [] \<Rightarrow> None | y # ys \<Rightarrow> Some (y, ys))"

lemma list_pop_simps [simp]: "list_pop [] = None" "list_pop (y # ys) = Some (y, ys)"
  by (simp_all add: list_pop_def)

text \<open>What went in and what came out of a schedule.\<close>

fun accepted :: "'a fifo_res list \<Rightarrow> 'a list" where
  "accepted [] = []"
| "accepted (Accepted x # rs) = x # accepted rs"
| "accepted (_ # rs) = accepted rs"

fun delivered :: "'a fifo_res list \<Rightarrow> 'a list" where
  "delivered [] = []"
| "delivered (Got x # rs) = x # delivered rs"
| "delivered (_ # rs) = delivered rs"

lemma list_queue_conserves:
  "fifo_run (list_push cap) list_pop xs ops = (rs, ys) \<Longrightarrow> xs @ accepted rs = delivered rs @ ys"
proof (induction ops arbitrary: xs rs)
  case (Cons op ops)
  show ?case
  proof (cases op)
    case (Push_op x)
    with Cons.prems Cons.IH show ?thesis
      by (auto simp: list_push_def split: prod.splits if_splits) fastforce
  next
    case Pop_op
    with Cons.prems Cons.IH show ?thesis
      by (cases xs) (fastforce split: prod.splits)+
  qed
qed auto

locale bounded_fifo =
  fixes push :: "'q \<Rightarrow> 'a \<Rightarrow> 'q option"
    and pop :: "'q \<Rightarrow> ('a \<times> 'q) option"
    and contents :: "'q \<Rightarrow> 'a list"
    and invar :: "'q \<Rightarrow> bool"
    and cap :: nat
  assumes push_room:
      "invar q \<Longrightarrow> length (contents q) < cap \<Longrightarrow>
       \<exists>q'. push q x = Some q' \<and> invar q' \<and> contents q' = contents q @ [x]"
    and push_full: "invar q \<Longrightarrow> cap \<le> length (contents q) \<Longrightarrow> push q x = None"
    and pop_oldest:
      "invar q \<Longrightarrow> contents q = y # ys \<Longrightarrow>
       \<exists>q'. pop q = Some (y, q') \<and> invar q' \<and> contents q' = ys"
    and pop_empty: "invar q \<Longrightarrow> contents q = [] \<Longrightarrow> pop q = None"
begin

lemma push_sim: "invar q \<Longrightarrow> map_option contents (push q x) = list_push cap (contents q) x"
  using push_room[of q x] push_full[of q x] by (auto simp: list_push_def not_less)

lemma pop_sim: "invar q \<Longrightarrow> map_option (map_prod id contents) (pop q) = list_pop (contents q)"
  using pop_oldest[of q] pop_empty[of q] by (cases "contents q") (auto simp: list_pop_def)

lemma push_invar: "invar q \<Longrightarrow> push q x = Some q' \<Longrightarrow> invar q'"
  using push_room[of q x] push_full[of q x] by (cases "length (contents q) < cap") auto

lemma pop_invar: "invar q \<Longrightarrow> pop q = Some (y, q') \<Longrightarrow> invar q'"
  using pop_oldest[of q] pop_empty[of q] by (cases "contents q") auto

lemma run_refines:
  "invar q \<Longrightarrow> fifo_run push pop q ops = (rs, q') \<Longrightarrow>
   invar q' \<and> fifo_run (list_push cap) list_pop (contents q) ops = (rs, contents q')"
proof (induction ops arbitrary: q rs)
  case (Cons op ops)
  show ?case
  proof (cases op)
    case (Push_op x)
    with Cons push_sim[of q x] push_invar[of q x] show ?thesis
      by (cases "push q x"; cases "list_push cap (contents q) x") (auto split: prod.splits)
  next
    case Pop_op
    with Cons pop_sim[of q] pop_invar[of q] show ?thesis
      by (cases "pop q"; cases "list_pop (contents q)") (auto split: prod.splits)
  qed
qed auto

lemma run_conserves:
  "invar q \<Longrightarrow> fifo_run push pop q ops = (rs, q') \<Longrightarrow>
   contents q @ accepted rs = delivered rs @ contents q'"
  using run_refines list_queue_conserves by blast

end

end
