(* ===== verification/Run_Queue.thy ===== *)
theory Run_Queue
  imports Bounded_Queues "HOL-Library.Multiset"
begin

text \<open>
  Run queues of the scheduler (\<open>sched/queue.rs\<close>): a ring of thread pointers per
  priority level, and the multi-level feedback queue over eight of them.  Every
  operation runs under the lock of the CPU that owns the queue, so the
  compare-exchange of \<open>pop\<close> never fails and an operation is one step.
\<close>

definition MLFQ_LEVELS :: nat where "MLFQ_LEVELS = 8"
definition QUEUE_DEPTH :: nat where "QUEUE_DEPTH = 256"
definition BOOST_INTERVAL :: nat where "BOOST_INTERVAL = 1000"

definition timeslice :: "nat \<Rightarrow> u32" where
  "timeslice level = push_bit level 1"

text \<open>The scheduling part of the thread control block.\<close>

datatype ThreadState = Runnable | Running | Blocked | Dead

record Thread =
  t_state :: ThreadState
  t_cpu :: u32
  priority :: u8
  ticks_used :: u32

type_synonym threads = "u64 \<Rightarrow> Thread"

section \<open>Ring queues\<close>

record RingQueue =
  rq_buf :: "u64 list"
  rq_head :: nat
  rq_tail :: nat

definition RingQueue_new :: RingQueue where
  "RingQueue_new = \<lparr>rq_buf = replicate QUEUE_DEPTH 0, rq_head = 0, rq_tail = 0\<rparr>"

definition ring_push :: "RingQueue \<Rightarrow> u64 \<Rightarrow> RingQueue option" where
  "ring_push q thread =
     (let nxt = (rq_tail q + 1) mod QUEUE_DEPTH in
      if nxt = rq_head q then None
      else Some (q\<lparr>rq_buf := (rq_buf q)[rq_tail q := thread], rq_tail := nxt\<rparr>))"

definition ring_pop :: "RingQueue \<Rightarrow> (u64 \<times> RingQueue) option" where
  "ring_pop q =
     (if rq_head q = rq_tail q then None
      else Some (rq_buf q ! rq_head q, q\<lparr>rq_head := (rq_head q + 1) mod QUEUE_DEPTH\<rparr>))"

definition ring_ok :: "RingQueue \<Rightarrow> bool" where
  "ring_ok q \<longleftrightarrow> length (rq_buf q) = QUEUE_DEPTH \<and> rq_head q < QUEUE_DEPTH \<and> rq_tail q < QUEUE_DEPTH"

definition ring_fill :: "RingQueue \<Rightarrow> nat" where
  "ring_fill q = (rq_tail q + QUEUE_DEPTH - rq_head q) mod QUEUE_DEPTH"

definition ring_contents :: "RingQueue \<Rightarrow> u64 list" where
  "ring_contents q = window (rq_buf q) (rq_head q) (ring_fill q)"

lemma length_ring_contents [simp]: "length (ring_contents q) = ring_fill q"
  by (simp add: ring_contents_def)

lemma ring_new [simp]: "ring_ok RingQueue_new" "ring_contents RingQueue_new = []"
  by (simp_all add: RingQueue_new_def ring_ok_def ring_contents_def ring_fill_def QUEUE_DEPTH_def)

text \<open>The fill level in terms of the cursors, free of the modulus.\<close>

lemma ring_fill_alt:
  assumes "ring_ok q"
  shows "ring_fill q = (if rq_head q \<le> rq_tail q then rq_tail q - rq_head q else rq_tail q + QUEUE_DEPTH - rq_head q)"
proof (cases "rq_head q \<le> rq_tail q")
  case True
  then have "rq_tail q + QUEUE_DEPTH - rq_head q = (rq_tail q - rq_head q) + QUEUE_DEPTH" by simp
  moreover have "rq_tail q - rq_head q < QUEUE_DEPTH" using assms by (auto simp: ring_ok_def)
  ultimately show ?thesis using True unfolding ring_fill_def by (simp only: mod_add_self2) simp
next
  case False
  then have "rq_tail q + QUEUE_DEPTH - rq_head q < QUEUE_DEPTH" using assms by (auto simp: ring_ok_def)
  then show ?thesis using False by (simp add: ring_fill_def)
qed

lemma ring_fill_less: "ring_fill q < QUEUE_DEPTH"
  by (simp add: ring_fill_def QUEUE_DEPTH_def)

lemma ring_tail_window:
  assumes "ring_ok q"
  shows "rq_tail q = (rq_head q + ring_fill q) mod QUEUE_DEPTH"
  using assms unfolding ring_fill_alt[OF assms] by (auto simp: ring_ok_def)

lemma ring_full_iff:
  assumes "ring_ok q"
  shows "(rq_tail q + 1) mod QUEUE_DEPTH = rq_head q \<longleftrightarrow> ring_fill q = QUEUE_DEPTH - 1"
  using assms unfolding ring_fill_alt[OF assms] ring_ok_def by (auto simp: mod_Suc QUEUE_DEPTH_def)

lemma ring_push_fill:
  assumes "ring_ok q" "ring_push q t = Some q'"
  shows "ring_ok q'" "ring_fill q' = ring_fill q + 1"
proof -
  have q': "q' = q\<lparr>rq_buf := (rq_buf q)[rq_tail q := t], rq_tail := (rq_tail q + 1) mod QUEUE_DEPTH\<rparr>"
    and nf: "(rq_tail q + 1) mod QUEUE_DEPTH \<noteq> rq_head q"
    using assms(2) by (auto simp: ring_push_def Let_def split: if_splits)
  show ok: "ring_ok q'" using assms(1) q' by (simp add: ring_ok_def QUEUE_DEPTH_def)
  show "ring_fill q' = ring_fill q + 1"
    using assms(1) nf unfolding ring_fill_alt[OF ok] ring_fill_alt[OF assms(1)]
    by (auto simp: q' ring_ok_def mod_Suc QUEUE_DEPTH_def split: if_splits)
qed

interpretation rq: bounded_fifo ring_push ring_pop ring_contents ring_ok "QUEUE_DEPTH - 1"
proof
  fix q x assume ok: "ring_ok q" and room: "length (ring_contents q) < QUEUE_DEPTH - 1"
  then obtain q' where q': "ring_push q x = Some q'"
    using ring_full_iff[OF ok] by (auto simp: ring_push_def Let_def)
  note f = ring_push_fill[OF ok q']
  have l: "length (rq_buf q) = QUEUE_DEPTH" using ok by (simp add: ring_ok_def)
  have "rq_head q' = rq_head q" "rq_buf q' = (rq_buf q)[(rq_head q + ring_fill q) mod length (rq_buf q) := x]"
    using q' ring_tail_window[OF ok] l by (auto simp: ring_push_def Let_def split: if_splits)
  then have "ring_contents q' = ring_contents q @ [x]"
    using window_push[of "ring_fill q" "rq_buf q" "rq_head q" x] f(2) l ring_fill_less[of q] by (simp add: ring_contents_def)
  with q' f(1) show "\<exists>q'. ring_push q x = Some q' \<and> ring_ok q' \<and> ring_contents q' = ring_contents q @ [x]" by blast
next
  fix q x assume "ring_ok q" "QUEUE_DEPTH - 1 \<le> length (ring_contents q)"
  then show "ring_push q x = None"
    using ring_full_iff[of q] ring_fill_less[of q] by (auto simp: ring_push_def Let_def)
next
  fix q y ys assume ok: "ring_ok q" and c: "ring_contents q = y # ys"
  then have pos: "0 < ring_fill q" using length_ring_contents[of q] by simp
  let ?q = "q\<lparr>rq_head := (rq_head q + 1) mod QUEUE_DEPTH\<rparr>"
  have ok': "ring_ok ?q" using ok by (simp add: ring_ok_def QUEUE_DEPTH_def)
  have f: "ring_fill ?q = ring_fill q - 1"
    using ok pos unfolding ring_fill_alt[OF ok'] ring_fill_alt[OF ok]
    by (auto simp: ring_ok_def mod_Suc QUEUE_DEPTH_def split: if_splits)
  have l: "length (rq_buf q) = QUEUE_DEPTH" "rq_head q < QUEUE_DEPTH" using ok by (simp_all add: ring_ok_def)
  have w: "window (rq_buf q) (rq_head q) (ring_fill q) = rq_buf q ! rq_head q # window (rq_buf q) (rq_head q + 1) (ring_fill q - 1)"
    using window_Cons[OF pos, of "rq_buf q" "rq_head q"] l by simp
  have "ring_contents ?q = ys" "rq_buf q ! rq_head q = y"
    using w c window_mod[of "rq_buf q" "rq_head q + 1"] f l(1) by (simp_all add: ring_contents_def)
  moreover have "rq_head q \<noteq> rq_tail q" using pos ring_fill_alt[OF ok] by auto
  ultimately show "\<exists>q'. ring_pop q = Some (y, q') \<and> ring_ok q' \<and> ring_contents q' = ys"
    using ok' by (simp add: ring_pop_def)
next
  fix q assume ok: "ring_ok q" and "ring_contents q = []"
  then have "ring_fill q = 0" using length_ring_contents[of q] by simp
  then show "ring_pop q = None"
    using ok ring_fill_alt[OF ok] by (auto simp: ring_pop_def ring_ok_def split: if_splits)
qed

section \<open>The multi-level feedback queue\<close>

record MlfqQueue =
  mq_levels :: "RingQueue list"
  mq_total :: u32

definition MlfqQueue_new :: MlfqQueue where
  "MlfqQueue_new = \<lparr>mq_levels = replicate MLFQ_LEVELS RingQueue_new, mq_total = 0\<rparr>"

definition mlfq_push :: "u64 \<Rightarrow> nat \<Rightarrow> MlfqQueue \<Rightarrow> bool \<times> MlfqQueue" where
  "mlfq_push thread level q =
     (let level = min level (MLFQ_LEVELS - 1) in
      case ring_push (mq_levels q ! level) thread of
        Some r \<Rightarrow> (True, q\<lparr>mq_levels := (mq_levels q)[level := r], mq_total := mq_total q + 1\<rparr>)
      | None \<Rightarrow> (False, q))"

fun pop_scan :: "RingQueue list \<Rightarrow> (u64 \<times> RingQueue list) option" where
  "pop_scan [] = None"
| "pop_scan (r # rs) =
     (case ring_pop r of
        Some (t, r') \<Rightarrow> Some (t, r' # rs)
      | None \<Rightarrow> (case pop_scan rs of Some (t, rs') \<Rightarrow> Some (t, r # rs') | None \<Rightarrow> None))"

definition mlfq_pop :: "MlfqQueue \<Rightarrow> (u64 \<times> MlfqQueue) option" where
  "mlfq_pop q =
     (case pop_scan (mq_levels q) of
        Some (t, ls) \<Rightarrow> Some (t, q\<lparr>mq_levels := ls, mq_total := mq_total q - 1\<rparr>)
      | None \<Rightarrow> None)"

definition mlfq_is_empty :: "MlfqQueue \<Rightarrow> bool" where
  "mlfq_is_empty q \<longleftrightarrow> mq_total q = 0"

text \<open>The first argument of the loop counts the threads still to steal.\<close>

fun steal_loop :: "threads \<Rightarrow> nat \<Rightarrow> MlfqQueue \<Rightarrow> MlfqQueue \<Rightarrow> nat \<times> MlfqQueue \<times> MlfqQueue" where
  "steal_loop th 0 src dst = (0, src, dst)"
| "steal_loop th (Suc n) src dst =
     (case mlfq_pop src of
        None \<Rightarrow> (0, src, dst)
      | Some (thread, src') \<Rightarrow>
          (let level = unat (priority (th thread)); (ok, dst') = mlfq_push thread level dst in
           if \<not> ok then (0, snd (mlfq_push thread level src'), dst)
           else let (stolen, s, d) = steal_loop th n src' dst' in (Suc stolen, s, d)))"

definition steal_into :: "threads \<Rightarrow> MlfqQueue \<Rightarrow> MlfqQueue \<Rightarrow> nat \<Rightarrow> nat \<times> MlfqQueue \<times> MlfqQueue" where
  "steal_into th src dst n = steal_loop th n src dst"

text \<open>The loop that empties one level into level 0.\<close>

partial_function (option) boost_level :: "nat \<Rightarrow> MlfqQueue \<times> threads \<Rightarrow> (MlfqQueue \<times> threads) option" where
  "boost_level level st =
     (case ring_pop (mq_levels (fst st) ! level) of
        None \<Rightarrow> Some st
      | Some (thread, r) \<Rightarrow>
          (let q = (fst st)\<lparr>mq_levels := (mq_levels (fst st))[level := r]\<rparr>;
               th = (snd st)(thread := (snd st thread)\<lparr>priority := 0, ticks_used := 0\<rparr>) in
           case ring_push (mq_levels q ! 0) thread of
             Some r0 \<Rightarrow> boost_level level (q\<lparr>mq_levels := (mq_levels q)[0 := r0]\<rparr>, th)
           | None \<Rightarrow>
               (case ring_push r thread of
                  Some r' \<Rightarrow> Some (q\<lparr>mq_levels := (mq_levels q)[level := r']\<rparr>, th)
                | None \<Rightarrow> Some (q, th))))"

fun boost_levels :: "nat list \<Rightarrow> MlfqQueue \<times> threads \<Rightarrow> (MlfqQueue \<times> threads) option" where
  "boost_levels [] st = Some st"
| "boost_levels (l # ls) st = (case boost_level l st of Some st' \<Rightarrow> boost_levels ls st' | None \<Rightarrow> None)"

definition boost_all :: "MlfqQueue \<times> threads \<Rightarrow> (MlfqQueue \<times> threads) option" where
  "boost_all st = boost_levels [1..<MLFQ_LEVELS] st"

section \<open>Contents of the levels\<close>

abbreviation LEVEL_CAP :: nat where
  "LEVEL_CAP \<equiv> QUEUE_DEPTH - 1"

definition levels :: "MlfqQueue \<Rightarrow> u64 list list" where
  "levels q = map ring_contents (mq_levels q)"

definition queued :: "MlfqQueue \<Rightarrow> u64 multiset" where
  "queued q = mset (concat (levels q))"

definition mlfq_ok :: "MlfqQueue \<Rightarrow> bool" where
  "mlfq_ok q \<longleftrightarrow> length (mq_levels q) = MLFQ_LEVELS \<and> list_all ring_ok (mq_levels q) \<and>
     mq_total q = of_nat (size (queued q))"

lemma mlfq_new [simp]: "mlfq_ok MlfqQueue_new" "levels MlfqQueue_new = replicate MLFQ_LEVELS []" "queued MlfqQueue_new = {#}"
  by (simp_all add: mlfq_ok_def levels_def queued_def MlfqQueue_new_def list_all_iff)

lemma length_levels: "mlfq_ok q \<Longrightarrow> length (levels q) = MLFQ_LEVELS"
  by (simp add: mlfq_ok_def levels_def)

lemma mlfq_level:
  assumes "mlfq_ok q" "i < MLFQ_LEVELS"
  shows "ring_ok (mq_levels q ! i)" "levels q ! i = ring_contents (mq_levels q ! i)"
  using assms by (simp_all add: mlfq_ok_def list_all_length levels_def)

lemma level_bound: "mlfq_ok q \<Longrightarrow> i < MLFQ_LEVELS \<Longrightarrow> length (levels q ! i) \<le> LEVEL_CAP"
  using ring_fill_less[of "mq_levels q ! i"] by (simp add: mlfq_level)

lemma mset_concat_update:
  assumes "i < length xss"
  shows "mset (concat (xss[i := ys])) + mset (xss ! i) = mset (concat xss) + mset ys"
proof -
  have "xss[i := ys] = take i xss @ ys # drop (Suc i) xss" "xss = take i xss @ xss ! i # drop (Suc i) xss"
    using assms by (simp_all add: upd_conv_take_nth_drop id_take_nth_drop)
  then have "mset (concat (xss[i := ys])) = mset (concat (take i xss @ ys # drop (Suc i) xss))"
    "mset (concat xss) = mset (concat (take i xss @ xss ! i # drop (Suc i) xss))" by simp_all
  then show ?thesis by simp
qed

text \<open>Replacing the ring of one level.\<close>

lemma mlfq_set_level:
  assumes ok: "mlfq_ok q" and i: "i < MLFQ_LEVELS" and r: "ring_ok r"
    and q': "mq_levels q' = (mq_levels q)[i := r]"
  shows "mq_total q' = of_nat (size (queued q')) \<Longrightarrow> mlfq_ok q'" "levels q' = (levels q)[i := ring_contents r]"
  using assms by (auto simp: mlfq_ok_def levels_def map_update list_all_length nth_list_update)

lemma queued_update:
  assumes "mlfq_ok q" "i < MLFQ_LEVELS" "levels q' = (levels q)[i := xs]"
  shows "queued q' + mset (levels q ! i) = queued q + mset xs"
  using mset_concat_update[of i "levels q" xs] assms length_levels[OF assms(1)] by (simp add: queued_def)

lemma min_level: "min level (MLFQ_LEVELS - 1) < MLFQ_LEVELS"
  by (simp add: MLFQ_LEVELS_def)

lemma mlfq_push_ok:
  assumes ok: "mlfq_ok q" and l: "l = min level (MLFQ_LEVELS - 1)" and room: "length (levels q ! l) < LEVEL_CAP"
  shows "\<exists>q'. mlfq_push t level q = (True, q') \<and> mlfq_ok q' \<and> levels q' = (levels q)[l := levels q ! l @ [t]] \<and>
    queued q' = add_mset t (queued q)"
proof -
  have lt: "l < MLFQ_LEVELS" unfolding l by (rule min_level)
  obtain r where r: "ring_push (mq_levels q ! l) t = Some r" "ring_ok r" "ring_contents r = levels q ! l @ [t]"
    using rq.push_room[OF mlfq_level(1)[OF ok lt]] room by (auto simp: mlfq_level[OF ok lt])
  let ?q = "q\<lparr>mq_levels := (mq_levels q)[l := r], mq_total := mq_total q + 1\<rparr>"
  have lv: "levels ?q = (levels q)[l := levels q ! l @ [t]]" using mlfq_set_level(2)[OF ok lt r(2), of ?q] r(3) by simp
  have "queued ?q + mset (levels q ! l) = queued q + mset (levels q ! l @ [t])" by (rule queued_update[OF ok lt lv])
  then have m: "queued ?q = add_mset t (queued q)" by simp
  then have "mq_total q + 1 = of_nat (size (queued ?q))" using ok by (simp add: mlfq_ok_def add.commute)
  then have "mlfq_ok ?q" using mlfq_set_level(1)[OF ok lt r(2), of ?q] by simp
  then show ?thesis using r(1) lv m l by (simp add: mlfq_push_def Let_def)
qed

lemma mlfq_push_full:
  assumes ok: "mlfq_ok q" and l: "l = min level (MLFQ_LEVELS - 1)" and full: "length (levels q ! l) = LEVEL_CAP"
  shows "mlfq_push t level q = (False, q)"
proof -
  have lt: "l < MLFQ_LEVELS" unfolding l by (rule min_level)
  have "ring_push (mq_levels q ! l) t = None"
    using rq.push_full[OF mlfq_level(1)[OF ok lt]] full by (simp add: mlfq_level[OF ok lt])
  then show ?thesis using l by (simp add: mlfq_push_def Let_def)
qed

lemma pop_scan_empty:
  "list_all ring_ok rs \<Longrightarrow> concat (map ring_contents rs) = [] \<Longrightarrow> pop_scan rs = None"
  by (induction rs) (auto simp: rq.pop_empty)

lemma pop_scan_first:
  "list_all ring_ok rs \<Longrightarrow> concat (map ring_contents rs) \<noteq> [] \<Longrightarrow>
   \<exists>i t ts rs'. pop_scan rs = Some (t, rs') \<and> i < length rs \<and> map ring_contents rs ! i = t # ts \<and>
     (\<forall>j < i. map ring_contents rs ! j = []) \<and> list_all ring_ok rs' \<and> map ring_contents rs' = (map ring_contents rs)[i := ts]"
proof (induction rs)
  case (Cons r rs)
  show ?case
  proof (cases "ring_contents r")
    case Nil
    then have n: "ring_pop r = None" using Cons.prems by (simp add: rq.pop_empty)
    from Cons Nil obtain i t ts rs' where i: "pop_scan rs = Some (t, rs')" "i < length rs" "map ring_contents rs ! i = t # ts"
      "\<forall>j < i. map ring_contents rs ! j = []" "list_all ring_ok rs'" "map ring_contents rs' = (map ring_contents rs)[i := ts]" by auto
    have "\<forall>j < Suc i. map ring_contents (r # rs) ! j = []" using i(4) Nil by (auto simp: less_Suc_eq_0_disj)
    then show ?thesis using i n Cons.prems by (intro exI[of _ "Suc i"] exI[of _ t] exI[of _ ts] exI[of _ "r # rs'"]) auto
  next
    case (Cons t ts)
    then obtain r' where "ring_pop r = Some (t, r')" "ring_ok r'" "ring_contents r' = ts"
      using rq.pop_oldest[of r t ts] \<open>list_all ring_ok (r # rs)\<close> by auto
    then show ?thesis using Cons \<open>list_all ring_ok (r # rs)\<close>
      by (intro exI[of _ 0] exI[of _ t] exI[of _ ts] exI[of _ "r' # rs"]) auto
  qed
qed simp

lemma mlfq_pop_empty: "mlfq_ok q \<Longrightarrow> queued q = {#} \<Longrightarrow> mlfq_pop q = None"
  using pop_scan_empty[of "mq_levels q"] by (simp add: mlfq_pop_def mlfq_ok_def queued_def levels_def)

lemma mlfq_pop_first:
  assumes ok: "mlfq_ok q" and ne: "queued q \<noteq> {#}"
  shows "\<exists>l t ts q'. mlfq_pop q = Some (t, q') \<and> l < MLFQ_LEVELS \<and> levels q ! l = t # ts \<and> (\<forall>j < l. levels q ! j = []) \<and>
    mlfq_ok q' \<and> levels q' = (levels q)[l := ts] \<and> queued q = add_mset t (queued q')"
proof -
  have rs: "list_all ring_ok (mq_levels q)" "concat (map ring_contents (mq_levels q)) \<noteq> []" "length (mq_levels q) = MLFQ_LEVELS"
    using ok ne by (auto simp: mlfq_ok_def queued_def levels_def)
  obtain l t ts rs' where l: "pop_scan (mq_levels q) = Some (t, rs')" "l < MLFQ_LEVELS" "levels q ! l = t # ts"
      "\<forall>j < l. levels q ! j = []" "list_all ring_ok rs'" "map ring_contents rs' = (levels q)[l := ts]"
    using pop_scan_first[OF rs(1,2)] rs(3) by (auto simp: levels_def)
  let ?q = "q\<lparr>mq_levels := rs', mq_total := mq_total q - 1\<rparr>"
  have lv: "levels ?q = (levels q)[l := ts]" using l(6) by (simp add: levels_def)
  have m: "queued q = add_mset t (queued ?q)"
    using queued_update[OF ok l(2) lv] l(3) by simp
  have "mq_total q = of_nat (size (queued q))" using ok by (simp add: mlfq_ok_def)
  then have "mq_total q = of_nat (Suc (size (queued ?q)))" unfolding m by simp
  moreover have "x = of_nat (Suc k) \<Longrightarrow> x - 1 = of_nat k" for x :: u32 and k by simp
  ultimately have "mq_total q - 1 = of_nat (size (queued ?q))" by blast
  moreover have "length rs' = MLFQ_LEVELS" using arg_cong[OF l(6), of length] length_levels[OF ok] by simp
  ultimately have "mlfq_ok ?q" using l(5) by (simp add: mlfq_ok_def)
  then show ?thesis using l lv m by (intro exI[of _ l] exI[of _ t] exI[of _ ts] exI[of _ ?q]) (simp add: mlfq_pop_def)
qed

section \<open>Stealing and boosting lose no thread\<close>

text \<open>
  A thread sits at the level of its priority, or (after a boost that found level 0
  full) at a higher level with priority 0.
\<close>

definition aligned :: "threads \<Rightarrow> MlfqQueue \<Rightarrow> bool" where
  "aligned th q \<longleftrightarrow> (\<forall>l < MLFQ_LEVELS. \<forall>t \<in> set (levels q ! l).
     min (unat (priority (th t))) (MLFQ_LEVELS - 1) = l \<or> priority (th t) = 0)"

lemma alignedD:
  "aligned th q \<Longrightarrow> l < MLFQ_LEVELS \<Longrightarrow> t \<in> set (levels q ! l) \<Longrightarrow>
   min (unat (priority (th t))) (MLFQ_LEVELS - 1) = l \<or> priority (th t) = 0"
  by (simp add: aligned_def)

lemma aligned_update:
  assumes "mlfq_ok q" "l < MLFQ_LEVELS" "aligned th q" "levels q' = (levels q)[l := xs]"
    "\<And>t. t \<in> set xs \<Longrightarrow> t \<in> set (levels q ! l) \<or> min (unat (priority (th t))) (MLFQ_LEVELS - 1) = l"
  shows "aligned th q'"
  using assms length_levels[OF assms(1)] unfolding aligned_def by (auto simp: nth_list_update)

lemma mlfq_push_aligned:
  assumes "mlfq_ok q" "aligned th q" "mlfq_push t (unat (priority (th t))) q = (ok, q')"
  shows "mlfq_ok q' \<and> aligned th q' \<and> (if ok then queued q' = add_mset t (queued q) else q' = q)"
proof -
  let ?l = "min (unat (priority (th t))) (MLFQ_LEVELS - 1)"
  show ?thesis
  proof (cases "length (levels q ! ?l) < LEVEL_CAP")
    case True
    then obtain q2 where q2: "mlfq_push t (unat (priority (th t))) q = (True, q2)" "mlfq_ok q2"
        "levels q2 = (levels q)[?l := levels q ! ?l @ [t]]" "queued q2 = add_mset t (queued q)"
      using mlfq_push_ok[OF assms(1) refl] by blast
    have "aligned th q2" by (rule aligned_update[OF assms(1) min_level assms(2) q2(3)]) auto
    then show ?thesis using q2 assms(3) by simp
  next
    case False
    then have "mlfq_push t (unat (priority (th t))) q = (False, q)"
      using level_bound[OF assms(1) min_level] by (intro mlfq_push_full[OF assms(1) refl]) (simp add: le_antisym not_less)
    then show ?thesis using assms by simp
  qed
qed

text \<open>Putting the thread just popped back always succeeds.\<close>

lemma push_back:
  assumes ok: "mlfq_ok q" and al: "aligned th q" and pop: "mlfq_pop q = Some (t, q')"
  shows "\<exists>q2. mlfq_push t (unat (priority (th t))) q' = (True, q2) \<and> mlfq_ok q2 \<and> aligned th q2 \<and> queued q2 = queued q"
    and "mlfq_ok q'" "aligned th q'" "queued q = add_mset t (queued q')"
proof -
  have "queued q \<noteq> {#}" using pop mlfq_pop_empty[OF ok] by auto
  then obtain l ts where l: "l < MLFQ_LEVELS" "levels q ! l = t # ts" "\<forall>j < l. levels q ! j = []" "mlfq_ok q'"
      "levels q' = (levels q)[l := ts]" "queued q = add_mset t (queued q')"
    using mlfq_pop_first[OF ok] pop by auto
  show "mlfq_ok q'" "queued q = add_mset t (queued q')" by (rule l)+
  show al': "aligned th q'" by (rule aligned_update[OF ok l(1) al l(5)]) (simp add: l(2))
  let ?p = "min (unat (priority (th t))) (MLFQ_LEVELS - 1)"
  have "?p = l \<or> ?p = 0" using alignedD[OF al l(1), of t] l(2) by (auto simp: MLFQ_LEVELS_def)
  moreover have "length (levels q' ! l) < LEVEL_CAP"
    using l level_bound[OF ok l(1)] length_levels[OF ok] by (simp add: Suc_le_eq)
  moreover have "0 < l \<Longrightarrow> levels q' ! 0 = []" using l by simp
  ultimately have "length (levels q' ! ?p) < LEVEL_CAP" by (cases "l = 0") (auto simp: QUEUE_DEPTH_def)
  from mlfq_push_ok[OF l(4) refl this, of t] obtain q2 where "mlfq_push t (unat (priority (th t))) q' = (True, q2)" by blast
  with mlfq_push_aligned[OF l(4) al' this] l(6)
  show "\<exists>q2. mlfq_push t (unat (priority (th t))) q' = (True, q2) \<and> mlfq_ok q2 \<and> aligned th q2 \<and> queued q2 = queued q" by simp
qed

lemma steal_loop_spec:
  "mlfq_ok src \<Longrightarrow> mlfq_ok dst \<Longrightarrow> aligned th src \<Longrightarrow> aligned th dst \<Longrightarrow> steal_loop th n src dst = (k, s, d) \<Longrightarrow>
   mlfq_ok s \<and> mlfq_ok d \<and> aligned th s \<and> aligned th d \<and> queued s + queued d = queued src + queued dst \<and>
   k \<le> n \<and> size (queued d) = size (queued dst) + k"
proof (induction n arbitrary: src dst k s d)
  case (Suc n)
  show ?case
  proof (cases "mlfq_pop src")
    case (Some r)
    then obtain t src' where p: "mlfq_pop src = Some (t, src')" by (cases r) auto
    note b = push_back[OF Suc.prems(1,3) p]
    obtain ok dst' where d: "mlfq_push t (unat (priority (th t))) dst = (ok, dst')" by fastforce
    note da = mlfq_push_aligned[OF Suc.prems(2,4) d]
    show ?thesis
    proof (cases ok)
      case False
      then show ?thesis using Suc.prems p d b(1) da by auto
    next
      case True
      obtain k' where "steal_loop th n src' dst' = (k', s, d)" "k = Suc k'"
        using Suc.prems(5) p d True by (auto split: prod.splits)
      with Suc.IH[OF b(2) _ b(3) _ this(1)] da True b(4) show ?thesis by auto
    qed
  qed (use Suc.prems in auto)
qed auto

text \<open>Threads moved by a boost have priority 0 wherever they are.\<close>

definition boosted :: "u64 set \<Rightarrow> threads \<Rightarrow> threads" where
  "boosted T th = (\<lambda>t. if t \<in> T then (th t)\<lparr>priority := 0, ticks_used := 0\<rparr> else th t)"

lemma boosted_simps [simp]: "boosted {} th = th" "boosted T (boosted U th) = boosted (T \<union> U) th"
  "(th)(t := (th t)\<lparr>priority := 0, ticks_used := 0\<rparr>) = boosted {t} th" "t_state (boosted T th t) = t_state (th t)"
  by (auto simp: boosted_def)

lemma boosted_aligned:
  assumes "aligned th q" "\<And>l t. l < MLFQ_LEVELS \<Longrightarrow> t \<in> set (levels q' ! l) \<Longrightarrow> t \<in> set (levels q ! l) \<or> t \<in> T"
  shows "aligned (boosted T th) q'"
  unfolding aligned_def
proof (intro allI impI ballI)
  fix l t assume l: "l < MLFQ_LEVELS" "t \<in> set (levels q' ! l)"
  then show "min (unat (priority (boosted T th t))) (MLFQ_LEVELS - 1) = l \<or> priority (boosted T th t) = 0"
    using assms(2)[OF l] alignedD[OF assms(1) l(1), of t] by (cases "t \<in> T") (simp_all add: boosted_def)
qed

lemma mlfq_ok_permuted:
  assumes "mlfq_ok q" "mq_total q' = mq_total q" "queued q' = queued q" "length (mq_levels q') = MLFQ_LEVELS"
    "\<And>i. i < MLFQ_LEVELS \<Longrightarrow> ring_ok (mq_levels q' ! i)"
  shows "mlfq_ok q'"
  using assms by (simp add: mlfq_ok_def list_all_length)

text \<open>Moving the oldest thread of level \<open>l\<close> to level 0.\<close>

lemma move_up:
  assumes ok: "mlfq_ok q" and l: "0 < l" "l < MLFQ_LEVELS" "levels q ! l = t # ts"
    and r: "ring_ok r" "ring_contents r = ts" and r0: "ring_ok r0" "ring_contents r0 = levels q ! 0 @ [t]"
    and q': "q' = q\<lparr>mq_levels := (mq_levels q)[l := r, 0 := r0]\<rparr>"
  shows "mlfq_ok q'" "levels q' = (levels q)[l := ts, 0 := levels q ! 0 @ [t]]" "queued q' = queued q"
proof -
  show lv: "levels q' = (levels q)[l := ts, 0 := levels q ! 0 @ [t]]" by (simp add: q' levels_def map_update r r0)
  have len: "l < length (levels q)" "0 < length (levels q)" using length_levels[OF ok] l by auto
  have "mset (concat ((levels q)[l := ts])) + mset (t # ts) = queued q + mset ts"
    using mset_concat_update[OF len(1), of ts] l(3) by (simp add: queued_def)
  moreover have "mset (concat ((levels q)[l := ts, 0 := levels q ! 0 @ [t]])) + mset (levels q ! 0) =
      mset (concat ((levels q)[l := ts])) + mset (levels q ! 0 @ [t])"
    using mset_concat_update[of 0 "(levels q)[l := ts]"] len l by simp
  ultimately show m: "queued q' = queued q" unfolding queued_def lv by simp
  have "ring_ok (mq_levels q' ! i)" if "i < MLFQ_LEVELS" for i
    using mlfq_level(1)[OF ok that] ok r r0 l that by (auto simp: q' nth_list_update mlfq_ok_def)
  then show "mlfq_ok q'" using ok m by (intro mlfq_ok_permuted[OF ok]) (simp_all add: q' mlfq_ok_def)
qed

text \<open>Level 0 is full: the thread goes to the end of its own level.\<close>

lemma move_last:
  assumes ok: "mlfq_ok q" and l: "l < MLFQ_LEVELS" "levels q ! l = t # ts"
    and r: "ring_ok r" "ring_contents r = ts @ [t]" and q': "q' = q\<lparr>mq_levels := (mq_levels q)[l := r]\<rparr>"
  shows "mlfq_ok q'" "levels q' = (levels q)[l := ts @ [t]]" "queued q' = queued q"
proof -
  show lv: "levels q' = (levels q)[l := ts @ [t]]" by (simp add: q' levels_def map_update r)
  then show m: "queued q' = queued q" using queued_update[OF ok l(1) lv] l(2) by simp
  have "ring_ok (mq_levels q' ! i)" if "i < MLFQ_LEVELS" for i
    using mlfq_level(1)[OF ok that] ok r l that by (auto simp: q' nth_list_update mlfq_ok_def)
  then show "mlfq_ok q'" using ok m by (intro mlfq_ok_permuted[OF ok]) (simp_all add: q' mlfq_ok_def)
qed

definition boost_result :: "nat \<Rightarrow> MlfqQueue \<Rightarrow> threads \<Rightarrow> MlfqQueue \<Rightarrow> threads \<Rightarrow> bool" where
  "boost_result l q th q' th' \<longleftrightarrow> mlfq_ok q' \<and> queued q' = queued q \<and> (\<exists>T. th' = boosted T th \<and> (aligned th q \<longrightarrow> aligned th' q') \<and>
    (length (levels q ! 0) + length (levels q ! l) \<le> LEVEL_CAP \<longrightarrow>
       levels q' = (levels q)[l := [], 0 := levels q ! 0 @ levels q ! l] \<and> T = set (levels q ! l)))"

lemma boost_level_spec:
  assumes "mlfq_ok q" "0 < l" "l < MLFQ_LEVELS"
  shows "\<exists>q' th'. boost_level l (q, th) = Some (q', th') \<and> boost_result l q th q' th'"
  using assms(1)
proof (induction "levels q ! l" arbitrary: q th)
  case Nil
  have "ring_pop (mq_levels q ! l) = None"
    using Nil rq.pop_empty[OF mlfq_level(1)[OF Nil.prems assms(3)]] mlfq_level(2)[OF Nil.prems assms(3)] by simp
  then have "boost_level l (q, th) = Some (q, th)" by (subst boost_level.simps) simp
  moreover have "(levels q)[l := []] = levels q" using Nil.hyps by (metis list_update_id)
  ultimately show ?case using Nil by (auto simp: boost_result_def intro!: exI[of _ "{}"])
next
  case (Cons t ts)
  note ok = Cons.prems
  have lv: "levels q ! l = t # ts" using Cons.hyps(2) by simp
  obtain r where r: "ring_pop (mq_levels q ! l) = Some (t, r)" "ring_ok r" "ring_contents r = ts"
    using rq.pop_oldest[OF mlfq_level(1)[OF ok assms(3)]] lv mlfq_level(2)[OF ok assms(3)] by metis
  have z: "0 < MLFQ_LEVELS" by (simp add: MLFQ_LEVELS_def)
  note l0 = mlfq_level[OF ok z]
  have ne: "(mq_levels q)[l := r] ! 0 = mq_levels q ! 0" using assms(2) by simp
  show ?case
  proof (cases "length (levels q ! 0) < LEVEL_CAP")
    case True
    obtain r0 where r0: "ring_push (mq_levels q ! 0) t = Some r0" "ring_ok r0" "ring_contents r0 = levels q ! 0 @ [t]"
      using rq.push_room[OF l0(1)] True l0(2) by metis
    let ?q = "q\<lparr>mq_levels := (mq_levels q)[l := r, 0 := r0]\<rparr>"
    note mv = move_up[OF ok assms(2,3) lv r(2,3) r0(2,3) refl]
    have step: "boost_level l (q, th) = boost_level l (?q, boosted {t} th)"
      by (subst boost_level.simps) (simp add: r r0 ne)
    have lts: "levels ?q ! l = ts" "levels ?q ! 0 = levels q ! 0 @ [t]"
      using length_levels[OF ok] assms(2,3) z by (simp_all add: mv(2))
    obtain q' th' where q': "boost_level l (?q, boosted {t} th) = Some (q', th')" "boost_result l ?q (boosted {t} th) q' th'"
      using Cons.hyps(1)[OF lts(1)[symmetric] mv(1)] by blast
    have "aligned th q \<Longrightarrow> aligned (boosted {t} th) ?q"
      by (rule boosted_aligned) (use length_levels[OF ok] lv assms(2,3) in \<open>auto simp: mv(2) nth_list_update split: if_splits\<close>)
    moreover obtain T where T: "mlfq_ok q'" "queued q' = queued ?q" "th' = boosted T (boosted {t} th)"
        "aligned (boosted {t} th) ?q \<longrightarrow> aligned th' q'"
        "length (levels ?q ! 0) + length (levels ?q ! l) \<le> LEVEL_CAP \<Longrightarrow>
           levels q' = (levels ?q)[l := [], 0 := levels ?q ! 0 @ levels ?q ! l] \<and> T = set (levels ?q ! l)"
      using q'(2) unfolding boost_result_def by blast
    moreover have "(levels ?q)[l := [], 0 := levels ?q ! 0 @ levels ?q ! l] = (levels q)[l := [], 0 := levels q ! 0 @ levels q ! l]"
      using length_levels[OF ok] assms(2,3) unfolding lts lv mv(2) by (intro nth_equalityI) (auto simp: nth_list_update)
    ultimately have "boost_result l q th q' th'"
      unfolding boost_result_def using mv(3) lts lv by (intro conjI exI[of _ "T \<union> {t}"]) auto
    then show ?thesis using q'(1) step by simp
  next
    case False
    then have full: "ring_push (mq_levels q ! 0) t = None" using rq.push_full[OF l0(1)] l0(2) by simp
    have "length ts < LEVEL_CAP" using level_bound[OF ok assms(3)] lv by simp
    then obtain r' where r': "ring_push r t = Some r'" "ring_ok r'" "ring_contents r' = ts @ [t]"
      using rq.push_room[OF r(2)] r(3) by metis
    note mv = move_last[OF ok assms(3) lv r'(2,3) refl]
    have "boost_level l (q, th) = Some (q\<lparr>mq_levels := (mq_levels q)[l := r']\<rparr>, boosted {t} th)"
      by (subst boost_level.simps) (simp add: r full ne r')
    moreover have "aligned th q \<Longrightarrow> aligned (boosted {t} th) (q\<lparr>mq_levels := (mq_levels q)[l := r']\<rparr>)"
      by (rule boosted_aligned) (use length_levels[OF ok] lv assms(3) in \<open>auto simp: mv(2) nth_list_update split: if_splits\<close>)
    ultimately show ?thesis using mv False lv by (auto simp: boost_result_def)
  qed
qed

lemma concat_move:
  assumes "0 < k" "k < length xss" "\<And>j. 0 < j \<Longrightarrow> j < k \<Longrightarrow> xss ! j = []"
  shows "concat (xss[k := [], 0 := xss ! 0 @ xss ! k]) = concat xss"
proof -
  obtain x ys where x: "xss = x # ys" using assms(2) by (cases xss) auto
  obtain k' where k: "k = Suc k'" using assms(1) by (cases k) auto
  have d: "ys = take k' ys @ ys ! k' # drop k ys" using assms(2) unfolding x k by (simp add: id_take_nth_drop)
  have "y = []" if "y \<in> set (take k' ys)" for y
  proof -
    from that obtain j where "j < k'" "y = ys ! j" by (auto simp: in_set_conv_nth)
    then show ?thesis using assms(3)[of "Suc j"] unfolding x k by simp
  qed
  then have e: "concat (take k' ys) = []" by simp
  have "concat (ys[k' := []]) = concat (drop k ys)" using e k by (simp add: upd_conv_take_nth_drop assms(2)[unfolded x k, simplified])
  moreover have "concat ys = ys ! k' @ concat (drop k ys)" using e by (subst d) simp
  ultimately show ?thesis by (simp add: x k)
qed

lemma boost_levels_spec:
  assumes "mlfq_ok q" "0 < k" "k \<le> MLFQ_LEVELS"
  shows "\<exists>q' T. boost_levels [k..<MLFQ_LEVELS] (q, th) = Some (q', boosted T th) \<and> mlfq_ok q' \<and> queued q' = queued q \<and>
    (aligned th q \<longrightarrow> aligned (boosted T th) q') \<and>
    (size (queued q) \<le> LEVEL_CAP \<and> (\<forall>j. 0 < j \<and> j < k \<longrightarrow> levels q ! j = []) \<longrightarrow>
       levels q' = concat (levels q) # replicate (MLFQ_LEVELS - 1) [] \<and> T = set (concat (drop k (levels q))))"
  using assms
proof (induction "MLFQ_LEVELS - k" arbitrary: q th k)
  case 0
  then have k: "k = MLFQ_LEVELS" by simp
  have "levels q = concat (levels q) # replicate (MLFQ_LEVELS - 1) []" if "\<forall>j. 0 < j \<and> j < k \<longrightarrow> levels q ! j = []"
  proof -
    obtain x xs where x: "levels q = x # xs" "length xs = MLFQ_LEVELS - 1"
      using length_levels[OF 0(2)] by (cases "levels q") (auto simp: MLFQ_LEVELS_def)
    have "xs = replicate (MLFQ_LEVELS - 1) []"
    proof (rule nth_equalityI)
      fix i assume "i < length xs"
      then show "xs ! i = replicate (MLFQ_LEVELS - 1) [] ! i" using that[rule_format, of "Suc i"] x k by simp
    qed (simp add: x)
    then show ?thesis using x by simp
  qed
  then show ?case using 0(2) k length_levels[OF 0(2)] by (intro exI[of _ q] exI[of _ "{}"]) auto
next
  case (Suc m)
  then have k: "0 < k" "k < MLFQ_LEVELS" "m = MLFQ_LEVELS - Suc k" by auto
  obtain q1 T where b: "boost_level k (q, th) = Some (q1, boosted T th)" "mlfq_ok q1" "queued q1 = queued q"
      "aligned th q \<longrightarrow> aligned (boosted T th) q1"
      "length (levels q ! 0) + length (levels q ! k) \<le> LEVEL_CAP \<Longrightarrow>
         levels q1 = (levels q)[k := [], 0 := levels q ! 0 @ levels q ! k] \<and> T = set (levels q ! k)"
    using boost_level_spec[OF Suc.prems(1) k(1,2), of th] unfolding boost_result_def by blast
  obtain q' T' where r: "boost_levels [Suc k..<MLFQ_LEVELS] (q1, boosted T th) = Some (q', boosted T' (boosted T th))"
      "mlfq_ok q'" "queued q' = queued q1" "aligned (boosted T th) q1 \<longrightarrow> aligned (boosted T' (boosted T th)) q'"
      "size (queued q1) \<le> LEVEL_CAP \<Longrightarrow> (\<forall>j. 0 < j \<and> j < Suc k \<longrightarrow> levels q1 ! j = []) \<Longrightarrow>
         levels q' = concat (levels q1) # replicate (MLFQ_LEVELS - 1) [] \<and> T' = set (concat (drop (Suc k) (levels q1)))"
    using Suc.hyps(1)[OF k(3) b(2), of "boosted T th"] k by auto
  have len: "length (levels q) = MLFQ_LEVELS" by (rule length_levels[OF Suc.prems(1)])
  have fin: "levels q' = concat (levels q) # replicate (MLFQ_LEVELS - 1) [] \<and> T' \<union> T = set (concat (drop k (levels q)))"
    if small: "size (queued q) \<le> LEVEL_CAP" and e: "\<forall>j. 0 < j \<and> j < k \<longrightarrow> levels q ! j = []"
  proof -
    have cm: "concat ((levels q)[k := [], 0 := levels q ! 0 @ levels q ! k]) = concat (levels q)"
      using concat_move[of k "levels q"] k e len by simp
    obtain k' where k': "k = Suc k'" using k(1) by (cases k) auto
    have "length (levels q ! 0 @ levels q ! k) \<le> length (concat (levels q))"
      unfolding cm[symmetric] k' using len k(2) by (cases "levels q") auto
    then have l1: "levels q1 = (levels q)[k := [], 0 := levels q ! 0 @ levels q ! k]" "T = set (levels q ! k)"
      using b(5) small by (auto simp: queued_def)
    have "\<forall>j. 0 < j \<and> j < Suc k \<longrightarrow> levels q1 ! j = []" using e len k by (auto simp: l1 nth_list_update less_Suc_eq)
    moreover have "drop (Suc k) (levels q1) = drop (Suc k) (levels q)" using l1(1) k by simp
    moreover have "drop k (levels q) = levels q ! k # drop (Suc k) (levels q)" using len k by (simp add: Cons_nth_drop_Suc)
    ultimately show ?thesis using r(5) b(3) small l1 cm by auto
  qed
  have "[k..<MLFQ_LEVELS] = k # [Suc k..<MLFQ_LEVELS]" using k by (simp add: upt_conv_Cons)
  then have "boost_levels [k..<MLFQ_LEVELS] (q, th) = Some (q', boosted (T' \<union> T) th)" using b(1) r(1) by simp
  then show ?case using b r fin by (intro exI[of _ q'] exI[of _ "T' \<union> T"]) auto
qed

lemma boost_all_spec:
  assumes "mlfq_ok q"
  shows "\<exists>q' T. boost_all (q, th) = Some (q', boosted T th) \<and> mlfq_ok q' \<and> queued q' = queued q \<and>
    (aligned th q \<longrightarrow> aligned (boosted T th) q') \<and>
    (size (queued q) \<le> LEVEL_CAP \<longrightarrow>
       levels q' = concat (levels q) # replicate (MLFQ_LEVELS - 1) [] \<and> T = set (concat (tl (levels q))))"
  using boost_levels_spec[OF assms, of 1 th] by (auto simp: boost_all_def MLFQ_LEVELS_def drop_Suc)

section \<open>Main properties\<close>

text \<open>The reference: one bounded list per level, popped from the lowest non-empty level.\<close>

datatype mq_op = MPush u64 nat | MPop

datatype mq_res = MPushed bool | MPopped "u64 option"

fun ref_pop :: "u64 list list \<Rightarrow> (u64 \<times> u64 list list) option" where
  "ref_pop [] = None"
| "ref_pop ((t # ts) # ls) = Some (t, ts # ls)"
| "ref_pop ([] # ls) = map_option (\<lambda>(t, ls'). (t, [] # ls')) (ref_pop ls)"

fun ref_run :: "mq_op list \<Rightarrow> u64 list list \<Rightarrow> mq_res list \<times> u64 list list" where
  "ref_run [] ls = ([], ls)"
| "ref_run (MPush t l # ops) ls =
     (let i = min l (MLFQ_LEVELS - 1) in
      if length (ls ! i) < LEVEL_CAP then map_prod (Cons (MPushed True)) id (ref_run ops (ls[i := ls ! i @ [t]]))
      else map_prod (Cons (MPushed False)) id (ref_run ops ls))"
| "ref_run (MPop # ops) ls =
     (case ref_pop ls of
        Some (t, ls') \<Rightarrow> map_prod (Cons (MPopped (Some t))) id (ref_run ops ls')
      | None \<Rightarrow> map_prod (Cons (MPopped None)) id (ref_run ops ls))"

fun mlfq_run :: "mq_op list \<Rightarrow> MlfqQueue \<Rightarrow> mq_res list \<times> MlfqQueue" where
  "mlfq_run [] q = ([], q)"
| "mlfq_run (MPush t l # ops) q =
     (case mlfq_push t l q of (ok, q') \<Rightarrow> map_prod (Cons (MPushed ok)) id (mlfq_run ops q'))"
| "mlfq_run (MPop # ops) q =
     (case mlfq_pop q of
        Some (t, q') \<Rightarrow> map_prod (Cons (MPopped (Some t))) id (mlfq_run ops q')
      | None \<Rightarrow> map_prod (Cons (MPopped None)) id (mlfq_run ops q))"

lemma ref_pop_None: "ref_pop ls = None \<longleftrightarrow> concat ls = []"
  by (induction ls rule: ref_pop.induct) auto

lemma ref_pop_first:
  "l < length ls \<Longrightarrow> ls ! l = t # ts \<Longrightarrow> \<forall>j < l. ls ! j = [] \<Longrightarrow> ref_pop ls = Some (t, ls[l := ts])"
proof (induction l arbitrary: ls)
  case 0
  then show ?case by (cases ls) auto
next
  case (Suc l)
  then obtain ls' where ls: "ls = [] # ls'" by (cases ls) auto
  with Suc.IH[of ls'] Suc.prems show ?case by fastforce
qed

lemma mlfq_run_refines:
  "mlfq_ok q \<Longrightarrow> mlfq_run ops q = (rs, q') \<Longrightarrow> mlfq_ok q' \<and> ref_run ops (levels q) = (rs, levels q')"
proof (induction ops arbitrary: q rs)
  case (Cons op ops)
  show ?case
  proof (cases op)
    case (MPush t l)
    show ?thesis
    proof (cases "length (levels q ! min l (MLFQ_LEVELS - 1)) < LEVEL_CAP")
      case True
      then obtain q1 where q1: "mlfq_push t l q = (True, q1)" "mlfq_ok q1"
          "levels q1 = (levels q)[min l (MLFQ_LEVELS - 1) := levels q ! min l (MLFQ_LEVELS - 1) @ [t]]"
        using mlfq_push_ok[OF Cons.prems(1) refl True, of t] by blast
      then show ?thesis using True Cons.IH[OF q1(2)] Cons.prems(2) MPush by (cases "mlfq_run ops q1") (auto simp: Let_def)
    next
      case False
      then have "mlfq_push t l q = (False, q)"
        using level_bound[OF Cons.prems(1) min_level] by (intro mlfq_push_full[OF Cons.prems(1) refl]) (simp add: le_antisym not_less)
      then show ?thesis using False Cons.IH[OF Cons.prems(1)] Cons.prems(2) MPush by (cases "mlfq_run ops q") (auto simp: Let_def)
    qed
  next
    case MPop
    show ?thesis
    proof (cases "queued q = {#}")
      case True
      then have "ref_pop (levels q) = None" by (simp add: ref_pop_None queued_def)
      then show ?thesis using mlfq_pop_empty[OF Cons.prems(1) True] Cons.IH[OF Cons.prems(1)] Cons.prems(2) MPop by (cases "mlfq_run ops q") auto
    next
      case False
      then obtain l t ts q1 where p: "mlfq_pop q = Some (t, q1)" "l < MLFQ_LEVELS" "levels q ! l = t # ts" "\<forall>j < l. levels q ! j = []"
          "mlfq_ok q1" "levels q1 = (levels q)[l := ts]"
        using mlfq_pop_first[OF Cons.prems(1)] by blast
      then have "ref_pop (levels q) = Some (t, levels q1)"
        using ref_pop_first[of l "levels q" t ts] length_levels[OF Cons.prems(1)] by simp
      then show ?thesis using p Cons.IH[OF p(5)] Cons.prems(2) MPop by (cases "mlfq_run ops q1") auto
    qed
  qed
qed auto

text \<open>
  C7: the multi-level queue is eight bounded queues served in priority order.  From
  an empty queue, every sequence of pushes and pops gives exactly the answers of the
  reference: a push to a level (levels past the last mean the last) is refused
  only when that level holds 255 threads, and a pop returns the oldest thread of
  the lowest level that is not empty; and the counter \<open>total\<close> is the number of queued
  threads after every sequence.
\<close>

theorem mlfq_refines_levels:
  "let (rs, q) = mlfq_run ops MlfqQueue_new in
   ref_run ops (replicate MLFQ_LEVELS []) = (rs, levels q) \<and> mq_total q = of_nat (length (concat (levels q)))"
proof -
  obtain rs q where r: "mlfq_run ops MlfqQueue_new = (rs, q)" by fastforce
  from mlfq_run_refines[OF mlfq_new(1) r] show ?thesis
    by (simp add: r mlfq_ok_def queued_def)
qed


definition demo_threads :: threads where
  "demo_threads = (\<lambda>_. \<lparr>t_state = Runnable, t_cpu = 0, priority = 3, ticks_used = 5\<rparr>)"

lemma demo_push:
  "\<exists>q. mlfq_push 0x5000 3 MlfqQueue_new = (True, q) \<and> mlfq_ok q \<and> levels q = [[], [], [], [0x5000], [], [], [], []] \<and> queued q = {#0x5000#}"
  using mlfq_push_ok[OF mlfq_new(1), of 3 3 "0x5000"]
  by (auto simp: MLFQ_LEVELS_def QUEUE_DEPTH_def eval_nat_numeral)


text \<open>
  C9: stealing moves threads and loses none.  When threads sit at their priority's
  level, \<open>steal_into\<close> moves at most the requested number of threads to the thief,
  reports how many, keeps both queues well-formed, and every thread is in exactly
  one of the two queues afterwards, also when the thief's queue runs full.
\<close>

theorem steal_conserves_threads:
  assumes "mlfq_ok src" "mlfq_ok dst" "aligned th src" "aligned th dst" "steal_into th src dst n = (k, s, d)"
  shows "queued s + queued d = queued src + queued dst \<and> k \<le> n \<and> size (queued d) = size (queued dst) + k \<and>
    mlfq_ok s \<and> mlfq_ok d"
  using steal_loop_spec[OF assms(1-4)] assms(5) by (simp add: steal_into_def)

theorem steal_conserves_threads_witness:
  "\<exists>src k s d. mlfq_push 0x5000 3 MlfqQueue_new = (True, src) \<and> steal_into demo_threads src MlfqQueue_new 4 = (k, s, d) \<and>
     queued s + queued d = {#0x5000#} \<and> k \<le> 4"
proof -
  obtain q where q: "mlfq_push 0x5000 3 MlfqQueue_new = (True, q)" "mlfq_ok q" "levels q = [[], [], [], [0x5000], [], [], [], []]"
      "queued q = {#0x5000#}" using demo_push by blast
  have "aligned demo_threads q" "aligned demo_threads MlfqQueue_new"
    by (auto simp: aligned_def q(3) demo_threads_def MLFQ_LEVELS_def nth_Cons' split: if_splits)
  moreover obtain k s d where "steal_into demo_threads q MlfqQueue_new 4 = (k, s, d)" by (metis prod_cases3)
  ultimately show ?thesis using q steal_conserves_threads[OF q(2) mlfq_new(1)] by fastforce
qed

end
