(* ===== verification/Scheduler.thy ===== *)
theory Scheduler
  imports Run_Queue
begin

text \<open>
  The scheduler (\<open>sched/lib.rs\<close>, \<open>percpu.rs\<close>, \<open>steal.rs\<close>, \<open>thread.rs\<close>): time slices,
  work stealing, the choice of the next thread, the wake-up of a thread onto the
  boot CPU's queue.  A call runs under the lock of its CPU; whether another CPU's
  lock can be taken is the parameter \<open>avail\<close>.  Contexts, stacks and the FPU state are
  not part of the state; a switch is reported as the pair of the two threads.
\<close>

definition MAX_CPUS :: nat where "MAX_CPUS = 64"
definition MAX_STEAL_BATCH :: nat where "MAX_STEAL_BATCH = 8"

record SchedCpu =
  current :: u64
  idle_thread :: u64
  run_queue :: MlfqQueue
  tick_count :: u64
  steal_cursor :: u32

record sched =
  cpus :: "SchedCpu list"
  cpu_count :: u32
  threads :: threads

definition SchedCpu_uninit :: SchedCpu where
  "SchedCpu_uninit = \<lparr>current = 0, idle_thread = 0, run_queue = MlfqQueue_new, tick_count = 0, steal_cursor = 0\<rparr>"

definition set_cpu :: "nat \<Rightarrow> (SchedCpu \<Rightarrow> SchedCpu) \<Rightarrow> sched \<Rightarrow> sched" where
  "set_cpu c f s = s\<lparr>cpus := (cpus s)[c := f (cpus s ! c)]\<rparr>"

definition set_thread :: "u64 \<Rightarrow> (Thread \<Rightarrow> Thread) \<Rightarrow> sched \<Rightarrow> sched" where
  "set_thread t f s = s\<lparr>threads := (threads s)(t := f (threads s t))\<rparr>"

definition init_sched_cpu :: "nat \<Rightarrow> sched \<Rightarrow> sched" where
  "init_sched_cpu c s =
     (if MAX_CPUS \<le> c then s
      else s\<lparr>cpus := (cpus s)[c := SchedCpu_uninit\<lparr>steal_cursor := of_nat ((c + 1) mod MAX_CPUS)\<rparr>],
             cpu_count := (if unat (cpu_count s) < c + 1 then of_nat (c + 1) else cpu_count s)\<rparr>)"

definition set_idle_thread :: "nat \<Rightarrow> u64 \<Rightarrow> sched \<Rightarrow> sched" where
  "set_idle_thread c idle s =
     (let i = c mod MAX_CPUS; s1 = set_cpu i (\<lambda>sc. sc\<lparr>idle_thread := idle\<rparr>) s in
      if current (cpus s1 ! i) = 0
      then set_thread idle (\<lambda>t. t\<lparr>t_state := Running\<rparr>) (set_cpu i (\<lambda>sc. sc\<lparr>current := idle\<rparr>) s1)
      else s1)"

section \<open>Time slices\<close>

definition charge_tick :: "Thread \<Rightarrow> bool \<times> Thread" where
  "charge_tick t =
     (let ticks = (if ticks_used t = - 1 then - 1 else ticks_used t + 1) in
      if ticks < timeslice (unat (priority t)) then (False, t\<lparr>ticks_used := ticks\<rparr>)
      else (True, t\<lparr>ticks_used := 0,
                    priority := (if priority t < of_nat (MLFQ_LEVELS - 1) then priority t + 1 else priority t)\<rparr>))"

section \<open>Work stealing\<close>

text \<open>One attempt on a victim; \<open>None\<close> is the \<open>continue\<close> to the next one.\<close>

definition steal_from :: "(nat \<Rightarrow> bool) \<Rightarrow> nat \<Rightarrow> nat \<Rightarrow> sched \<Rightarrow> u64 option option \<times> sched" where
  "steal_from avail victim c s =
     (let len = mq_total (run_queue (cpus s ! victim)) in
      if \<not> avail victim then (None, s)
      else if len < 1 then (None, s)
      else
        (case steal_into (threads s) (run_queue (cpus s ! victim)) (run_queue (cpus s ! c))
                (min (max (unat len div 2) 1) MAX_STEAL_BATCH) of
           (stolen, vq, dq) \<Rightarrow>
             (let s2 = set_cpu c (\<lambda>sc. sc\<lparr>run_queue := dq\<rparr>) (set_cpu victim (\<lambda>sc. sc\<lparr>run_queue := vq\<rparr>) s) in
              if stolen \<noteq> 0
              then (case mlfq_pop dq of
                      Some (t, q) \<Rightarrow> (Some (Some t), set_cpu c (\<lambda>sc. sc\<lparr>run_queue := q\<rparr>) s2)
                    | None \<Rightarrow> (Some None, s2))
              else (None, s2))))"

text \<open>The loop over victims; the recursion counts the CPUs not scanned yet.\<close>

primrec steal_scan :: "(nat \<Rightarrow> bool) \<Rightarrow> nat \<Rightarrow> nat \<Rightarrow> nat \<Rightarrow> nat \<Rightarrow> sched \<Rightarrow> u64 option \<times> sched" where
  "steal_scan avail c ncpu 0 attempts s = (None, s)"
| "steal_scan avail c ncpu (Suc rem) attempts s =
     (if ncpu - 1 \<le> attempts then (None, s)
      else
        (let victim = unat (steal_cursor (cpus s ! c)) mod ncpu;
             s1 = set_cpu c (\<lambda>sc. sc\<lparr>steal_cursor := of_nat ((victim + 1) mod ncpu)\<rparr>) s
         in
         if victim = c then steal_scan avail c ncpu rem attempts s1
         else case steal_from avail victim c s1 of
                (None, s2) \<Rightarrow> steal_scan avail c ncpu rem (attempts + 1) s2
              | (Some r, s2) \<Rightarrow> (r, s2)))"

definition try_steal :: "(nat \<Rightarrow> bool) \<Rightarrow> nat \<Rightarrow> sched \<Rightarrow> u64 option \<times> sched" where
  "try_steal avail c s =
     (let ncpu = unat (cpu_count s) in
      if ncpu \<le> 1 then (None, s) else steal_scan avail c ncpu ncpu 0 s)"

fun busiest_scan :: "sched \<Rightarrow> nat list \<Rightarrow> nat \<Rightarrow> u32 \<Rightarrow> nat" where
  "busiest_scan s [] best_cpu best_len = best_cpu"
| "busiest_scan s (c # cs) best_cpu best_len =
     (let len = mq_total (run_queue (cpus s ! (c mod MAX_CPUS))) in
      if best_len < len then busiest_scan s cs c len else busiest_scan s cs best_cpu best_len)"

definition busiest_cpu :: "sched \<Rightarrow> nat" where
  "busiest_cpu s = busiest_scan s [0..<unat (cpu_count s)] 0 0"

fun least_scan :: "sched \<Rightarrow> nat list \<Rightarrow> nat \<Rightarrow> u32 \<Rightarrow> nat" where
  "least_scan s [] best_cpu best_len = best_cpu"
| "least_scan s (c # cs) best_cpu best_len =
     (let len = mq_total (run_queue (cpus s ! (c mod MAX_CPUS))) in
      if len < best_len then least_scan s cs c len else least_scan s cs best_cpu best_len)"

definition least_loaded_cpu :: "sched \<Rightarrow> nat" where
  "least_loaded_cpu s = (if cpu_count s = 0 then 0 else least_scan s [0..<unat (cpu_count s)] 0 (- 1))"

section \<open>Scheduling\<close>

text \<open>The first part of \<open>schedule\<close>: the tick counter and the periodic boost.\<close>

definition schedule_tick :: "nat \<Rightarrow> sched \<Rightarrow> sched option" where
  "schedule_tick c s =
     (let s1 = set_cpu c (\<lambda>sc. sc\<lparr>tick_count := tick_count sc + 1\<rparr>) s in
      if unat (tick_count (cpus s1 ! c)) mod BOOST_INTERVAL = 0
      then (case boost_all (run_queue (cpus s1 ! c), threads s1) of
              Some (q, th) \<Rightarrow> Some ((set_cpu c (\<lambda>sc. sc\<lparr>run_queue := q\<rparr>) s1)\<lparr>threads := th\<rparr>)
            | None \<Rightarrow> None)
      else Some s1)"

definition push_to :: "nat \<Rightarrow> u64 \<Rightarrow> sched \<Rightarrow> bool \<times> sched" where
  "push_to c t s =
     (let (ok, q) = mlfq_push t (unat (priority (threads s t))) (run_queue (cpus s ! c))
      in (ok, set_cpu c (\<lambda>sc. sc\<lparr>run_queue := q\<rparr>) s))"

text \<open>What happens to the current thread; \<open>True\<close> is the early return of a thread whose slice lasts.\<close>

definition requeue_current :: "nat \<Rightarrow> sched \<Rightarrow> bool \<times> sched" where
  "requeue_current c s =
     (let cur = current (cpus s ! c); idle = idle_thread (cpus s ! c) in
      if cur \<noteq> 0 \<and> cur \<noteq> idle
      then (case t_state (threads s cur) of
              Running \<Rightarrow>
                (let (expired, t) = charge_tick (threads s cur) in
                 if \<not> expired then (True, set_thread cur (\<lambda>_. t) s)
                 else (False, snd (push_to c cur (set_thread cur (\<lambda>_. t\<lparr>t_state := Runnable\<rparr>) s))))
            | Runnable \<Rightarrow> (False, snd (push_to c cur s))
            | _ \<Rightarrow> (False, set_thread cur (\<lambda>t. t\<lparr>ticks_used := 0\<rparr>) s))
      else (False, s))"

definition pick_next :: "(nat \<Rightarrow> bool) \<Rightarrow> nat \<Rightarrow> sched \<Rightarrow> u64 \<times> sched" where
  "pick_next avail c s =
     (case mlfq_pop (run_queue (cpus s ! c)) of
        Some (t, q) \<Rightarrow> (t, set_cpu c (\<lambda>sc. sc\<lparr>run_queue := q\<rparr>) s)
      | None \<Rightarrow>
          (case try_steal avail c s of
             (Some t, s') \<Rightarrow> (t, s')
           | (None, s') \<Rightarrow> (idle_thread (cpus s' ! c), s')))"

text \<open>The switch, or the return to the current thread.\<close>

definition dispatch :: "nat \<Rightarrow> u64 \<Rightarrow> u64 \<Rightarrow> sched \<Rightarrow> (u64 \<times> u64) option \<times> sched" where
  "dispatch c cur nxt s =
     (if nxt = cur
      then (None, if cur \<noteq> 0 then set_thread cur (\<lambda>t. t\<lparr>t_state := Running\<rparr>) s else s)
      else (Some (cur, nxt),
            set_thread nxt (\<lambda>t. t\<lparr>t_state := Running, t_cpu := of_nat c\<rparr>) (set_cpu c (\<lambda>sc. sc\<lparr>current := nxt\<rparr>) s)))"

definition schedule :: "(nat \<Rightarrow> bool) \<Rightarrow> nat \<Rightarrow> sched \<Rightarrow> ((u64 \<times> u64) option \<times> sched) option" where
  "schedule avail c s =
     (case schedule_tick c s of
        None \<Rightarrow> None
      | Some s1 \<Rightarrow>
          (case requeue_current c s1 of
             (True, s2) \<Rightarrow> Some (None, s2)
           | (False, s2) \<Rightarrow>
               (case pick_next avail c s2 of
                  (nxt, s3) \<Rightarrow> Some (dispatch c (current (cpus s1 ! c)) nxt s3))))"

definition schedule_yield :: "(nat \<Rightarrow> bool) \<Rightarrow> nat \<Rightarrow> sched \<Rightarrow> ((u64 \<times> u64) option \<times> sched) option" where
  "schedule_yield avail c s =
     (let cur = current (cpus s ! c) in
      if cur = 0 \<or> cur = idle_thread (cpus s ! c) then schedule avail c s
      else
        let s1 = set_thread cur (\<lambda>t. t\<lparr>t_state := Runnable, ticks_used := 0\<rparr>) s;
            s2 = snd (push_to c cur s1)
        in case pick_next avail c s2 of (nxt, s3) \<Rightarrow> Some (dispatch c cur nxt s3))"

section \<open>Making threads runnable\<close>

text \<open>\<open>enqueue_thread\<close> panics (\<open>None\<close>) when the boot CPU's queue is full at that level.\<close>

definition enqueue_thread :: "u64 \<Rightarrow> nat \<Rightarrow> sched \<Rightarrow> sched option" where
  "enqueue_thread t prio s =
     (let (queued, q) = mlfq_push t prio (run_queue (cpus s ! 0))
      in if queued then Some (set_cpu 0 (\<lambda>sc. sc\<lparr>run_queue := q\<rparr>) s) else None)"

definition try_push_to_cpu :: "bool \<Rightarrow> u64 \<Rightarrow> nat \<Rightarrow> sched \<Rightarrow> bool \<times> sched" where
  "try_push_to_cpu avail t c s =
     (if \<not> avail then (False, s)
      else push_to (c mod MAX_CPUS) t (set_thread t (\<lambda>th. th\<lparr>t_state := Runnable\<rparr>) s))"

definition try_make_runnable :: "bool \<Rightarrow> bool \<Rightarrow> u64 \<Rightarrow> sched \<Rightarrow> bool \<times> sched" where
  "try_make_runnable avail1 avail2 t s =
     (if t = 0 then (False, s)
      else case try_push_to_cpu avail1 t 0 s of
             (True, s1) \<Rightarrow> (True, s1)
           | (False, s1) \<Rightarrow> try_push_to_cpu avail2 t 0 s1)"

section \<open>Where threads are\<close>

definition all_queued :: "sched \<Rightarrow> u64 multiset" where
  "all_queued s = sum_list (map (\<lambda>sc. queued (run_queue sc)) (cpus s))"

definition sys_ok :: "sched \<Rightarrow> bool" where
  "sys_ok s \<longleftrightarrow> length (cpus s) = MAX_CPUS \<and> unat (cpu_count s) \<le> MAX_CPUS \<and>
     (\<forall>sc \<in> set (cpus s). mlfq_ok (run_queue sc) \<and> aligned (threads s) (run_queue sc))"

lemma set_cpu_simps [simp]:
  "threads (set_cpu c f s) = threads s" "cpu_count (set_cpu c f s) = cpu_count s" "length (cpus (set_cpu c f s)) = length (cpus s)"
  "c < length (cpus s) \<Longrightarrow> cpus (set_cpu c f s) ! c = f (cpus s ! c)" "c' \<noteq> c \<Longrightarrow> cpus (set_cpu c f s) ! c' = cpus s ! c'"
  by (simp_all add: set_cpu_def)

lemma set_thread_simps [simp]:
  "cpus (set_thread t f s) = cpus s" "cpu_count (set_thread t f s) = cpu_count s"
  "threads (set_thread t f s) = (threads s)(t := f (threads s t))"
  by (simp_all add: set_thread_def)

lemma sys_okD:
  assumes "sys_ok s" "c < MAX_CPUS"
  shows "mlfq_ok (run_queue (cpus s ! c))" "aligned (threads s) (run_queue (cpus s ! c))" "c < length (cpus s)"
  using assms by (auto simp: sys_ok_def)

lemma sys_okI:
  assumes "length (cpus s) = MAX_CPUS" "unat (cpu_count s) \<le> MAX_CPUS"
    "\<And>c. c < MAX_CPUS \<Longrightarrow> mlfq_ok (run_queue (cpus s ! c)) \<and> aligned (threads s) (run_queue (cpus s ! c))"
  shows "sys_ok s"
  using assms by (auto simp: sys_ok_def in_set_conv_nth)

lemma sum_list_update_mset:
  fixes xs :: "'a multiset list"
  assumes "i < length xs"
  shows "sum_list (xs[i := y]) + xs ! i = sum_list xs + y"
proof -
  have "xs[i := y] = take i xs @ y # drop (Suc i) xs" "xs = take i xs @ xs ! i # drop (Suc i) xs"
    using assms by (simp_all add: upd_conv_take_nth_drop id_take_nth_drop)
  then have "sum_list (xs[i := y]) = sum_list (take i xs @ y # drop (Suc i) xs)"
    "sum_list xs = sum_list (take i xs @ xs ! i # drop (Suc i) xs)" by simp_all
  then show ?thesis by (simp add: ac_simps)
qed

lemma all_queued_set_cpu:
  assumes "c < length (cpus s)"
  shows "all_queued (set_cpu c f s) + queued (run_queue (cpus s ! c)) = all_queued s + queued (run_queue (f (cpus s ! c)))"
  using sum_list_update_mset[of c "map (\<lambda>sc. queued (run_queue sc)) (cpus s)" "queued (run_queue (f (cpus s ! c)))"] assms
  by (simp add: all_queued_def set_cpu_def map_update)

definition same_cpus :: "sched \<Rightarrow> sched \<Rightarrow> bool" where
  "same_cpus s s' \<longleftrightarrow> cpu_count s' = cpu_count s \<and>
     (\<forall>c. current (cpus s' ! c) = current (cpus s ! c) \<and> idle_thread (cpus s' ! c) = idle_thread (cpus s ! c))"

lemma same_cpus_set:
  assumes "\<And>sc. current (f sc) = current sc" "\<And>sc. idle_thread (f sc) = idle_thread sc"
  shows "same_cpus s (set_cpu c f s)"
proof -
  have "current (cpus (set_cpu c f s) ! d) = current (cpus s ! d) \<and> idle_thread (cpus (set_cpu c f s) ! d) = idle_thread (cpus s ! d)" for d
    using assms by (cases "c < length (cpus s)"; cases "d = c") (simp_all add: set_cpu_def list_update_beyond)
  then show ?thesis by (simp add: same_cpus_def)
qed

lemma same_cpus_trans: "same_cpus s s1 \<Longrightarrow> same_cpus s1 s2 \<Longrightarrow> same_cpus s s2"
  by (simp add: same_cpus_def)

lemma same_cpus_threads [simp]: "same_cpus s (set_thread t f s)" "same_cpus s s"
  by (simp_all add: same_cpus_def)

lemma all_queued_threads [simp]: "all_queued (set_thread t f s) = all_queued s" "all_queued (s\<lparr>threads := th\<rparr>) = all_queued s"
  by (simp_all add: all_queued_def)

text \<open>Replacing the queue of one CPU.\<close>

lemma set_queue:
  assumes ok: "sys_ok s" and c: "c < MAX_CPUS" and q: "mlfq_ok q" "aligned (threads s) q"
    and s': "s' = set_cpu c (\<lambda>sc. sc\<lparr>run_queue := q\<rparr>) s"
  shows "sys_ok s'" "all_queued s' + queued (run_queue (cpus s ! c)) = all_queued s + queued q"
    "same_cpus s s'" "threads s' = threads s"
proof -
  have len: "c < length (cpus s)" using ok c by (simp add: sys_ok_def)
  show "sys_ok s'"
  proof (rule sys_okI)
    fix d assume "d < MAX_CPUS"
    with sys_okD[OF ok this] q len show "mlfq_ok (run_queue (cpus s' ! d)) \<and> aligned (threads s') (run_queue (cpus s' ! d))"
      by (cases "d = c") (simp_all add: s')
  qed (use ok in \<open>simp_all add: s' sys_ok_def\<close>)
  show "all_queued s' + queued (run_queue (cpus s ! c)) = all_queued s + queued q"
    using all_queued_set_cpu[OF len, of "\<lambda>sc. sc\<lparr>run_queue := q\<rparr>"] by (simp add: s')
  show "same_cpus s s'" unfolding s' by (rule same_cpus_set) simp_all
qed (simp add: s')

lemma set_other:
  assumes ok: "sys_ok s" and f: "\<And>sc. run_queue (f sc) = run_queue sc"
  shows "sys_ok (set_cpu c f s)" "all_queued (set_cpu c f s) = all_queued s"
proof -
  have e: "map run_queue (cpus (set_cpu c f s)) = map run_queue (cpus s)"
  proof (rule nth_equalityI)
    fix i assume "i < length (map run_queue (cpus (set_cpu c f s)))"
    then show "map run_queue (cpus (set_cpu c f s)) ! i = map run_queue (cpus s) ! i" by (cases "i = c") (simp_all add: f)
  qed simp
  from arg_cong[OF e, of "\<lambda>qs. sum_list (map queued qs)"] show "all_queued (set_cpu c f s) = all_queued s"
    by (simp add: all_queued_def comp_def)
  from arg_cong[OF e, of set] ok show "sys_ok (set_cpu c f s)"
    by (force simp: sys_ok_def image_iff)
qed

text \<open>Changes of threads that keep the priority of queued ones.\<close>

lemma in_sum_list: "t \<in># sum_list (map f xs) \<longleftrightarrow> (\<exists>x \<in> set xs. t \<in># f x)"
  by (induction xs) auto

lemma in_all_queued: "t \<in># all_queued s \<longleftrightarrow> (\<exists>sc \<in> set (cpus s). t \<in># queued (run_queue sc))"
  by (simp add: all_queued_def in_sum_list)

lemma in_level_queued:
  assumes "mlfq_ok q" "l < MLFQ_LEVELS" "t \<in> set (levels q ! l)"
  shows "t \<in># queued q"
  using assms length_levels[OF assms(1)] by (auto simp: queued_def)

lemma aligned_cong:
  assumes "aligned th q" "mlfq_ok q" "\<And>t. t \<in># queued q \<Longrightarrow> priority (th' t) = priority (th t)"
  shows "aligned th' q"
  using assms in_level_queued[OF assms(2)] by (auto simp: aligned_def)

lemma sys_ok_threads:
  assumes "sys_ok s" "cpus s' = cpus s" "cpu_count s' = cpu_count s"
    "\<And>t. t \<in># all_queued s \<Longrightarrow> priority (threads s' t) = priority (threads s t)"
  shows "sys_ok s'"
proof -
  have "aligned (threads s') (run_queue sc)" if sc: "sc \<in> set (cpus s)" for sc
    using assms(1,4) sc aligned_cong[of "threads s" "run_queue sc" "threads s'"] by (auto simp: sys_ok_def in_all_queued)
  then show ?thesis using assms by (simp add: sys_ok_def)
qed

section \<open>Choosing the next thread\<close>

text \<open>Steps that move threads between queues, take at most one out, and touch nothing else.\<close>

definition takes :: "u64 option \<Rightarrow> sched \<Rightarrow> sched \<Rightarrow> bool" where
  "takes r s s' \<longleftrightarrow> sys_ok s' \<and> threads s' = threads s \<and> same_cpus s s' \<and>
     all_queued s = (case r of Some t \<Rightarrow> {#t#} | None \<Rightarrow> {#}) + all_queued s'"

lemma takes_refl: "sys_ok s \<Longrightarrow> takes None s s"
  by (simp add: takes_def)

lemma takes_trans: "takes None s s1 \<Longrightarrow> takes r s1 s2 \<Longrightarrow> takes r s s2"
  by (auto simp: takes_def intro: same_cpus_trans)

lemma takes_pop:
  assumes ok: "sys_ok s" and c: "c < MAX_CPUS" and p: "mlfq_pop (run_queue (cpus s ! c)) = Some (t, q)"
  shows "takes (Some t) s (set_cpu c (\<lambda>sc. sc\<lparr>run_queue := q\<rparr>) s)"
proof -
  note b = push_back(2-4)[OF sys_okD(1,2)[OF ok c] p]
  note q = set_queue[OF ok c b(1,2) refl]
  have "all_queued s = add_mset t (all_queued (set_cpu c (\<lambda>sc. sc\<lparr>run_queue := q\<rparr>) s))"
    using q(2) b(3) by simp
  then show ?thesis using q(1,3,4) by (simp add: takes_def)
qed

lemma takes_cursor:
  assumes "sys_ok s"
  shows "takes None s (set_cpu c (\<lambda>sc. sc\<lparr>steal_cursor := x\<rparr>) s)"
  using set_other[OF assms, of "\<lambda>sc. sc\<lparr>steal_cursor := x\<rparr>"] same_cpus_set[of "\<lambda>sc. sc\<lparr>steal_cursor := x\<rparr>"] by (simp add: takes_def)

lemma steal_from_spec:
  assumes ok: "sys_ok s" and c: "c < MAX_CPUS" "v < MAX_CPUS" "v \<noteq> c" and r: "steal_from avail v c s = (r, s')"
  shows "takes (case r of Some r' \<Rightarrow> r' | None \<Rightarrow> None) s s'"
proof (cases "avail v \<and> \<not> mq_total (run_queue (cpus s ! v)) < 1")
  case False
  then show ?thesis using r ok by (auto simp: steal_from_def Let_def takes_refl split: if_splits)
next
  case True
  obtain k vq dq where st: "steal_into (threads s) (run_queue (cpus s ! v)) (run_queue (cpus s ! c))
      (min (max (unat (mq_total (run_queue (cpus s ! v))) div 2) 1) MAX_STEAL_BATCH) = (k, vq, dq)" by (metis prod_cases3)
  note sp = steal_loop_spec[OF sys_okD(1)[OF ok c(2)] sys_okD(1)[OF ok c(1)] sys_okD(2)[OF ok c(2)] sys_okD(2)[OF ok c(1)] st[unfolded steal_into_def]]
  let ?s1 = "set_cpu v (\<lambda>sc. sc\<lparr>run_queue := vq\<rparr>) s"
  let ?s2 = "set_cpu c (\<lambda>sc. sc\<lparr>run_queue := dq\<rparr>) ?s1"
  have q1: "sys_ok ?s1" "all_queued ?s1 + queued (run_queue (cpus s ! v)) = all_queued s + queued vq"
      "same_cpus s ?s1"
    using set_queue[OF ok c(2) _ _ refl, of vq] sp by blast+
  have q2: "sys_ok ?s2" "all_queued ?s2 + queued (run_queue (cpus ?s1 ! c)) = all_queued ?s1 + queued dq"
      "same_cpus ?s1 ?s2"
    using set_queue[OF q1(1) c(1) _ _ refl, of dq] sp by simp_all
  have "all_queued ?s2 + queued (run_queue (cpus s ! c)) + queued (run_queue (cpus s ! v)) = all_queued s + (queued vq + queued dq)"
    using q1(2) q2(2) c(3) by (simp add: ac_simps)
  moreover have "queued vq + queued dq = queued (run_queue (cpus s ! c)) + queued (run_queue (cpus s ! v))"
    using sp by (simp add: add.commute)
  ultimately have "all_queued ?s2 = all_queued s" by (simp only: add.assoc add_right_cancel)
  then have t2: "takes None s ?s2" using q1 q2 same_cpus_trans[OF q1(3) q2(3)] by (simp add: takes_def)
  have dq: "run_queue (cpus ?s2 ! c) = dq" using sys_okD(3)[OF ok c(1)] by simp
  show ?thesis
  proof (cases "k \<noteq> 0 \<and> mlfq_pop dq \<noteq> None")
    case False
    then show ?thesis using True r st t2 by (auto simp: steal_from_def Let_def split: if_splits option.splits)
  next
    case pop: True
    then obtain t q where p: "mlfq_pop dq = Some (t, q)" by auto
    then have "takes (Some t) ?s2 (set_cpu c (\<lambda>sc. sc\<lparr>run_queue := q\<rparr>) ?s2)" using takes_pop[OF q2(1) c(1)] dq by simp
    with takes_trans[OF t2] show ?thesis using True r st pop p by (auto simp: steal_from_def Let_def)
  qed
qed

lemma steal_scan_spec:
  "sys_ok s \<Longrightarrow> c < MAX_CPUS \<Longrightarrow> 0 < ncpu \<Longrightarrow> ncpu \<le> MAX_CPUS \<Longrightarrow> steal_scan avail c ncpu rem attempts s = (r, s') \<Longrightarrow> takes r s s'"
proof (induction rem arbitrary: attempts s)
  case 0
  then show ?case by (auto simp: takes_refl)
next
  case (Suc rem)
  let ?v = "unat (steal_cursor (cpus s ! c)) mod ncpu"
  let ?s1 = "set_cpu c (\<lambda>sc. sc\<lparr>steal_cursor := of_nat ((?v + 1) mod ncpu)\<rparr>) s"
  have v: "?v < MAX_CPUS" using Suc.prems(3,4) by (intro less_le_trans[OF mod_less_divisor])
  have t1: "takes None s ?s1" by (rule takes_cursor[OF Suc.prems(1)])
  then have ok1: "sys_ok ?s1" by (simp add: takes_def)
  consider "ncpu - 1 \<le> attempts" | "\<not> ncpu - 1 \<le> attempts" "?v = c" | "\<not> ncpu - 1 \<le> attempts" "?v \<noteq> c" by blast
  then show ?case
  proof cases
    case 1
    then show ?thesis using Suc.prems by (auto simp: takes_refl)
  next
    case 2
    then have "steal_scan avail c ncpu rem attempts ?s1 = (r, s')" using Suc.prems(5) by (simp add: Let_def)
    from takes_trans[OF t1 Suc.IH[OF ok1 Suc.prems(2-4) this]] show ?thesis .
  next
    case 3
    obtain r2 s2 where f: "steal_from avail ?v c ?s1 = (r2, s2)" by fastforce
    note t2 = takes_trans[OF t1 steal_from_spec[OF ok1 Suc.prems(2) v 3(2) f]]
    show ?thesis
    proof (cases r2)
      case None
      then have "steal_scan avail c ncpu rem (attempts + 1) s2 = (r, s')" "sys_ok s2" using Suc.prems(5) 3 f t2 by (simp_all add: Let_def takes_def)
      with t2 None show ?thesis using takes_trans Suc.IH[OF _ Suc.prems(2-4)] by fastforce
    next
      case (Some r3)
      then show ?thesis using t2 Suc.prems(5) 3 f by (simp add: Let_def)
    qed
  qed
qed

lemma pick_next_spec:
  assumes ok: "sys_ok s" and c: "c < MAX_CPUS" and p: "pick_next avail c s = (nxt, s')"
  shows "takes (Some nxt) s s' \<or> nxt = idle_thread (cpus s ! c) \<and> takes None s s'"
proof (cases "mlfq_pop (run_queue (cpus s ! c))")
  case (Some a)
  then show ?thesis using p takes_pop[OF ok c] by (cases a) (auto simp: pick_next_def)
next
  case None
  obtain r s2 where t: "try_steal avail c s = (r, s2)" by fastforce
  have "takes r s s2"
  proof (cases "unat (cpu_count s) \<le> 1")
    case True
    then show ?thesis using t ok by (auto simp: try_steal_def takes_refl)
  next
    case False
    then have "steal_scan avail c (unat (cpu_count s)) (unat (cpu_count s)) 0 s = (r, s2)" using t by (simp add: try_steal_def Let_def)
    from steal_scan_spec[OF ok c _ _ this] False ok show ?thesis by (simp add: sys_ok_def)
  qed
  then show ?thesis using p None t by (cases r) (auto simp: pick_next_def takes_def same_cpus_def)
qed

section \<open>What one call of the scheduler does\<close>

definition valid_current :: "nat \<Rightarrow> sched \<Rightarrow> bool" where
  "valid_current c s \<longleftrightarrow> current (cpus s ! c) \<noteq> 0 \<and> current (cpus s ! c) \<noteq> idle_thread (cpus s ! c)"

text \<open>The current thread stays schedulable.\<close>

definition keeps :: "nat \<Rightarrow> sched \<Rightarrow> bool" where
  "keeps c s \<longleftrightarrow> valid_current c s \<and> t_state (threads s (current (cpus s ! c))) \<in> {Running, Runnable}"

lemma schedule_tick_spec:
  assumes ok: "sys_ok s" and c: "c < MAX_CPUS"
  shows "\<exists>s'. schedule_tick c s = Some s' \<and> sys_ok s' \<and> same_cpus s s' \<and> all_queued s' = all_queued s \<and>
    queued (run_queue (cpus s' ! c)) = queued (run_queue (cpus s ! c)) \<and> (\<exists>T. threads s' = boosted T (threads s))"
proof -
  let ?s1 = "set_cpu c (\<lambda>sc. sc\<lparr>tick_count := tick_count sc + 1\<rparr>) s"
  have len: "c < length (cpus s)" by (rule sys_okD(3)[OF ok c])
  have s1: "sys_ok ?s1" "all_queued ?s1 = all_queued s" using set_other[OF ok, of "\<lambda>sc. sc\<lparr>tick_count := tick_count sc + 1\<rparr>"] by simp_all
  have same1: "same_cpus s ?s1" by (rule same_cpus_set) simp_all
  show ?thesis
  proof (cases "unat (tick_count (cpus ?s1 ! c)) mod BOOST_INTERVAL = 0")
    case False
    then show ?thesis using s1 same1 len by (auto simp: schedule_tick_def Let_def intro!: exI[of _ "{}"])
  next
    case True
    obtain q T where b: "boost_all (run_queue (cpus ?s1 ! c), threads ?s1) = Some (q, boosted T (threads ?s1))" "mlfq_ok q"
        "queued q = queued (run_queue (cpus ?s1 ! c))" "aligned (boosted T (threads ?s1)) q"
      using boost_all_spec[OF sys_okD(1)[OF s1(1) c], of "threads ?s1"] sys_okD(2)[OF s1(1) c] by blast
    let ?s2 = "(set_cpu c (\<lambda>sc. sc\<lparr>run_queue := q\<rparr>) ?s1)\<lparr>threads := boosted T (threads ?s1)\<rparr>"
    have "mlfq_ok (run_queue (cpus ?s2 ! d)) \<and> aligned (threads ?s2) (run_queue (cpus ?s2 ! d))" if d: "d < MAX_CPUS" for d
      using b sys_okD[OF s1(1) d] len by (cases "d = c") (auto intro: boosted_aligned)
    then have ok2: "sys_ok ?s2" using s1(1) by (intro sys_okI) (simp_all add: sys_ok_def)
    have "all_queued ?s2 = all_queued s"
      using all_queued_set_cpu[of c ?s1 "\<lambda>sc. sc\<lparr>run_queue := q\<rparr>"] b(3) s1(2) len by simp
    moreover have "same_cpus ?s1 ?s2" using same_cpus_set[of "\<lambda>sc. sc\<lparr>run_queue := q\<rparr>" ?s1 c] by (simp add: same_cpus_def)
    ultimately show ?thesis
      using True b(1,3) ok2 same_cpus_trans[OF same1] len by (simp add: schedule_tick_def Let_def) blast
  qed
qed

lemma push_to_spec:
  assumes ok: "sys_ok s" and c: "c < MAX_CPUS" and p: "push_to c t s = (b, s')"
  shows "sys_ok s'" "same_cpus s s'" "threads s' = threads s" "b \<Longrightarrow> all_queued s' = add_mset t (all_queued s)" "\<not> b \<Longrightarrow> all_queued s' = all_queued s"
    "size (queued (run_queue (cpus s ! c))) < LEVEL_CAP \<Longrightarrow> b"
proof -
  obtain q where q: "mlfq_push t (unat (priority (threads s t))) (run_queue (cpus s ! c)) = (b, q)"
      "s' = set_cpu c (\<lambda>sc. sc\<lparr>run_queue := q\<rparr>) s"
    using p by (auto simp: push_to_def split: prod.splits)
  note a = mlfq_push_aligned[OF sys_okD(1,2)[OF ok c] q(1)]
  have s': "sys_ok s'" "all_queued s' + queued (run_queue (cpus s ! c)) = all_queued s + queued q" "same_cpus s s'" "threads s' = threads s"
    using set_queue[OF ok c _ _ q(2)] a by blast+
  then show "sys_ok s'" "same_cpus s s'" "threads s' = threads s" by blast+
  show "b \<Longrightarrow> all_queued s' = add_mset t (all_queued s)" "\<not> b \<Longrightarrow> all_queued s' = all_queued s"
    using s'(2) a by (auto split: if_splits)
  let ?l = "min (unat (priority (threads s t))) (MLFQ_LEVELS - 1)"
  assume "size (queued (run_queue (cpus s ! c))) < LEVEL_CAP"
  moreover have "mset (levels (run_queue (cpus s ! c)) ! ?l) \<subseteq># queued (run_queue (cpus s ! c))"
    using length_levels[OF sys_okD(1)[OF ok c]] min_level[of "unat (priority (threads s t))"]
      mset_concat_update[of ?l "levels (run_queue (cpus s ! c))" "[]"] by (metis mset_subset_eq_add_right queued_def mset.simps(1) add_0_right)
  then have "length (levels (run_queue (cpus s ! c)) ! ?l) \<le> size (queued (run_queue (cpus s ! c)))"
    using size_mset_mono by fastforce
  ultimately have "length (levels (run_queue (cpus s ! c)) ! ?l) < LEVEL_CAP" by linarith
  from mlfq_push_ok[OF sys_okD(1)[OF ok c] refl this, of t] q(1) show b by auto
qed

lemma charge_tick_state: "charge_tick t = (e, t') \<Longrightarrow> t_state t' = t_state t"
  by (auto simp: charge_tick_def Let_def split: if_splits)

text \<open>The current thread, if it stays schedulable, as a multiset.\<close>

definition kept :: "nat \<Rightarrow> sched \<Rightarrow> u64 multiset" where
  "kept c s = (if keeps c s then {#current (cpus s ! c)#} else {#})"

lemma requeue_current_spec:
  assumes ok: "sys_ok s" and c: "c < MAX_CPUS" and room: "size (queued (run_queue (cpus s ! c))) < LEVEL_CAP"
    and lone: "t_state (threads s (current (cpus s ! c))) = Running \<Longrightarrow> current (cpus s ! c) \<notin># all_queued s"
    and r: "requeue_current c s = (early, s')"
  shows "sys_ok s'" "same_cpus s s'"
    "all_queued s' = all_queued s + (if early then {#} else kept c s)"
    "early \<Longrightarrow> keeps c s \<and> t_state (threads s (current (cpus s ! c))) = Running"
    "t_state (threads s' t) = (if t = current (cpus s ! c) \<and> keeps c s \<and> \<not> early then Runnable else t_state (threads s t))"
proof -
  let ?cur = "current (cpus s ! c)"
  consider (idle) "\<not> valid_current c s" | (run) "valid_current c s" "t_state (threads s ?cur) = Running"
    | (ready) "valid_current c s" "t_state (threads s ?cur) = Runnable"
    | (off) "valid_current c s" "t_state (threads s ?cur) \<in> {Blocked, Dead}"
    by (cases "t_state (threads s ?cur)") auto
  then have "sys_ok s' \<and> same_cpus s s' \<and> all_queued s' = all_queued s + (if early then {#} else kept c s) \<and>
    (early \<longrightarrow> keeps c s \<and> t_state (threads s ?cur) = Running) \<and>
    (\<forall>t. t_state (threads s' t) = (if t = ?cur \<and> keeps c s \<and> \<not> early then Runnable else t_state (threads s t)))"
  proof cases
    case idle
    then show ?thesis using r ok by (auto simp: requeue_current_def valid_current_def keeps_def kept_def)
  next
    case run
    obtain e t' where ct: "charge_tick (threads s ?cur) = (e, t')" by fastforce
    have st: "t_state t' = Running" using charge_tick_state[OF ct] run(2) by simp
    have kp: "keeps c s" using run by (simp add: keeps_def)
    show ?thesis
    proof (cases e)
      case False
      have s': "early" "s' = set_thread ?cur (\<lambda>_. t') s"
        using r run ct False by (simp_all add: requeue_current_def valid_current_def Let_def)
      have "sys_ok s'" by (rule sys_ok_threads[OF ok]) (use lone[OF run(2)] in \<open>auto simp: s'\<close>)
      then show ?thesis using s' kp run(2) st by simp
    next
      case True
      let ?s1 = "set_thread ?cur (\<lambda>_. t'\<lparr>t_state := Runnable\<rparr>) s"
      obtain b s2 where p: "push_to c ?cur ?s1 = (b, s2)" by fastforce
      have s': "\<not> early" "s' = s2"
        using r run ct True p by (simp_all add: requeue_current_def valid_current_def Let_def)
      have ok1: "sys_ok ?s1" by (rule sys_ok_threads[OF ok]) (use lone[OF run(2)] in \<open>auto\<close>)
      note ps = push_to_spec[OF ok1 c p]
      have "all_queued s2 = add_mset ?cur (all_queued s)" using ps(4,6) room by simp
      moreover have "same_cpus s s2" using same_cpus_trans[OF _ ps(2)] by simp
      ultimately show ?thesis using ps(1,3) s' kp by (simp add: kept_def)
    qed
  next
    case ready
    obtain b s2 where p: "push_to c ?cur s = (b, s2)" by fastforce
    have s': "\<not> early" "s' = s2" using r ready p by (simp_all add: requeue_current_def valid_current_def Let_def)
    note ps = push_to_spec[OF ok c p]
    have "keeps c s" using ready by (simp add: keeps_def)
    moreover have "all_queued s2 = add_mset ?cur (all_queued s)" using ps(4,6) room by simp
    ultimately show ?thesis using ps(1-3) s' ready by (simp add: kept_def)
  next
    case off
    have s': "\<not> early" "s' = set_thread ?cur (\<lambda>t. t\<lparr>ticks_used := 0\<rparr>) s"
      using r off by (auto simp: requeue_current_def valid_current_def Let_def)
    have "sys_ok s'" by (rule sys_ok_threads[OF ok]) (simp_all add: s')
    moreover have "\<not> keeps c s" using off by (auto simp: keeps_def)
    ultimately show ?thesis using s' by (simp add: kept_def)
  qed
  then show "sys_ok s'" "same_cpus s s'" "all_queued s' = all_queued s + (if early then {#} else kept c s)"
    "early \<Longrightarrow> keeps c s \<and> t_state (threads s ?cur) = Running"
    "t_state (threads s' t) = (if t = ?cur \<and> keeps c s \<and> \<not> early then Runnable else t_state (threads s t))" by blast+
qed

text \<open>The thread a CPU runs, if it is not its idle thread.\<close>

definition running :: "nat \<Rightarrow> sched \<Rightarrow> u64 multiset" where
  "running c s = (if current (cpus s ! c) = idle_thread (cpus s ! c) then {#} else {#current (cpus s ! c)#})"

text \<open>The result of a call on CPU \<open>c\<close>: who is queued, who runs, and the state of every thread.\<close>

definition sched_result :: "nat \<Rightarrow> sched \<Rightarrow> sched \<Rightarrow> bool" where
  "sched_result c s s' \<longleftrightarrow> sys_ok s' \<and> cpu_count s' = cpu_count s \<and>
     (\<forall>d. idle_thread (cpus s' ! d) = idle_thread (cpus s ! d) \<and> (d \<noteq> c \<longrightarrow> current (cpus s' ! d) = current (cpus s ! d))) \<and>
     all_queued s' + running c s' = all_queued s + kept c s \<and>
     (\<forall>t. t_state (threads s' t) =
        (if t = current (cpus s' ! c) then Running
         else if t = current (cpus s ! c) \<and> keeps c s then Runnable else t_state (threads s t)))"

lemma dispatch_spec:
  assumes ok: "sys_ok s" and c: "c < MAX_CPUS" and cur: "current (cpus s ! c) \<noteq> 0"
    and d: "dispatch c (current (cpus s ! c)) nxt s = (r, s')"
  shows "sys_ok s'" "cpu_count s' = cpu_count s" "all_queued s' = all_queued s" "current (cpus s' ! c) = nxt"
    "idle_thread (cpus s' ! d) = idle_thread (cpus s ! d)" "d \<noteq> c \<Longrightarrow> current (cpus s' ! d) = current (cpus s ! d)"
    "t_state (threads s' t) = (if t = nxt then Running else t_state (threads s t))"
proof -
  have len: "c < length (cpus s)" by (rule sys_okD(3)[OF ok c])
  let ?s1 = "set_cpu c (\<lambda>sc. sc\<lparr>current := nxt\<rparr>) s"
  have o: "sys_ok ?s1" "all_queued ?s1 = all_queued s" using set_other[OF ok, of "\<lambda>sc. sc\<lparr>current := nxt\<rparr>"] by simp_all
  have "(\<exists>f. s' = set_thread nxt f s \<and> nxt = current (cpus s ! c) \<and> (\<forall>t. priority (f t) = priority t \<and> t_state (f t) = Running)) \<or>
      (\<exists>f. s' = set_thread nxt f ?s1 \<and> (\<forall>t. priority (f t) = priority t \<and> t_state (f t) = Running))"
    using d cur by (auto simp: dispatch_def split: if_splits)
  then have all: "sys_ok s' \<and> cpu_count s' = cpu_count s \<and> all_queued s' = all_queued s \<and> current (cpus s' ! c) = nxt \<and>
    (\<forall>d. idle_thread (cpus s' ! d) = idle_thread (cpus s ! d)) \<and> (\<forall>d. d \<noteq> c \<longrightarrow> current (cpus s' ! d) = current (cpus s ! d)) \<and>
    (\<forall>t. t_state (threads s' t) = (if t = nxt then Running else t_state (threads s t)))"
  proof (elim disjE exE conjE)
    fix f assume f: "s' = set_thread nxt f s" "nxt = current (cpus s ! c)" "\<forall>t. priority (f t) = priority t \<and> t_state (f t) = Running"
    have "sys_ok s'" by (rule sys_ok_threads[OF ok]) (simp_all add: f)
    then show ?thesis using f by simp
  next
    fix f assume f: "s' = set_thread nxt f ?s1" "\<forall>t. priority (f t) = priority t \<and> t_state (f t) = Running"
    have "sys_ok s'" by (rule sys_ok_threads[OF o(1)]) (simp_all add: f)
    moreover have "idle_thread (cpus s' ! d) = idle_thread (cpus s ! d)" for d using f len by (cases "d = c") simp_all
    ultimately show ?thesis using f o(2) len by simp
  qed
  then show "sys_ok s'" "cpu_count s' = cpu_count s" "all_queued s' = all_queued s" "current (cpus s' ! c) = nxt"
    "idle_thread (cpus s' ! d) = idle_thread (cpus s ! d)" "d \<noteq> c \<Longrightarrow> current (cpus s' ! d) = current (cpus s ! d)"
    "t_state (threads s' t) = (if t = nxt then Running else t_state (threads s t))" by blast+
qed

lemma pick_dispatch:
  assumes ok: "sys_ok s" and c: "c < MAX_CPUS" and cur: "current (cpus s ! c) \<noteq> 0" and idle: "idle_thread (cpus s ! c) \<notin># all_queued s"
    and p: "pick_next avail c s = (nxt, s1)" and d: "dispatch c (current (cpus s ! c)) nxt s1 = (r, s')"
  shows "sys_ok s'" "cpu_count s' = cpu_count s" "all_queued s' + running c s' = all_queued s"
    "idle_thread (cpus s' ! d) = idle_thread (cpus s ! d)" "d \<noteq> c \<Longrightarrow> current (cpus s' ! d) = current (cpus s ! d)"
    "t_state (threads s' t) = (if t = current (cpus s' ! c) then Running else t_state (threads s t))"
proof -
  have t: "sys_ok s1" "threads s1 = threads s" "same_cpus s s1"
      and q: "all_queued s = add_mset nxt (all_queued s1) \<or> nxt = idle_thread (cpus s ! c) \<and> all_queued s = all_queued s1"
    using pick_next_spec[OF ok c p] by (auto simp: takes_def)
  have same: "current (cpus s1 ! d) = current (cpus s ! d)" "idle_thread (cpus s1 ! d) = idle_thread (cpus s ! d)" for d
    using t(3) by (simp_all add: same_cpus_def)
  note ds = dispatch_spec[OF t(1) c, unfolded same, OF cur d]
  show "sys_ok s'" "cpu_count s' = cpu_count s" using ds(1,2) t(3) by (simp_all add: same_cpus_def)
  show "idle_thread (cpus s' ! d) = idle_thread (cpus s ! d)" "d \<noteq> c \<Longrightarrow> current (cpus s' ! d) = current (cpus s ! d)" by (rule ds)+
  show "t_state (threads s' t) = (if t = current (cpus s' ! c) then Running else t_state (threads s t))" using ds(4,7) t(2) by simp
  show "all_queued s' + running c s' = all_queued s"
    using q idle ds(3,4,5) by (auto simp: running_def)
qed

lemma schedule_spec:
  assumes ok: "sys_ok s" and c: "c < MAX_CPUS" and cur: "current (cpus s ! c) \<noteq> 0"
    and idle: "idle_thread (cpus s ! c) \<notin># all_queued s" and room: "size (queued (run_queue (cpus s ! c))) < LEVEL_CAP"
    and lone: "t_state (threads s (current (cpus s ! c))) = Running \<Longrightarrow> current (cpus s ! c) \<notin># all_queued s"
  shows "\<exists>r s'. schedule avail c s = Some (r, s') \<and> sched_result c s s'"
proof -
  obtain s1 T where s1: "schedule_tick c s = Some s1" "sys_ok s1" "same_cpus s s1" "all_queued s1 = all_queued s"
      "queued (run_queue (cpus s1 ! c)) = queued (run_queue (cpus s ! c))" "threads s1 = boosted T (threads s)"
    using schedule_tick_spec[OF ok c] by blast
  have same: "current (cpus s1 ! d) = current (cpus s ! d)" "idle_thread (cpus s1 ! d) = idle_thread (cpus s ! d)"
      "cpu_count s1 = cpu_count s" for d
    using s1(3) by (simp_all add: same_cpus_def)
  have k: "keeps c s1 = keeps c s" "kept c s1 = kept c s" by (simp_all add: keeps_def kept_def valid_current_def same s1(6))
  obtain early s2 where r: "requeue_current c s1 = (early, s2)" by fastforce
  have "size (queued (run_queue (cpus s1 ! c))) < LEVEL_CAP" "t_state (threads s1 (current (cpus s1 ! c))) = Running \<Longrightarrow> current (cpus s1 ! c) \<notin># all_queued s1"
    using room lone s1(4,5,6) same by simp_all
  note rq = requeue_current_spec[OF s1(2) c this r, unfolded same k s1(4)]
  have same2: "current (cpus s2 ! d) = current (cpus s ! d)" "idle_thread (cpus s2 ! d) = idle_thread (cpus s ! d)" "cpu_count s2 = cpu_count s" for d
    using rq(2) same by (simp_all add: same_cpus_def)
  show ?thesis
  proof (cases early)
    case True
    then have "schedule avail c s = Some (None, s2)" using s1(1) r by (simp add: schedule_def)
    moreover have "sched_result c s s2"
      using rq True same2 s1(6) by (auto simp: sched_result_def running_def kept_def keeps_def valid_current_def)
    ultimately show ?thesis by blast
  next
    case False
    obtain nxt s3 where p: "pick_next avail c s2 = (nxt, s3)" by fastforce
    obtain sw s' where d: "dispatch c (current (cpus s2 ! c)) nxt s3 = (sw, s')" by fastforce
    have "idle_thread (cpus s2 ! c) \<notin># all_queued s2"
      using idle rq(3) False same2 by (auto simp: kept_def keeps_def valid_current_def)
    from pick_dispatch[OF rq(1) c _ this p d] cur same2
    have "sys_ok s'" "cpu_count s' = cpu_count s" "all_queued s' + running c s' = all_queued s2"
      "\<And>d. idle_thread (cpus s' ! d) = idle_thread (cpus s ! d)" "\<And>d. d \<noteq> c \<Longrightarrow> current (cpus s' ! d) = current (cpus s ! d)"
      "\<And>t. t_state (threads s' t) = (if t = current (cpus s' ! c) then Running else t_state (threads s2 t))" by simp_all
    then have "sched_result c s s'" using rq(3,5) False s1(6) by (auto simp: sched_result_def)
    then show ?thesis using s1(1) r False p d same same2 by (auto simp: schedule_def)
  qed
qed

lemma schedule_yield_spec:
  assumes ok: "sys_ok s" and c: "c < MAX_CPUS" and cur: "valid_current c s" "t_state (threads s (current (cpus s ! c))) = Running"
    and idle: "idle_thread (cpus s ! c) \<notin># all_queued s" and room: "size (queued (run_queue (cpus s ! c))) < LEVEL_CAP"
  shows "\<exists>r s'. schedule_yield avail c s = Some (r, s') \<and> sched_result c s s'"
proof -
  let ?cur = "current (cpus s ! c)"
  let ?s1 = "set_thread ?cur (\<lambda>t. t\<lparr>t_state := Runnable, ticks_used := 0\<rparr>) s"
  have ok1: "sys_ok ?s1" by (rule sys_ok_threads[OF ok]) simp_all
  obtain b s2 where p2: "push_to c ?cur ?s1 = (b, s2)" by fastforce
  note ps = push_to_spec[OF ok1 c p2]
  have same2: "current (cpus s2 ! d) = current (cpus s ! d)" "idle_thread (cpus s2 ! d) = idle_thread (cpus s ! d)" "cpu_count s2 = cpu_count s" for d
    using ps(2) by (simp_all add: same_cpus_def)
  have q2: "all_queued s2 = add_mset ?cur (all_queued s)" using ps(4,6) room by simp
  have kp: "keeps c s" using cur by (simp add: keeps_def)
  obtain nxt s3 where p: "pick_next avail c s2 = (nxt, s3)" by fastforce
  obtain sw s' where d: "dispatch c (current (cpus s2 ! c)) nxt s3 = (sw, s')" by fastforce
  have "idle_thread (cpus s2 ! c) \<notin># all_queued s2" using idle q2 same2 cur(1) by (auto simp: valid_current_def)
  from pick_dispatch[OF ps(1) c _ this p d] cur(1) same2
  have "sys_ok s'" "cpu_count s' = cpu_count s" "all_queued s' + running c s' = all_queued s2"
    "\<And>d. idle_thread (cpus s' ! d) = idle_thread (cpus s ! d)" "\<And>d. d \<noteq> c \<Longrightarrow> current (cpus s' ! d) = current (cpus s ! d)"
    "\<And>t. t_state (threads s' t) = (if t = current (cpus s' ! c) then Running else t_state (threads s2 t))"
    by (simp_all add: valid_current_def)
  then have "sched_result c s s'" using q2 ps(3) kp by (simp add: sched_result_def kept_def)
  then show ?thesis using p2 p d cur same2 by (auto simp: schedule_yield_def valid_current_def Let_def)
qed

section \<open>One CPU\<close>

text \<open>
  Executions of a machine with one CPU: interrupts are disabled from the moment a
  thread marks itself blocked or dead until it has called \<open>schedule\<close>, so the two are
  one step.  \<open>K\<close> is the set of threads created so far.
\<close>

definition new_thread :: "nat \<Rightarrow> Thread" where
  "new_thread prio = \<lparr>t_state = Runnable, t_cpu = 0, priority = of_nat (min prio (MLFQ_LEVELS - 1)), ticks_used = 0\<rparr>"

definition boot_sched :: "u64 \<Rightarrow> threads \<Rightarrow> sched" where
  "boot_sched idle th =
     set_idle_thread 0 idle (init_sched_cpu 0 \<lparr>cpus = replicate MAX_CPUS SchedCpu_uninit, cpu_count = 0, threads = th\<rparr>)"

definition mark_current :: "nat \<Rightarrow> ThreadState \<Rightarrow> sched \<Rightarrow> sched" where
  "mark_current c st s = set_thread (current (cpus s ! c)) (\<lambda>t. t\<lparr>t_state := st\<rparr>) s"

inductive up_reach :: "u64 set \<Rightarrow> sched \<Rightarrow> bool" where
  up_boot: "idle \<noteq> 0 \<Longrightarrow> up_reach {} (boot_sched idle th)"
| up_spawn: "up_reach K s \<Longrightarrow> t \<notin> K \<Longrightarrow> t \<noteq> 0 \<Longrightarrow> t \<noteq> idle_thread (cpus s ! 0) \<Longrightarrow> card K < LEVEL_CAP - 1 \<Longrightarrow>
    enqueue_thread t prio (set_thread t (\<lambda>_. new_thread prio) s) = Some s' \<Longrightarrow> up_reach (insert t K) s'"
| up_tick: "up_reach K s \<Longrightarrow> schedule avail 0 s = Some (r, s') \<Longrightarrow> up_reach K s'"
| up_yield: "up_reach K s \<Longrightarrow> valid_current 0 s \<Longrightarrow> schedule_yield avail 0 s = Some (r, s') \<Longrightarrow> up_reach K s'"
| up_block: "up_reach K s \<Longrightarrow> valid_current 0 s \<Longrightarrow> schedule avail 0 (mark_current 0 Blocked s) = Some (r, s') \<Longrightarrow> up_reach K s'"
| up_exit: "up_reach K s \<Longrightarrow> valid_current 0 s \<Longrightarrow> schedule avail 0 (mark_current 0 Dead s) = Some (r, s') \<Longrightarrow> up_reach K s'"
| up_wake: "up_reach K s \<Longrightarrow> t \<in> K \<Longrightarrow> t_state (threads s t) = Blocked \<Longrightarrow> try_make_runnable a1 a2 t s = (b, s') \<Longrightarrow> up_reach K s'"

definition up_inv :: "u64 set \<Rightarrow> sched \<Rightarrow> bool" where
  "up_inv K s \<longleftrightarrow> sys_ok s \<and> finite K \<and> card K < LEVEL_CAP \<and> 0 \<notin> K \<and> idle_thread (cpus s ! 0) \<notin> K \<and> idle_thread (cpus s ! 0) \<noteq> 0 \<and>
     current (cpus s ! 0) \<in> insert (idle_thread (cpus s ! 0)) K \<and> set_mset (all_queued s) \<subseteq> K \<and>
     (\<forall>t \<in> K. count (all_queued s) t = (if t_state (threads s t) = Runnable then 1 else 0) \<and>
        (current (cpus s ! 0) = t \<longleftrightarrow> t_state (threads s t) = Running))"

lemma queued_bound:
  assumes "sys_ok s" "finite K" "set_mset (all_queued s) \<subseteq> K" "\<And>t. t \<in> K \<Longrightarrow> count (all_queued s) t \<le> 1"
  shows "size (queued (run_queue (cpus s ! 0))) \<le> card K"
proof -
  have "0 < length (cpus s)" using assms(1) by (simp add: sys_ok_def MAX_CPUS_def)
  then have "queued (run_queue (cpus s ! 0)) \<subseteq># all_queued s" unfolding all_queued_def by (cases "cpus s") auto
  then have "size (queued (run_queue (cpus s ! 0))) \<le> size (all_queued s)" by (rule size_mset_mono)
  also have "\<dots> = (\<Sum>t \<in> set_mset (all_queued s). count (all_queued s) t)" by (simp add: size_multiset_overloaded_eq)
  also have "\<dots> \<le> (\<Sum>t \<in> set_mset (all_queued s). 1)" using assms(3,4) by (intro sum_mono) auto
  also have "\<dots> \<le> card K" using assms(2,3) by (simp add: card_mono)
  finally show ?thesis .
qed

lemma up_invD:
  assumes "up_inv K s"
  shows "sys_ok s" "current (cpus s ! 0) \<noteq> 0" "idle_thread (cpus s ! 0) \<notin># all_queued s"
    "size (queued (run_queue (cpus s ! 0))) < LEVEL_CAP" "current (cpus s ! 0) \<notin># all_queued s"
    "valid_current 0 s \<Longrightarrow> current (cpus s ! 0) \<in> K \<and> t_state (threads s (current (cpus s ! 0))) = Running"
proof -
  show ok: "sys_ok s" "current (cpus s ! 0) \<noteq> 0" "idle_thread (cpus s ! 0) \<notin># all_queued s"
    "valid_current 0 s \<Longrightarrow> current (cpus s ! 0) \<in> K \<and> t_state (threads s (current (cpus s ! 0))) = Running"
    using assms by (auto simp: up_inv_def valid_current_def)
  show "current (cpus s ! 0) \<notin># all_queued s"
    using assms by (auto simp: up_inv_def count_eq_zero_iff[symmetric])
  show "size (queued (run_queue (cpus s ! 0))) < LEVEL_CAP"
  proof -
    have "count (all_queued s) t \<le> 1" if "t \<in> K" for t using assms that by (simp add: up_inv_def)
    then show ?thesis using queued_bound[OF ok(1), of K] assms by (simp add: up_inv_def)
  qed
qed

text \<open>The state in which \<open>schedule\<close> is called: the current thread may already be marked.\<close>

definition up_pre :: "u64 set \<Rightarrow> sched \<Rightarrow> bool" where
  "up_pre K s \<longleftrightarrow> sys_ok s \<and> finite K \<and> card K < LEVEL_CAP \<and> 0 \<notin> K \<and> idle_thread (cpus s ! 0) \<notin> K \<and> idle_thread (cpus s ! 0) \<noteq> 0 \<and>
     current (cpus s ! 0) \<in> insert (idle_thread (cpus s ! 0)) K \<and> set_mset (all_queued s) \<subseteq> K \<and>
     current (cpus s ! 0) \<notin># all_queued s \<and>
     (current (cpus s ! 0) \<in> K \<longrightarrow> t_state (threads s (current (cpus s ! 0))) \<noteq> Runnable) \<and>
     (\<forall>t \<in> K - {current (cpus s ! 0)}. count (all_queued s) t = (if t_state (threads s t) = Runnable then 1 else 0) \<and>
        t_state (threads s t) \<noteq> Running)"

lemma up_inv_pre: "up_inv K s \<Longrightarrow> up_pre K s"
  using up_invD(5)[of K s] by (auto simp: up_inv_def up_pre_def)

lemma up_inv_mark:
  assumes inv: "up_inv K s" and v: "valid_current 0 s" and st: "st \<in> {Blocked, Dead}"
  shows "up_pre K (mark_current 0 st s)"
proof -
  have "sys_ok (mark_current 0 st s)"
    by (rule sys_ok_threads[OF up_invD(1)[OF inv]]) (simp_all add: mark_current_def)
  then show ?thesis using inv v st up_invD(5)[OF inv] by (auto simp: up_inv_def up_pre_def mark_current_def valid_current_def)
qed

lemma sched_result_inv:
  assumes pre: "up_pre K s" and r: "sched_result 0 s s'"
  shows "up_inv K s'"
proof -
  let ?cur = "current (cpus s ! 0)" and ?cur' = "current (cpus s' ! 0)" and ?idle = "idle_thread (cpus s ! 0)"
  have idle: "idle_thread (cpus s' ! 0) = ?idle" and ok': "sys_ok s'" using r by (auto simp: sched_result_def)
  have eq: "count (all_queued s') t + count (running 0 s') t = count (all_queued s) t + count (kept 0 s) t" for t
  proof -
    have "all_queued s' + running 0 s' = all_queued s + kept 0 s" using r by (simp add: sched_result_def)
    from arg_cong[OF this, of "\<lambda>M. count M t"] show ?thesis by simp
  qed
  have kept: "count (kept 0 s) t = (if keeps 0 s \<and> t = ?cur then 1 else 0)" for t by (simp add: kept_def)
  have run: "count (running 0 s') t = (if ?cur' \<noteq> ?idle \<and> t = ?cur' then 1 else 0)" for t using idle by (simp add: running_def)
  have st: "t_state (threads s' t) = (if t = ?cur' then Running else if t = ?cur \<and> keeps 0 s then Runnable else t_state (threads s t))" for t
    using r by (simp add: sched_result_def)
  have kK: "keeps 0 s \<Longrightarrow> ?cur \<in> K" using pre by (auto simp: keeps_def valid_current_def up_pre_def)
  have c0: "count (all_queued s) ?cur = 0" using pre by (simp add: up_pre_def count_eq_zero_iff)
  have other: "t \<in> K \<Longrightarrow> t \<noteq> ?cur \<Longrightarrow> count (all_queued s) t = (if t_state (threads s t) = Runnable then 1 else 0) \<and> t_state (threads s t) \<noteq> Running" for t
    using pre by (auto simp: up_pre_def)
  have off: "?cur \<in> K \<Longrightarrow> \<not> keeps 0 s \<Longrightarrow> t_state (threads s ?cur) \<notin> {Runnable, Running}"
    using pre by (auto simp: up_pre_def keeps_def valid_current_def)
  have sub: "t \<in> K" if "0 < count (all_queued s') t + count (running 0 s') t" for t
    using that pre kK unfolding eq kept by (auto simp: up_pre_def split: if_splits)
  have cur': "?cur' \<in> insert ?idle K" using sub[of ?cur'] run[of ?cur'] by (cases "?cur' = ?idle") auto
  have K: "count (all_queued s') t = (if t_state (threads s' t) = Runnable then 1 else 0) \<and> (?cur' = t \<longleftrightarrow> t_state (threads s' t) = Running)" if t: "t \<in> K" for t
  proof (cases "t = ?cur'")
    case True
    then have "?cur' \<noteq> ?idle" using t pre by (auto simp: up_pre_def)
    then have "count (all_queued s') t + 1 = count (all_queued s) t + count (kept 0 s) t" using eq[of t] run True by simp
    moreover have "count (all_queued s) t + count (kept 0 s) t \<le> 1" using c0 other[OF t] by (cases "t = ?cur") (auto simp: kept)
    ultimately show ?thesis using True by (simp add: st)
  next
    case False
    then have "count (all_queued s') t = count (all_queued s) t + count (kept 0 s) t" using eq[of t] run by simp
    then show ?thesis using False c0 other[OF t] off t by (cases "t = ?cur") (auto simp: st kept)
  qed
  have "set_mset (all_queued s') \<subseteq> K" using sub by auto
  then show ?thesis using pre ok' cur' K idle by (simp add: up_inv_def up_pre_def)
qed

lemma up_pre_schedule:
  assumes pre: "up_pre K s"
  shows "\<exists>r s'. schedule avail 0 s = Some (r, s') \<and> sched_result 0 s s' \<and> up_inv K s'"
proof -
  have "count (all_queued s) t \<le> 1" if "t \<in> K" for t
    using pre that by (cases "t = current (cpus s ! 0)") (auto simp: up_pre_def count_eq_zero_iff[symmetric])
  then have "size (queued (run_queue (cpus s ! 0))) < LEVEL_CAP"
    using queued_bound[of s K] pre by (simp add: up_pre_def)
  moreover have "idle_thread (cpus s ! 0) \<notin># all_queued s" "sys_ok s" "current (cpus s ! 0) \<noteq> 0" "current (cpus s ! 0) \<notin># all_queued s"
    using pre by (auto simp: up_pre_def)
  ultimately show ?thesis
    using schedule_spec[of s 0 avail] sched_result_inv[OF pre] by (auto simp: MAX_CPUS_def)
qed

lemma up_inv_yield:
  assumes inv: "up_inv K s" and v: "valid_current 0 s"
  shows "\<exists>r s'. schedule_yield avail 0 s = Some (r, s') \<and> up_inv K s'"
  using schedule_yield_spec[OF up_invD(1)[OF inv] _ v _ up_invD(3,4)[OF inv], of avail] up_invD(6)[OF inv v]
    sched_result_inv[OF up_inv_pre[OF inv]] by (auto simp: MAX_CPUS_def)

lemma up_inv_wake:
  assumes inv: "up_inv K s" and t: "t \<in> K" "t_state (threads s t) = Blocked" and w: "try_make_runnable a1 a2 t s = (b, s')"
  shows "up_inv K s'"
proof -
  let ?s1 = "set_thread t (\<lambda>th. th\<lparr>t_state := Runnable\<rparr>) s"
  have ok1: "sys_ok ?s1" by (rule sys_ok_threads[OF up_invD(1)[OF inv]]) simp_all
  obtain b1 s1 where p: "push_to 0 t ?s1 = (b1, s1)" by fastforce
  note ps = push_to_spec[OF ok1 _ p]
  have z: "0 < MAX_CPUS" by (simp add: MAX_CPUS_def)
  have b1: "b1" using ps(6)[OF z] up_invD(4)[OF inv] by simp
  have t0: "t \<noteq> 0" using t inv by (auto simp: up_inv_def)
  have "s' = s \<or> s' = s1" using w p b1 t0 by (auto simp: try_make_runnable_def try_push_to_cpu_def MAX_CPUS_def split: if_splits prod.splits)
  moreover have "up_inv K s1"
  proof -
    have q: "all_queued s1 = add_mset t (all_queued s)" using ps(4)[OF z b1] by simp
    have "count (all_queued s) t = 0" using inv t by (auto simp: up_inv_def)
    moreover have "current (cpus s1 ! d) = current (cpus s ! d)" "idle_thread (cpus s1 ! d) = idle_thread (cpus s ! d)" for d
      using ps(2)[OF z] by (simp_all add: same_cpus_def)
    ultimately show ?thesis using inv t ps(1,3)[OF z] q by (auto simp: up_inv_def)
  qed
  ultimately show ?thesis using inv by blast
qed

lemma up_inv_spawn:
  assumes inv: "up_inv K s" and t: "t \<notin> K" "t \<noteq> 0" "t \<noteq> idle_thread (cpus s ! 0)" "card K < LEVEL_CAP - 1"
    and e: "enqueue_thread t prio (set_thread t (\<lambda>_. new_thread prio) s) = Some s'"
  shows "up_inv (insert t K) s'"
proof -
  let ?s1 = "set_thread t (\<lambda>_. new_thread prio) s"
  have z: "0 < MAX_CPUS" by (simp add: MAX_CPUS_def)
  have nq: "t \<notin># all_queued s" "t \<noteq> current (cpus s ! 0)" using inv t by (auto simp: up_inv_def)
  have ok1: "sys_ok ?s1" by (rule sys_ok_threads[OF up_invD(1)[OF inv]]) (use nq in auto)
  have pr: "unat (priority (new_thread prio)) = min prio (MLFQ_LEVELS - 1)"
    unfolding new_thread_def by (simp add: MLFQ_LEVELS_def unat_of_nat)
  have "push_to 0 t ?s1 = (True, s')"
    using e pr by (auto simp: enqueue_thread_def push_to_def mlfq_push_def Let_def split: prod.splits if_splits option.splits)
  note ps = push_to_spec[OF ok1 z this]
  have "current (cpus s' ! d) = current (cpus s ! d)" "idle_thread (cpus s' ! d) = idle_thread (cpus s ! d)" for d
    using ps(2) by (simp_all add: same_cpus_def)
  moreover have "all_queued s' = add_mset t (all_queued s)" "threads s' = (threads s)(t := new_thread prio)" using ps(3,4) by simp_all
  moreover have "count (all_queued s) t = 0" using nq by (simp add: count_eq_zero_iff)
  moreover have "t_state (new_thread prio) = Runnable" by (simp add: new_thread_def)
  ultimately show ?thesis using inv t nq ps(1) by (auto simp: up_inv_def)
qed

lemma boot_sched_fields:
  "current (cpus (boot_sched idle th) ! 0) = idle" "idle_thread (cpus (boot_sched idle th) ! 0) = idle"
  "length (cpus (boot_sched idle th)) = MAX_CPUS" "cpu_count (boot_sched idle th) = 1"
  "run_queue ` set (cpus (boot_sched idle th)) \<subseteq> {MlfqQueue_new}"
proof -
  have z: "0 < MAX_CPUS" by (simp add: MAX_CPUS_def)
  let ?u = "SchedCpu_uninit\<lparr>steal_cursor := of_nat (1 mod MAX_CPUS)\<rparr>"
  have c: "cpus (boot_sched idle th) = (replicate MAX_CPUS SchedCpu_uninit)[0 := ?u\<lparr>idle_thread := idle, current := idle\<rparr>]"
    "cpu_count (boot_sched idle th) = 1"
    using z by (simp_all add: boot_sched_def set_idle_thread_def init_sched_cpu_def set_cpu_def set_thread_def Let_def SchedCpu_uninit_def)
  show "current (cpus (boot_sched idle th) ! 0) = idle" "idle_thread (cpus (boot_sched idle th) ! 0) = idle"
    "length (cpus (boot_sched idle th)) = MAX_CPUS" "cpu_count (boot_sched idle th) = 1"
    using z by (simp_all add: c)
  have "set (cpus (boot_sched idle th)) \<subseteq> insert (?u\<lparr>idle_thread := idle, current := idle\<rparr>) {SchedCpu_uninit}"
    unfolding c by (rule order_trans[OF set_update_subset_insert]) auto
  then show "run_queue ` set (cpus (boot_sched idle th)) \<subseteq> {MlfqQueue_new}" by (auto simp: SchedCpu_uninit_def)
qed

lemma boot_sched_inv: "idle \<noteq> 0 \<Longrightarrow> up_inv {} (boot_sched idle th)"
proof -
  assume "idle \<noteq> 0"
  note b = boot_sched_fields[of idle th]
  have rq: "run_queue sc = MlfqQueue_new" if "sc \<in> set (cpus (boot_sched idle th))" for sc using b(5) that by blast
  have "sys_ok (boot_sched idle th)"
    using b(3,4) rq by (auto simp: sys_ok_def aligned_def MAX_CPUS_def)
  moreover have "t \<notin># all_queued (boot_sched idle th)" for t using rq by (auto simp: in_all_queued)
  then have "all_queued (boot_sched idle th) = {#}" by (metis multiset_nonemptyE)
  ultimately show ?thesis using b \<open>idle \<noteq> 0\<close> by (simp add: up_inv_def QUEUE_DEPTH_def)
qed

lemma up_reach_inv: "up_reach K s \<Longrightarrow> up_inv K s"
proof (induction rule: up_reach.induct)
  case (up_tick K s avail r s')
  then show ?case using up_pre_schedule[OF up_inv_pre[OF up_tick.IH], of avail] by auto
next
  case (up_yield K s avail r s')
  then show ?case using up_inv_yield[OF up_yield.IH up_yield(2), of avail] by auto
next
  case (up_block K s avail r s')
  then show ?case using up_pre_schedule[OF up_inv_mark, of K s Blocked avail] by auto
next
  case (up_exit K s avail r s')
  then show ?case using up_pre_schedule[OF up_inv_mark, of K s Dead avail] by auto
qed (simp_all add: boot_sched_inv up_inv_spawn up_inv_wake)

section \<open>Idling\<close>

lemma push_to_grows:
  assumes ok: "sys_ok s" and c: "c < MAX_CPUS" and p: "push_to c t s = (b, s')"
  shows "queued (run_queue (cpus s ! c)) \<subseteq># queued (run_queue (cpus s' ! c))"
    "b \<Longrightarrow> queued (run_queue (cpus s' ! c)) \<noteq> {#}"
proof -
  obtain q where q: "mlfq_push t (unat (priority (threads s t))) (run_queue (cpus s ! c)) = (b, q)"
      "s' = set_cpu c (\<lambda>sc. sc\<lparr>run_queue := q\<rparr>) s"
    using p by (auto simp: push_to_def split: prod.splits)
  have "run_queue (cpus s' ! c) = q" using sys_okD(3)[OF ok c] by (simp add: q(2))
  with mlfq_push_aligned[OF sys_okD(1,2)[OF ok c] q(1)]
  show "queued (run_queue (cpus s ! c)) \<subseteq># queued (run_queue (cpus s' ! c))" "b \<Longrightarrow> queued (run_queue (cpus s' ! c)) \<noteq> {#}"
    by (auto split: if_splits)
qed

lemma requeue_current_grows:
  assumes ok: "sys_ok s" and c: "c < MAX_CPUS" and room: "size (queued (run_queue (cpus s ! c))) < LEVEL_CAP"
    and lone: "t_state (threads s (current (cpus s ! c))) = Running \<Longrightarrow> current (cpus s ! c) \<notin># all_queued s"
    and r: "requeue_current c s = (False, s')"
  shows "queued (run_queue (cpus s ! c)) \<subseteq># queued (run_queue (cpus s' ! c))"
    "keeps c s \<Longrightarrow> queued (run_queue (cpus s' ! c)) \<noteq> {#}"
proof -
  let ?cur = "current (cpus s ! c)"
  have "(\<exists>s1 b. sys_ok s1 \<and> cpus s1 = cpus s \<and> push_to c ?cur s1 = (b, s')) \<or> (\<not> keeps c s \<and> cpus s' = cpus s)"
  proof (cases "valid_current c s \<and> t_state (threads s ?cur) = Running")
    case True
    obtain e t' where ct: "charge_tick (threads s ?cur) = (e, t')" by fastforce
    let ?s1 = "set_thread ?cur (\<lambda>_. t'\<lparr>t_state := Runnable\<rparr>) s"
    have "sys_ok ?s1" by (rule sys_ok_threads[OF ok]) (use lone True in auto)
    moreover have "push_to c ?cur ?s1 = (fst (push_to c ?cur ?s1), s')"
      using r True ct by (auto simp: requeue_current_def valid_current_def Let_def split: if_splits)
    ultimately show ?thesis by (metis set_thread_simps(1))
  next
    case False
    show ?thesis
    proof (cases "keeps c s")
      case True
      then have "push_to c ?cur s = (fst (push_to c ?cur s), s')"
        using r False by (auto simp: keeps_def requeue_current_def valid_current_def Let_def)
      then show ?thesis using ok by blast
    next
      case nk: False
      then show ?thesis using r False
        by (auto simp: keeps_def requeue_current_def valid_current_def Let_def split: ThreadState.splits if_splits)
    qed
  qed
  then show "queued (run_queue (cpus s ! c)) \<subseteq># queued (run_queue (cpus s' ! c))"
    "keeps c s \<Longrightarrow> queued (run_queue (cpus s' ! c)) \<noteq> {#}"
    using push_to_grows[OF _ c] push_to_spec(6)[OF _ c] room by (metis subset_mset.order_refl)+
qed

lemma pick_next_idle:
  assumes ok: "sys_ok s" and c: "c < MAX_CPUS" and idle: "idle_thread (cpus s ! c) \<notin># all_queued s"
    and p: "pick_next avail c s = (idle_thread (cpus s ! c), s')"
  shows "queued (run_queue (cpus s ! c)) = {#}"
proof (rule ccontr)
  assume ne: "queued (run_queue (cpus s ! c)) \<noteq> {#}"
  then obtain t q where pop: "mlfq_pop (run_queue (cpus s ! c)) = Some (t, q)" "queued (run_queue (cpus s ! c)) = add_mset t (queued q)"
    using mlfq_pop_first[OF sys_okD(1)[OF ok c]] by blast
  then have "t = idle_thread (cpus s ! c)" using p by (simp add: pick_next_def)
  moreover have "cpus s ! c \<in> set (cpus s)" using sys_okD(3)[OF ok c] by simp
  ultimately have "idle_thread (cpus s ! c) \<in># all_queued s" unfolding in_all_queued using pop(2) by (intro bexI[of _ "cpus s ! c"]) simp_all
  then show False using idle by blast
qed

lemma schedule_idle:
  assumes ok: "sys_ok s" and c: "c < MAX_CPUS" and cur: "current (cpus s ! c) \<noteq> 0"
    and idle: "idle_thread (cpus s ! c) \<notin># all_queued s" and room: "size (queued (run_queue (cpus s ! c))) < LEVEL_CAP"
    and lone: "t_state (threads s (current (cpus s ! c))) = Running \<Longrightarrow> current (cpus s ! c) \<notin># all_queued s"
    and r: "schedule avail c s = Some (r, s')" and i: "current (cpus s' ! c) = idle_thread (cpus s ! c)"
  shows "queued (run_queue (cpus s ! c)) = {#} \<and> \<not> keeps c s"
proof -
  obtain s1 T where s1: "schedule_tick c s = Some s1" "sys_ok s1" "same_cpus s s1" "all_queued s1 = all_queued s"
      "queued (run_queue (cpus s1 ! c)) = queued (run_queue (cpus s ! c))" "threads s1 = boosted T (threads s)"
    using schedule_tick_spec[OF ok c] by blast
  have same: "current (cpus s1 ! d) = current (cpus s ! d)" "idle_thread (cpus s1 ! d) = idle_thread (cpus s ! d)" for d
    using s1(3) by (simp_all add: same_cpus_def)
  have k: "keeps c s1 = keeps c s" by (simp add: keeps_def valid_current_def same s1(6))
  obtain early s2 where rq: "requeue_current c s1 = (early, s2)" by fastforce
  have pre: "size (queued (run_queue (cpus s1 ! c))) < LEVEL_CAP" "t_state (threads s1 (current (cpus s1 ! c))) = Running \<Longrightarrow> current (cpus s1 ! c) \<notin># all_queued s1"
    using room lone s1(4,5,6) same by simp_all
  note rs = requeue_current_spec[OF s1(2) c pre rq]
  have same2: "current (cpus s2 ! d) = current (cpus s ! d)" "idle_thread (cpus s2 ! d) = idle_thread (cpus s ! d)" for d
    using rs(2) same by (simp_all add: same_cpus_def)
  have ne: "\<not> early"
  proof
    assume e: "early"
    then have "s' = s2" using r s1(1) rq by (simp add: schedule_def)
    then show False using rs(4) e i same2 k by (auto simp: keeps_def valid_current_def)
  qed
  obtain nxt s3 where p: "pick_next avail c s2 = (nxt, s3)" by fastforce
  have s3: "sys_ok s3" "same_cpus s2 s3" using pick_next_spec[OF rs(1) c p] by (auto simp: takes_def)
  have same3: "current (cpus s3 ! c) = current (cpus s ! c)" using s3(2) same2 by (simp add: same_cpus_def)
  have d: "dispatch c (current (cpus s3 ! c)) nxt s3 = (r, s')" using r s1(1) rq ne p same same3 by (simp add: schedule_def)
  have "nxt = idle_thread (cpus s2 ! c)" using dispatch_spec(4)[OF s3(1) c _ d] i same2 same3 cur by simp
  moreover have "idle_thread (cpus s2 ! c) \<notin># all_queued s2"
    using idle rs(3) ne same2 s1(4) same by (auto simp: kept_def keeps_def valid_current_def)
  ultimately have "queued (run_queue (cpus s2 ! c)) = {#}" using pick_next_idle[OF rs(1) c] p by blast
  then show ?thesis using requeue_current_grows[OF s1(2) c pre] rq ne s1(5) k by auto
qed

section \<open>Main properties\<close>

text \<open>
  C4: on one CPU no thread is lost or runs twice.  In every state reachable from boot by
  creating threads (up to 254), timer ticks, yields, blocking, exiting and wake-ups
  in any order, every created thread is in exactly one place: it is in the run
  queues once if it is runnable, it is the current thread exactly if it is running,
  and it is nowhere if it is blocked or dead.
\<close>

theorem up_threads_exact:
  assumes "up_reach K s" "t \<in> K"
  shows "count (all_queued s) t = (if t_state (threads s t) = Runnable then 1 else 0) \<and>
    (current (cpus s ! 0) = t \<longleftrightarrow> t_state (threads s t) = Running)"
  using up_reach_inv[OF assms(1)] assms(2) by (simp add: up_inv_def)

text \<open>A machine that booted with idle thread \<open>0x1000\<close> and created thread \<open>0x2000\<close>.\<close>

lemma demo_spawn:
  "\<exists>s. enqueue_thread 0x2000 0 (set_thread 0x2000 (\<lambda>_. new_thread 0) (boot_sched 0x1000 th)) = Some s \<and>
     up_reach {0x2000} s \<and> current (cpus s ! 0) = 0x1000 \<and> idle_thread (cpus s ! 0) = 0x1000 \<and>
     queued (run_queue (cpus s ! 0)) = {#0x2000#} \<and> all_queued s = {#0x2000#} \<and> t_state (threads s 0x2000) = Runnable"
proof -
  let ?b = "boot_sched 0x1000 th"
  let ?s = "set_thread 0x2000 (\<lambda>_. new_thread 0) ?b"
  note b = boot_sched_fields[of "0x1000" th]
  have z: "0 < length (cpus ?b)" by (simp add: b MAX_CPUS_def)
  then have q: "run_queue (cpus ?b ! 0) = MlfqQueue_new" using b(5) nth_mem[OF z] by blast
  obtain q' where q': "mlfq_push 0x2000 0 MlfqQueue_new = (True, q')" "queued q' = {#0x2000#}"
    using mlfq_push_ok[OF mlfq_new(1), of 0 0 "0x2000"] by (auto simp: MLFQ_LEVELS_def QUEUE_DEPTH_def)
  let ?s' = "set_cpu 0 (\<lambda>sc. sc\<lparr>run_queue := q'\<rparr>) ?s"
  have e: "enqueue_thread 0x2000 0 ?s = Some ?s'" by (simp add: enqueue_thread_def q q')
  have r: "up_reach {0x2000} ?s'"
    by (rule up_spawn[OF up_boot _ _ _ _ e]) (simp_all add: b QUEUE_DEPTH_def)
  have "queued (run_queue (cpus ?s' ! 0)) = {#0x2000#}" "current (cpus ?s' ! 0) = 0x1000" "idle_thread (cpus ?s' ! 0) = 0x1000"
    using z by (simp_all add: q'(2) b)
  moreover have "t_state (threads ?s' 0x2000) = Runnable" by (simp add: new_thread_def)
  moreover have "all_queued ?s' = {#0x2000#}"
    using all_queued_set_cpu[of 0 ?s "\<lambda>sc. sc\<lparr>run_queue := q'\<rparr>"] z q q'(2) up_reach_inv[OF up_boot, of "0x1000" th]
    by (simp add: up_inv_def)
  ultimately show ?thesis using e r by blast
qed

theorem up_threads_exact_witness:
  "\<exists>s r s'. up_reach {0x2000} s \<and> schedule (\<lambda>_. True) 0 s = Some (r, s') \<and> up_reach {0x2000} s' \<and>
     count (all_queued s) 0x2000 = 1 \<and> count (all_queued s') 0x2000 = 0"
proof -
  obtain s where s: "up_reach {0x2000} s" "current (cpus s ! 0) = 0x1000" "idle_thread (cpus s ! 0) = 0x1000"
      "queued (run_queue (cpus s ! 0)) = {#0x2000#}" "t_state (threads s 0x2000) = Runnable"
    using demo_spawn by blast
  note inv = up_reach_inv[OF s(1)]
  obtain r s' where r: "schedule (\<lambda>_. True) 0 s = Some (r, s')" "sched_result 0 s s'" using up_pre_schedule[OF up_inv_pre[OF inv]] by blast
  then have s': "up_reach {0x2000} s'" using up_tick[OF s(1)] by blast
  have "current (cpus s' ! 0) \<noteq> 0x1000"
    using schedule_idle[OF up_invD(1)[OF inv] _ up_invD(2,3,4)[OF inv] up_invD(5)[OF inv] r(1)] s by (auto simp: MAX_CPUS_def)
  moreover have "current (cpus s' ! 0) \<in> {0x1000, 0x2000}"
    using up_reach_inv[OF s'] r(2) s(3) by (auto simp: up_inv_def sched_result_def)
  ultimately have "t_state (threads s' 0x2000) = Running" using r(2) by (simp add: sched_result_def)
  then show ?thesis using s s' r(1) up_threads_exact[OF s(1), of "0x2000"] up_threads_exact[OF s', of "0x2000"] by auto
qed



section \<open>Several CPUs\<close>

text \<open>
  Executions of a machine with several CPUs.  A thread that blocks marks itself
  under the lock of its wait queue, releases that lock, and then calls
  \<open>schedule\<close>; interrupts are off on its CPU in between, but the other CPUs run.
  \<open>pend\<close> is the set of CPUs between the two.
\<close>

definition ap_online :: "nat \<Rightarrow> u64 \<Rightarrow> sched \<Rightarrow> sched" where
  "ap_online c idle s = set_idle_thread c idle (init_sched_cpu c s)"

inductive smp_reach :: "nat set \<Rightarrow> sched \<Rightarrow> bool" where
  smp_boot: "idle \<noteq> 0 \<Longrightarrow> smp_reach {} (boot_sched idle th)"
| smp_ap: "smp_reach pend s \<Longrightarrow> c < MAX_CPUS \<Longrightarrow> c = unat (cpu_count s) \<Longrightarrow> idle \<noteq> 0 \<Longrightarrow>
    (\<And>d. d < MAX_CPUS \<Longrightarrow> current (cpus s ! d) \<noteq> idle) \<Longrightarrow> smp_reach pend (ap_online c idle s)"
| smp_spawn: "smp_reach pend s \<Longrightarrow> t \<noteq> 0 \<Longrightarrow> t \<notin># all_queued s \<Longrightarrow> (\<And>d. d < MAX_CPUS \<Longrightarrow> t \<noteq> current (cpus s ! d) \<and> t \<noteq> idle_thread (cpus s ! d)) \<Longrightarrow>
    enqueue_thread t prio (set_thread t (\<lambda>_. new_thread prio) s) = Some s' \<Longrightarrow> smp_reach pend s'"
| smp_tick: "smp_reach pend s \<Longrightarrow> c < unat (cpu_count s) \<Longrightarrow> c \<notin> pend \<Longrightarrow> schedule avail c s = Some (r, s') \<Longrightarrow> smp_reach pend s'"
| smp_mark: "smp_reach pend s \<Longrightarrow> c < unat (cpu_count s) \<Longrightarrow> c \<notin> pend \<Longrightarrow> valid_current c s \<Longrightarrow>
    smp_reach (insert c pend) (mark_current c Blocked s)"
| smp_switch: "smp_reach pend s \<Longrightarrow> c \<in> pend \<Longrightarrow> schedule avail c s = Some (r, s') \<Longrightarrow> smp_reach (pend - {c}) s'"
| smp_wake: "smp_reach pend s \<Longrightarrow> w < unat (cpu_count s) \<Longrightarrow> w \<notin> pend \<Longrightarrow> t_state (threads s t) = Blocked \<Longrightarrow>
    try_make_runnable a1 a2 t s = (b, s') \<Longrightarrow> smp_reach pend s'"

lemma demo_two_cpus:
  "\<exists>s. smp_reach {} s \<and> cpu_count s = 2 \<and> sys_ok s \<and> all_queued s = {#} \<and>
     current (cpus s ! 0) = 0x1000 \<and> idle_thread (cpus s ! 0) = 0x1000 \<and>
     (\<forall>d < MAX_CPUS. current (cpus s ! d) \<noteq> 0x2000 \<and> idle_thread (cpus s ! d) \<noteq> 0x2000)"
proof -
  let ?b = "boot_sched 0x1000 (\<lambda>_. new_thread 0)"
  let ?B = "SchedCpu_uninit\<lparr>steal_cursor := 2, idle_thread := 0x1800, current := 0x1800\<rparr>"
  let ?s = "ap_online 1 0x1800 ?b"
  note b = boot_sched_fields[of "0x1000" "\<lambda>_. new_thread 0"]
  have z: "1 < MAX_CPUS" by (simp add: MAX_CPUS_def)
  have c: "cpus ?s = (cpus ?b)[1 := ?B]" "cpu_count ?s = 2"
    using b(3,4) by (simp_all add: ap_online_def set_idle_thread_def init_sched_cpu_def set_cpu_def set_thread_def Let_def SchedCpu_uninit_def MAX_CPUS_def)
  have bd: "current (cpus ?b ! d) \<in> {0, 0x1000} \<and> idle_thread (cpus ?b ! d) \<in> {0, 0x1000}" if "d < MAX_CPUS" for d
    using that by (cases "d = 0") (simp_all add: boot_sched_def set_idle_thread_def init_sched_cpu_def set_cpu_def set_thread_def Let_def SchedCpu_uninit_def MAX_CPUS_def)
  have "current (cpus ?b ! d) \<noteq> 0x1800" if "d < MAX_CPUS" for d using bd[OF that] by auto
  then have "smp_reach {} ?s" by (intro smp_ap[OF smp_boot]) (use z b(4) in auto)
  moreover have rq: "run_queue sc = MlfqQueue_new" if "sc \<in> set (cpus ?s)" for sc
  proof -
    have "sc = ?B \<or> sc \<in> set (cpus ?b)" using that set_update_subset_insert[of "cpus ?b" 1 ?B] unfolding c by blast
    then show ?thesis using b(5) by (auto simp: SchedCpu_uninit_def)
  qed
  then have "sys_ok ?s" using b(3) c by (auto simp: sys_ok_def aligned_def MAX_CPUS_def)
  moreover have "t \<notin># all_queued ?s" for t using rq by (auto simp: in_all_queued)
  then have "all_queued ?s = {#}" by (metis multiset_nonemptyE)
  moreover have "current (cpus ?s ! d) \<noteq> 0x2000 \<and> idle_thread (cpus ?s ! d) \<noteq> 0x2000" if "d < MAX_CPUS" for d
  proof (cases "d = 1")
    case False
    then have "cpus ?s ! d = cpus ?b ! d" unfolding c(1) by simp
    then show ?thesis using bd[OF that] by auto
  next
    case True
    then show ?thesis unfolding c(1) using b(3) z by simp
  qed
  moreover have "cpus ?s ! 0 = cpus ?b ! 0" unfolding c(1) by simp
  ultimately show ?thesis using c(2) b(1,2) by metis
qed

lemma own_queue_size: "sys_ok s \<Longrightarrow> size (queued (run_queue (cpus s ! 0))) \<le> size (all_queued s)"
  unfolding all_queued_def sys_ok_def MAX_CPUS_def by (cases "cpus s") auto

lemma demo_two_running:
  "\<exists>s. smp_reach {} s \<and> cpu_count s = 2 \<and> sys_ok s \<and> all_queued s = {#} \<and> current (cpus s ! 0) = 0x2000 \<and> idle_thread (cpus s ! 0) = 0x1000"
proof -
  have z: "0 < MAX_CPUS" by (simp add: MAX_CPUS_def)
  obtain s0 where s0: "smp_reach {} s0" "cpu_count s0 = 2" "sys_ok s0" "all_queued s0 = {#}"
      "current (cpus s0 ! 0) = 0x1000" "idle_thread (cpus s0 ! 0) = 0x1000"
      "\<And>d. d < MAX_CPUS \<Longrightarrow> current (cpus s0 ! d) \<noteq> 0x2000 \<and> idle_thread (cpus s0 ! d) \<noteq> 0x2000"
    using demo_two_cpus by blast
  let ?n = "set_thread 0x2000 (\<lambda>_. new_thread 0) s0"
  have okn: "sys_ok ?n" by (rule sys_ok_threads[OF s0(3)]) (simp_all add: s0(4))
  \<comment> \<open>the thread is created\<close>
  obtain b s1 where p: "push_to 0 0x2000 ?n = (b, s1)" by fastforce
  note ps = push_to_spec[OF okn z p]
  have b: "b" using ps(6) own_queue_size[OF okn] s0(4) by (simp add: QUEUE_DEPTH_def)
  have q1: "all_queued s1 = {#0x2000#}" using ps(4)[OF b] s0(4) by simp
  have c1: "current (cpus s1 ! d) = current (cpus s0 ! d)" "idle_thread (cpus s1 ! d) = idle_thread (cpus s0 ! d)" "cpu_count s1 = 2" for d
    using ps(2) s0(2) by (simp_all add: same_cpus_def)
  have "enqueue_thread 0x2000 0 ?n = Some s1"
    using p b by (auto simp: push_to_def enqueue_thread_def new_thread_def split: prod.splits)
  then have r1: "smp_reach {} s1" using s0 by (intro smp_spawn[OF s0(1), of "0x2000"]) auto
  \<comment> \<open>it is scheduled\<close>
  have pre1: "size (queued (run_queue (cpus s1 ! 0))) < LEVEL_CAP" "current (cpus s1 ! 0) \<noteq> 0" "idle_thread (cpus s1 ! 0) \<notin># all_queued s1"
      "current (cpus s1 ! 0) \<notin># all_queued s1"
    using own_queue_size[OF ps(1)] q1 c1 s0 by (auto simp: QUEUE_DEPTH_def)
  obtain r s2 where r2: "schedule (\<lambda>_. True) 0 s1 = Some (r, s2)" "sched_result 0 s1 s2"
    using schedule_spec[OF ps(1) z pre1(2,3,1) pre1(4), of "\<lambda>_. True"] by blast
  have ne: "queued (run_queue (cpus s1 ! 0)) \<noteq> {#}" using push_to_grows(2)[OF okn z p b] .
  have i2: "current (cpus s2 ! 0) \<noteq> 0x1000"
    using schedule_idle[OF ps(1) z pre1(2,3,1) pre1(4) r2(1)] ne c1 s0(6) by auto
  have k1: "kept 0 s1 = {#}" using c1 s0 by (simp add: kept_def keeps_def valid_current_def)
  have f2: "sys_ok s2" "cpu_count s2 = 2" "idle_thread (cpus s2 ! 0) = 0x1000" "all_queued s2 + running 0 s2 = {#0x2000#}"
    using r2(2) c1 s0 q1 k1 by (auto simp: sched_result_def)
  then have "all_queued s2 + {#current (cpus s2 ! 0)#} = {#0x2000#}" using i2 by (simp add: running_def)
  then have q2: "all_queued s2 = {#}" "current (cpus s2 ! 0) = 0x2000" by (simp_all add: add_mset_eq_single)
  have t2: "smp_reach {} s2" using smp_tick[OF r1 _ _ r2(1)] c1 by simp
  then show ?thesis using q2 f2 by blast
qed

text \<open>
  C11: on several CPUs a wake-up that arrives between a thread's marking itself
  blocked and its call of \<open>schedule\<close> duplicates the thread.  There is an execution with two
  CPUs that ends in a state where a thread is running on a CPU and is at the same
  time in a run queue, from which the other CPU can take and run it.
\<close>

theorem wake_during_block_duplicates:
  "\<exists>s t. smp_reach {} s \<and> cpu_count s = 2 \<and> current (cpus s ! 0) = t \<and> t_state (threads s t) = Running \<and> t \<in># all_queued s"
proof -
  have z: "0 < MAX_CPUS" by (simp add: MAX_CPUS_def)
  obtain s2 where t2: "smp_reach {} s2" and f2: "sys_ok s2" "cpu_count s2 = 2" "idle_thread (cpus s2 ! 0) = 0x1000"
      and q2: "all_queued s2 = {#}" "current (cpus s2 ! 0) = 0x2000" using demo_two_running by blast
  \<comment> \<open>it marks itself blocked\<close>
  let ?s3 = "mark_current 0 Blocked s2"
  have v2: "valid_current 0 s2" using q2 f2 by (simp add: valid_current_def)
  have t3: "smp_reach {0} ?s3" using smp_mark[OF t2 _ _ v2] f2(2) by simp
  have st3: "t_state (threads ?s3 0x2000) = Blocked" using q2 by (simp add: mark_current_def)
  \<comment> \<open>CPU 1 wakes it before it calls \<open>schedule\<close>\<close>
  let ?m = "set_thread 0x2000 (\<lambda>th. th\<lparr>t_state := Runnable\<rparr>) ?s3"
  have okm: "sys_ok ?m" by (rule sys_ok_threads[OF f2(1)]) (simp_all add: mark_current_def)
  obtain b4 s4 where p4: "push_to 0 0x2000 ?m = (b4, s4)" by fastforce
  note ps4 = push_to_spec[OF okm z p4]
  have qm: "all_queued ?m = {#}" using q2 by (simp add: mark_current_def)
  have b4: "b4" using ps4(6) own_queue_size[OF okm] qm by (simp add: QUEUE_DEPTH_def)
  have q4: "all_queued s4 = {#0x2000#}" using ps4(4)[OF b4] qm by simp
  have c4: "current (cpus s4 ! 0) = 0x2000" "idle_thread (cpus s4 ! 0) = 0x1000" "cpu_count s4 = 2" "t_state (threads s4 0x2000) = Runnable"
    using ps4(2,3) q2 f2 by (simp_all add: same_cpus_def mark_current_def)
  have "try_make_runnable True True 0x2000 ?s3 = (True, s4)"
    using p4 b4 by (simp add: try_make_runnable_def try_push_to_cpu_def)
  then have t4: "smp_reach {0} s4" using smp_wake[OF t3, of 1 "0x2000" True True] st3 f2(2) by (simp add: mark_current_def)
  \<comment> \<open>CPU 0 schedules\<close>
  have pre4: "size (queued (run_queue (cpus s4 ! 0))) < LEVEL_CAP" "current (cpus s4 ! 0) \<noteq> 0" "idle_thread (cpus s4 ! 0) \<notin># all_queued s4"
    using own_queue_size[OF ps4(1)] q4 c4 by (auto simp: QUEUE_DEPTH_def)
  obtain r' s5 where r5: "schedule (\<lambda>_. True) 0 s4 = Some (r', s5)" "sched_result 0 s4 s5"
    using schedule_spec[OF ps4(1) z pre4(2,3,1), of "\<lambda>_. True"] c4 by fastforce
  have t5: "smp_reach {} s5" using smp_switch[OF t4 _ r5(1)] by simp
  have kp: "keeps 0 s4" using c4 by (simp add: keeps_def valid_current_def)
  then have "current (cpus s5 ! 0) \<noteq> 0x1000"
    using schedule_idle[OF ps4(1) z pre4(2,3,1) _ r5(1)] c4 by auto
  moreover have "idle_thread (cpus s5 ! 0) = 0x1000" using r5(2) c4 by (simp add: sched_result_def)
  ultimately have "all_queued s5 + {#current (cpus s5 ! 0)#} = {#0x2000, 0x2000#}"
    using r5(2) c4 q4 kp by (simp add: sched_result_def running_def kept_def)
  then have "current (cpus s5 ! 0) = 0x2000 \<and> 0x2000 \<in># all_queued s5" by (auto simp: add_eq_conv_ex)
  moreover have "t_state (threads s5 (current (cpus s5 ! 0))) = Running" "cpu_count s5 = 2" using r5(2) c4 by (simp_all add: sched_result_def)
  ultimately show ?thesis using t5 by (intro exI[of _ s5] exI[of _ "0x2000"]) simp
qed

end
