(* ===== verification/Ipc_Rings.thy ===== *)
theory Ipc_Rings
  imports Bounded_Queues
begin

text \<open>
  The lock-free rings of the message crate: the single-producer ring
  (\<open>ipc/spsc.rs\<close>) as a bounded queue with free-running 64-bit cursors, and the
  multi-producer ring (\<open>ipc/mpsc.rs\<close>) as an interleaving of its atomic accesses.
  The capacity \<open>N\<close> is a power of two, as the constructors assert.
\<close>

section \<open>Single producer\<close>

record 'a SpscRing =
  sp_head :: u64
  sp_tail :: u64
  sp_slots :: "'a list"

definition SpscRing_new :: "'a list \<Rightarrow> 'a SpscRing" where
  "SpscRing_new uninit = \<lparr>sp_head = 0, sp_tail = 0, sp_slots = uninit\<rparr>"

definition spsc_capacity :: "'a SpscRing \<Rightarrow> nat" where
  "spsc_capacity q = length (sp_slots q)"

text \<open>\<open>None\<close> is the returned \<open>Err(value)\<close>.\<close>

definition spsc_push :: "'a SpscRing \<Rightarrow> 'a \<Rightarrow> 'a SpscRing option" where
  "spsc_push q v =
     (let tail = sp_tail q; head = sp_head q; N = length (sp_slots q) in
      if tail - head = of_nat N then None
      else let index = unat (tail AND (of_nat N - 1)) in
        Some (q\<lparr>sp_slots := (sp_slots q)[index := v], sp_tail := tail + 1\<rparr>))"

definition spsc_pop :: "'a SpscRing \<Rightarrow> ('a \<times> 'a SpscRing) option" where
  "spsc_pop q =
     (let head = sp_head q; tail = sp_tail q; N = length (sp_slots q) in
      if head = tail then None
      else let index = unat (head AND (of_nat N - 1)) in
        Some (sp_slots q ! index, q\<lparr>sp_head := head + 1\<rparr>))"

definition spsc_contents :: "'a SpscRing \<Rightarrow> 'a list" where
  "spsc_contents q = window (sp_slots q) (unat (sp_head q)) (unat (sp_tail q - sp_head q))"

definition spsc_ok :: "nat \<Rightarrow> 'a SpscRing \<Rightarrow> bool" where
  "spsc_ok k q \<longleftrightarrow> k < 64 \<and> length (sp_slots q) = 2 ^ k \<and> unat (sp_tail q - sp_head q) \<le> 2 ^ k"

lemma index_mask: "unat (w AND (2 ^ k - 1)) = unat (w :: u64) mod 2 ^ k"
proof -
  have "w AND (2 ^ k - 1) = take_bit k w" by (simp only: take_bit_eq_mask mask_eq_exp_minus_1)
  then have "unat (w AND (2 ^ k - 1)) = take_bit k (unat w)" by (simp only: unsigned_take_bit_eq)
  then show ?thesis by (simp only: take_bit_eq_mod)
qed

lemma unat_add_mod:
  assumes "k < 64"
  shows "unat (h + d :: u64) mod 2 ^ k = (unat h + unat d) mod 2 ^ k"
proof -
  have "(2 :: nat) ^ k dvd 2 ^ 64" by (rule le_imp_power_dvd) (use assms in simp)
  then show ?thesis by (simp add: unat_word_ariths mod_mod_cancel)
qed

lemma unat_cap: "k < 64 \<Longrightarrow> unat (of_nat (2 ^ k) :: u64) = 2 ^ k"
  by (rule of_nat_inverse[OF refl]) (use power_strict_increasing[of k 64 "2 :: nat"] in simp)

lemma unat_succ:
  assumes "unat (w :: u64) < 2 ^ 64 - 1"
  shows "unat (w + 1) = Suc (unat w)"
proof -
  have "w + 1 \<noteq> 0"
  proof
    assume "w + 1 = 0"
    then have "w = - 1" by (simp add: eq_neg_iff_add_eq_0)
    then have "unat w = 2 ^ 64 - 1" by (simp only: unsigned_minus_1_eq_mask) (simp add: mask_eq_exp_minus_1)
    then show False using assms by simp
  qed
  then show ?thesis using unatSuc[of w] by (simp add: add.commute)
qed

lemma tail_index:
  assumes "spsc_ok k q"
  shows "unat (sp_tail q) mod 2 ^ k = (unat (sp_head q) + unat (sp_tail q - sp_head q)) mod 2 ^ k"
  using unat_add_mod[of k "sp_head q" "sp_tail q - sp_head q"] assms by (simp add: spsc_ok_def)

interpretation spsc: bounded_fifo spsc_push spsc_pop spsc_contents "spsc_ok k" "2 ^ k" for k
proof
  fix q :: "'a SpscRing" and x
  assume ok: "spsc_ok k q" and room: "length (spsc_contents q) < 2 ^ k"
  have k: "k < 64" "length (sp_slots q) = 2 ^ k" using ok by (simp_all add: spsc_ok_def)
  let ?n = "unat (sp_tail q - sp_head q)"
  have n: "?n < 2 ^ k" using room by (simp add: spsc_contents_def)
  then have nf: "sp_tail q - sp_head q \<noteq> of_nat (2 ^ k)" using unat_cap[OF k(1)] by auto
  let ?q = "q\<lparr>sp_slots := (sp_slots q)[unat (sp_tail q) mod 2 ^ k := x], sp_tail := sp_tail q + 1\<rparr>"
  have "unat (sp_tail q + 1 - sp_head q) = Suc ?n"
  proof -
    have "?n < 2 ^ 64 - 1" using n k(1) power_strict_increasing[of k 64 "2 :: nat"] by linarith
    from unat_succ[OF this] show ?thesis by (simp add: algebra_simps)
  qed
  moreover have "spsc_push q x = Some ?q" using nf k by (simp add: spsc_push_def Let_def index_mask)
  moreover have "window ((sp_slots q)[(unat (sp_head q) + ?n) mod length (sp_slots q) := x]) (unat (sp_head q)) (Suc ?n) = spsc_contents q @ [x]"
    unfolding spsc_contents_def by (rule window_push) (simp add: k n)
  ultimately show "\<exists>q'. spsc_push q x = Some q' \<and> spsc_ok k q' \<and> spsc_contents q' = spsc_contents q @ [x]"
    using tail_index[OF ok] k n by (simp add: spsc_ok_def spsc_contents_def)
next
  fix q :: "'a SpscRing" and x
  assume ok: "spsc_ok k q" and "2 ^ k \<le> length (spsc_contents q)"
  then have "unat (sp_tail q - sp_head q) = 2 ^ k" by (simp add: spsc_ok_def spsc_contents_def)
  then have "sp_tail q - sp_head q = of_nat (2 ^ k)" unfolding word_unat_eq_iff using unat_cap[of k] ok by (simp add: spsc_ok_def)
  then show "spsc_push q x = None" using ok by (simp add: spsc_push_def spsc_ok_def)
next
  fix q :: "'a SpscRing" and y ys
  assume ok: "spsc_ok k q" and c: "spsc_contents q = y # ys"
  have k: "k < 64" "length (sp_slots q) = 2 ^ k" using ok by (simp_all add: spsc_ok_def)
  let ?n = "unat (sp_tail q - sp_head q)"
  have pos: "0 < ?n" using arg_cong[OF c, of length] by (simp add: spsc_contents_def)
  then have ne: "sp_head q \<noteq> sp_tail q" by auto
  have n': "unat (sp_tail q - (sp_head q + 1)) = ?n - 1"
  proof -
    have "sp_tail q - sp_head q \<noteq> 0" using pos by auto
    from unat_minus_one[OF this] show ?thesis by (simp add: algebra_simps)
  qed
  have w: "spsc_contents q = sp_slots q ! (unat (sp_head q) mod 2 ^ k) # window (sp_slots q) (Suc (unat (sp_head q))) (?n - 1)"
    unfolding spsc_contents_def using window_Cons[OF pos, of "sp_slots q" "unat (sp_head q)"] k by simp
  have "window (sp_slots q) (unat (sp_head q + 1)) (?n - 1) = window (sp_slots q) (Suc (unat (sp_head q))) (?n - 1)"
    using unat_add_mod[OF k(1), of "sp_head q" 1] k(2) by (metis window_mod add.commute plus_1_eq_Suc unat_1)
  then show "\<exists>q'. spsc_pop q = Some (y, q') \<and> spsc_ok k q' \<and> spsc_contents q' = ys"
    using w c k ne n' ok by (auto simp: spsc_pop_def Let_def index_mask spsc_ok_def spsc_contents_def)
next
  fix q :: "'a SpscRing"
  assume "spsc_ok k q" "spsc_contents q = []"
  then have "unat (sp_tail q - sp_head q) = 0" by (metis length_0_conv length_window spsc_contents_def)
  then show "spsc_pop q = None" by (simp add: spsc_pop_def unat_eq_zero)
qed

section \<open>Many producers\<close>

text \<open>
  Every step is one atomic access of \<open>push\<close> or \<open>pop\<close>.  \<open>acc\<close> and \<open>out\<close> record the
  values in the order in which producers claimed positions and the consumer returned.
\<close>

record 'a MpscRing =
  mp_head :: u64
  mp_tail :: u64
  mp_ready :: "u64 list"
  mp_vals :: "'a list"

datatype 'a prod_pc =
  PIdle
| PTry 'a u64
| PCas 'a u64
| PWrite 'a u64
| PPublish u64

datatype 'a cons_pc =
  CIdle
| CRead u64
| CClear u64 'a
| CStore u64 'a

record 'a msys =
  mring :: "'a MpscRing"
  prods :: "nat \<Rightarrow> 'a prod_pc"
  cons :: "'a cons_pc"
  acc :: "'a list"
  out :: "'a list"

definition MpscRing_new :: "'a list \<Rightarrow> 'a MpscRing" where
  "MpscRing_new uninit = \<lparr>mp_head = 0, mp_tail = 0, mp_ready = replicate (length uninit) 0, mp_vals = uninit\<rparr>"

definition mp_index :: "'a MpscRing \<Rightarrow> u64 \<Rightarrow> nat" where
  "mp_index r p = unat (p AND (of_nat (length (mp_vals r)) - 1))"

definition mpsc_push_start :: "nat \<Rightarrow> 'a \<Rightarrow> 'a msys \<Rightarrow> 'a msys option" where
  "mpsc_push_start i v s =
     (case prods s i of PIdle \<Rightarrow> Some (s\<lparr>prods := (prods s)(i := PTry v (mp_tail (mring s)))\<rparr>) | _ \<Rightarrow> None)"

text \<open>\<open>weak\<close> is a spurious failure of the weak compare-exchange.\<close>

definition mpsc_push_step :: "nat \<Rightarrow> bool \<Rightarrow> 'a msys \<Rightarrow> 'a msys option" where
  "mpsc_push_step i weak s =
     (let r = mring s in
      case prods s i of
        PIdle \<Rightarrow> None
      | PTry v tail \<Rightarrow>
          (if tail - mp_head r = of_nat (length (mp_vals r)) then Some (s\<lparr>prods := (prods s)(i := PIdle)\<rparr>)
           else Some (s\<lparr>prods := (prods s)(i := PCas v tail)\<rparr>))
      | PCas v tail \<Rightarrow>
          (if mp_tail r = tail \<and> \<not> weak
           then Some (s\<lparr>mring := r\<lparr>mp_tail := tail + 1\<rparr>, acc := acc s @ [v], prods := (prods s)(i := PWrite v tail)\<rparr>)
           else Some (s\<lparr>prods := (prods s)(i := PTry v (mp_tail r))\<rparr>))
      | PWrite v p \<Rightarrow>
          Some (s\<lparr>mring := r\<lparr>mp_vals := (mp_vals r)[mp_index r p := v]\<rparr>, prods := (prods s)(i := PPublish p)\<rparr>)
      | PPublish p \<Rightarrow>
          Some (s\<lparr>mring := r\<lparr>mp_ready := (mp_ready r)[mp_index r p := p + 1]\<rparr>, prods := (prods s)(i := PIdle)\<rparr>))"

definition mpsc_pop_step :: "'a msys \<Rightarrow> 'a msys" where
  "mpsc_pop_step s =
     (let r = mring s in
      case cons s of
        CIdle \<Rightarrow> (if mp_ready r ! mp_index r (mp_head r) \<noteq> mp_head r + 1 then s else s\<lparr>cons := CRead (mp_head r)\<rparr>)
      | CRead h \<Rightarrow> s\<lparr>cons := CClear h (mp_vals r ! mp_index r h)\<rparr>
      | CClear h v \<Rightarrow> s\<lparr>mring := r\<lparr>mp_ready := (mp_ready r)[mp_index r h := 0]\<rparr>, cons := CStore h v\<rparr>
      | CStore h v \<Rightarrow> s\<lparr>mring := r\<lparr>mp_head := h + 1\<rparr>, cons := CIdle, out := out s @ [v]\<rparr>)"

inductive mpsc_run :: "'a list \<Rightarrow> 'a msys \<Rightarrow> bool" for uninit where
  mp_init: "mpsc_run uninit \<lparr>mring = MpscRing_new uninit, prods = (\<lambda>_. PIdle), cons = CIdle, acc = [], out = []\<rparr>"
| mp_start: "mpsc_run uninit s \<Longrightarrow> mpsc_push_start i v s = Some s' \<Longrightarrow> mpsc_run uninit s'"
| mp_push: "mpsc_run uninit s \<Longrightarrow> mpsc_push_step i weak s = Some s' \<Longrightarrow> mpsc_run uninit s'"
| mp_pop: "mpsc_run uninit s \<Longrightarrow> mpsc_run uninit (mpsc_pop_step s)"

text \<open>The position a producer has claimed and not yet published.\<close>

fun holds :: "'a prod_pc \<Rightarrow> nat option" where
  "holds (PWrite v p) = Some (unat p)"
| "holds (PPublish p) = Some (unat p)"
| "holds _ = None"

definition held :: "'a msys \<Rightarrow> nat \<Rightarrow> bool" where
  "held s p \<longleftrightarrow> (\<exists>i. holds (prods s i) = Some p)"

fun taken :: "'a cons_pc \<Rightarrow> nat option" where
  "taken (CStore h v) = Some (unat h)"
| "taken _ = None"

definition published :: "nat \<Rightarrow> 'a msys \<Rightarrow> nat \<Rightarrow> bool" where
  "published N s p \<longleftrightarrow> mp_ready (mring s) ! (p mod N) = of_nat (p + 1) \<and> mp_vals (mring s) ! (p mod N) = acc s ! p"

fun prod_ok :: "nat \<Rightarrow> 'a msys \<Rightarrow> 'a prod_pc \<Rightarrow> bool" where
  "prod_ok N s PIdle \<longleftrightarrow> True"
| "prod_ok N s (PTry v t) \<longleftrightarrow> unat t \<le> length (acc s)"
| "prod_ok N s (PCas v t) \<longleftrightarrow> unat t \<le> length (acc s) \<and> unat t < length (out s) + N"
| "prod_ok N s (PWrite v p) \<longleftrightarrow> length (out s) \<le> unat p \<and> unat p < length (acc s) \<and> acc s ! unat p = v"
| "prod_ok N s (PPublish p) \<longleftrightarrow> length (out s) \<le> unat p \<and> unat p < length (acc s) \<and> mp_vals (mring s) ! (unat p mod N) = acc s ! unat p"

fun cons_ok :: "nat \<Rightarrow> 'a msys \<Rightarrow> 'a cons_pc \<Rightarrow> bool" where
  "cons_ok N s CIdle \<longleftrightarrow> True"
| "cons_ok N s (CRead h) \<longleftrightarrow> h = mp_head (mring s) \<and> length (out s) < length (acc s) \<and> published N s (length (out s)) \<and> \<not> held s (length (out s))"
| "cons_ok N s (CClear h v) \<longleftrightarrow> h = mp_head (mring s) \<and> length (out s) < length (acc s) \<and> published N s (length (out s)) \<and> \<not> held s (length (out s)) \<and>
     v = acc s ! length (out s)"
| "cons_ok N s (CStore h v) \<longleftrightarrow> h = mp_head (mring s) \<and> length (out s) < length (acc s) \<and> v = acc s ! length (out s) \<and> \<not> held s (length (out s)) \<and>
     mp_ready (mring s) ! (length (out s) mod N) = 0"

definition mpsc_inv :: "nat \<Rightarrow> 'a msys \<Rightarrow> bool" where
  "mpsc_inv N s \<longleftrightarrow>
     length (mp_vals (mring s)) = N \<and> length (mp_ready (mring s)) = N \<and>
     unat (mp_tail (mring s)) = length (acc s) \<and> unat (mp_head (mring s)) = length (out s) \<and>
     length (out s) \<le> length (acc s) \<and> length (acc s) \<le> length (out s) + N \<and> take (length (out s)) (acc s) = out s \<and>
     (\<forall>i. prod_ok N s (prods s i)) \<and> cons_ok N s (cons s) \<and>
     (\<forall>i j p. holds (prods s i) = Some p \<longrightarrow> holds (prods s j) = Some p \<longrightarrow> i = j) \<and>
     (\<forall>j < N. mp_ready (mring s) ! j \<noteq> 0 \<longrightarrow>
        (\<exists>p. length (out s) \<le> p \<and> p < length (acc s) \<and> p mod N = j \<and> published N s p \<and> \<not> held s p)) \<and>
     (\<forall>p. length (out s) \<le> p \<and> p < length (acc s) \<longrightarrow> held s p \<or> published N s p \<or> taken (cons s) = Some p)"

lemma win_inj:
  fixes p q lo N :: nat
  assumes "lo \<le> p" "p < lo + N" "lo \<le> q" "q < lo + N" "p mod N = q mod N"
  shows "p = q"
proof -
  have "p - lo = q - lo" by (rule ring_index_inj[of _ N _ lo]) (use assms in auto)
  then show ?thesis using assms by simp
qed

lemma mpsc_invD:
  assumes "mpsc_inv N s"
  shows "length (mp_vals (mring s)) = N" "length (mp_ready (mring s)) = N" "unat (mp_tail (mring s)) = length (acc s)"
    "unat (mp_head (mring s)) = length (out s)" "length (out s) \<le> length (acc s)" "length (acc s) \<le> length (out s) + N"
    "take (length (out s)) (acc s) = out s" "prod_ok N s (prods s i)" "cons_ok N s (cons s)"
    "holds (prods s i) = Some p \<Longrightarrow> holds (prods s j) = Some p \<Longrightarrow> i = j"
    "j < N \<Longrightarrow> mp_ready (mring s) ! j \<noteq> 0 \<Longrightarrow> \<exists>p. length (out s) \<le> p \<and> p < length (acc s) \<and> p mod N = j \<and> published N s p \<and> \<not> held s p"
    "length (out s) \<le> p \<Longrightarrow> p < length (acc s) \<Longrightarrow> held s p \<or> published N s p \<or> taken (cons s) = Some p"
  using assms unfolding mpsc_inv_def by blast+

lemma mpsc_invI:
  assumes "length (mp_vals (mring s)) = N" "length (mp_ready (mring s)) = N" "unat (mp_tail (mring s)) = length (acc s)"
    "unat (mp_head (mring s)) = length (out s)" "length (out s) \<le> length (acc s)" "length (acc s) \<le> length (out s) + N"
    "take (length (out s)) (acc s) = out s" "\<And>i. prod_ok N s (prods s i)" "cons_ok N s (cons s)"
    "\<And>i j p. holds (prods s i) = Some p \<Longrightarrow> holds (prods s j) = Some p \<Longrightarrow> i = j"
    "\<And>j. j < N \<Longrightarrow> mp_ready (mring s) ! j \<noteq> 0 \<Longrightarrow> \<exists>p. length (out s) \<le> p \<and> p < length (acc s) \<and> p mod N = j \<and> published N s p \<and> \<not> held s p"
    "\<And>p. length (out s) \<le> p \<Longrightarrow> p < length (acc s) \<Longrightarrow> held s p \<or> published N s p \<or> taken (cons s) = Some p"
  shows "mpsc_inv N s"
  using assms unfolding mpsc_inv_def by blast

text \<open>Positions of the window have slots of their own.\<close>

lemma slot_inj:
  assumes "mpsc_inv N s" "length (out s) \<le> p" "p < length (acc s)" "length (out s) \<le> q" "q < length (acc s)" "p mod N = q mod N"
  shows "p = q"
  using win_inj[of "length (out s)" p N q] assms mpsc_invD(6)[OF assms(1)] by linarith

lemma held_window: "mpsc_inv N s \<Longrightarrow> held s p \<Longrightarrow> length (out s) \<le> p \<and> p < length (acc s)"
proof -
  assume inv: "mpsc_inv N s" and "held s p"
  then obtain i where i: "holds (prods s i) = Some p" by (auto simp: held_def)
  from mpsc_invD(8)[OF inv, of i] i show ?thesis by (cases "prods s i") auto
qed

lemma prod_ok_cong:
  assumes "acc s' = acc s" "out s' = out s" "mp_vals (mring s') = mp_vals (mring s)"
  shows "prod_ok N s' pc = prod_ok N s pc"
  using assms by (cases pc) auto

text \<open>A producer moves on without claiming or publishing.\<close>

lemma inv_same_holds:
  assumes inv: "mpsc_inv N s" and h: "holds pc = holds (prods s i)" and pc: "prod_ok N s pc"
  shows "mpsc_inv N (s\<lparr>prods := (prods s)(i := pc)\<rparr>)"
proof -
  let ?s = "s\<lparr>prods := (prods s)(i := pc)\<rparr>"
  have hs: "holds (prods ?s j) = holds (prods s j)" for j using h by simp
  then have hd: "held ?s p = held s p" for p by (auto simp: held_def)
  have pb: "published N ?s p = published N s p" for p by (simp add: published_def)
  have pk: "prod_ok N ?s x = prod_ok N s x" for x by (rule prod_ok_cong) simp_all
  note I = mpsc_invD[OF inv]
  show ?thesis
  proof (rule mpsc_invI)
    show "cons_ok N ?s (cons ?s)" using I(9) by (cases "cons s") (simp_all add: hd pb)
    show "prod_ok N ?s (prods ?s j)" for j using I(8)[of j] pc by (simp add: pk)
    show "x = y" if "holds (prods ?s x) = Some p" "holds (prods ?s y) = Some p" for x y p
      using that I(10) unfolding hs by blast
    show "\<exists>p. length (out ?s) \<le> p \<and> p < length (acc ?s) \<and> p mod N = j \<and> published N ?s p \<and> \<not> held ?s p"
      if "j < N" "mp_ready (mring ?s) ! j \<noteq> 0" for j using I(11) that by (simp add: hd pb)
    show "held ?s p \<or> published N ?s p \<or> taken (cons ?s) = Some p" if "length (out ?s) \<le> p" "p < length (acc ?s)" for p
      using I(12) that by (simp add: hd pb)
  qed (use I(1-7) in simp_all)
qed

lemma inv_claim:
  assumes inv: "mpsc_inv N s" and pc: "prods s i = PCas v t" "mp_tail (mring s) = t" and b: "length (acc s) < 2 ^ 64 - 1"
  shows "mpsc_inv N (s\<lparr>mring := (mring s)\<lparr>mp_tail := t + 1\<rparr>, acc := acc s @ [v], prods := (prods s)(i := PWrite v t)\<rparr>)" (is "mpsc_inv N ?s")
proof -
  note I = mpsc_invD[OF inv]
  have t: "unat t = length (acc s)" "unat (t + 1) = Suc (length (acc s))" using I(3) pc(2) b unat_succ[of t] by auto
  have room: "length (acc s) < length (out s) + N" using I(8)[of i] pc(1) t by simp
  have hd: "held ?s p \<longleftrightarrow> held s p \<or> p = length (acc s)" for p
  proof
    assume "held ?s p"
    then show "held s p \<or> p = length (acc s)" using t by (auto simp: held_def split: if_splits)
  next
    assume "held s p \<or> p = length (acc s)"
    then show "held ?s p"
    proof
      assume "held s p"
      then obtain j where j: "holds (prods s j) = Some p" by (auto simp: held_def)
      then have "j \<noteq> i" using pc(1) by auto
      then show ?thesis using j by (auto simp: held_def intro: exI[of _ j])
    qed (use t in \<open>auto simp: held_def intro!: exI[of _ i]\<close>)
  qed
  have pb: "p < length (acc s) \<Longrightarrow> published N ?s p = published N s p" for p by (simp add: published_def nth_append)
  show ?thesis
  proof (rule mpsc_invI)
    show "prod_ok N ?s (prods ?s j)" for j
      using I(8)[of j] t(1) I(5) by (cases "j = i"; cases "prods s j") (auto simp: nth_append)
    show "cons_ok N ?s (cons ?s)" using I(9) by (cases "cons s") (auto simp: hd pb nth_append)
    show "x = y" if "holds (prods ?s x) = Some p" "holds (prods ?s y) = Some p" for x y p
    proof (cases "p = length (acc s)")
      case True
      then have "\<not> held s p" using held_window[OF inv, of p] by auto
      then show ?thesis using that by (auto simp: held_def split: if_splits)
    next
      case False
      then show ?thesis using that I(10)[of x p y] t(1) by (auto split: if_splits)
    qed
    show "\<exists>p. length (out ?s) \<le> p \<and> p < length (acc ?s) \<and> p mod N = j \<and> published N ?s p \<and> \<not> held ?s p"
      if "j < N" "mp_ready (mring ?s) ! j \<noteq> 0" for j
    proof -
      from I(11)[of j] that obtain p where "length (out s) \<le> p" "p < length (acc s)" "p mod N = j" "published N s p" "\<not> held s p" by auto
      then show ?thesis by (intro exI[of _ p]) (simp add: hd pb)
    qed
    show "held ?s p \<or> published N ?s p \<or> taken (cons ?s) = Some p" if "length (out ?s) \<le> p" "p < length (acc ?s)" for p
      using I(12)[of p] that by (cases "p = length (acc s)") (auto simp: hd pb)
  qed (use I(1-7) t room in simp_all)
qed

text \<open>Writing to a slot changes no other position of the window.\<close>

lemma slot_other:
  assumes inv: "mpsc_inv N s" and q: "length (out s) \<le> q" "q < length (acc s)" and p: "length (out s) \<le> p" "p < length (acc s)" "q \<noteq> p"
  shows "xs[p mod N := x] ! (q mod N) = xs ! (q mod N)"
  using slot_inj[OF inv q p(1,2)] p(3) by (metis nth_list_update_neq)

lemma inv_write:
  assumes inv: "mpsc_inv N s" and pc: "prods s i = PWrite v p"
  shows "mpsc_inv N (s\<lparr>mring := (mring s)\<lparr>mp_vals := (mp_vals (mring s))[unat p mod N := v]\<rparr>, prods := (prods s)(i := PPublish p)\<rparr>)" (is "mpsc_inv N ?s")
proof -
  note I = mpsc_invD[OF inv]
  have w: "length (out s) \<le> unat p" "unat p < length (acc s)" "acc s ! unat p = v" using I(8)[of i] pc by auto
  have hs: "holds (prods ?s j) = holds (prods s j)" for j using pc by simp
  then have hd: "held ?s q = held s q" for q by (auto simp: held_def)
  have hp: "held s (unat p)" using pc by (auto simp: held_def intro: exI[of _ i])
  have pb: "published N ?s q = published N s q" if "length (out s) \<le> q" "q < length (acc s)" "q \<noteq> unat p" for q
    unfolding published_def by (simp add: slot_other[OF inv that(1,2) w(1,2) that(3)])
  have N: "0 < N" using I(6) w by (cases N) auto
  show ?thesis
  proof (rule mpsc_invI)
    show "prod_ok N ?s (prods ?s j)" for j
    proof (cases "j = i")
      case True
      then show ?thesis using w N I(1) by simp
    next
      case False
      then have "holds (prods s j) \<noteq> Some (unat p)" using I(10)[of j "unat p" i] pc by auto
      then show ?thesis using I(8)[of j] False by (cases "prods s j") (auto simp: slot_other[OF inv _ _ w(1,2)])
    qed
    have ne: "\<not> held s (length (out s)) \<Longrightarrow> length (out s) \<noteq> unat p" using hp by metis
    show "cons_ok N ?s (cons ?s)" using I(9) ne pb[of "length (out s)"] by (cases "cons s") (simp_all add: hd)
    show "x = y" if "holds (prods ?s x) = Some q" "holds (prods ?s y) = Some q" for x y q
      using that I(10) unfolding hs by blast
    show "\<exists>q. length (out ?s) \<le> q \<and> q < length (acc ?s) \<and> q mod N = j \<and> published N ?s q \<and> \<not> held ?s q"
      if "j < N" "mp_ready (mring ?s) ! j \<noteq> 0" for j
    proof -
      from I(11)[of j] that obtain q where q: "length (out s) \<le> q" "q < length (acc s)" "q mod N = j" "published N s q" "\<not> held s q" by auto
      have "q \<noteq> unat p" using hp q(5) by metis
      then show ?thesis using q pb[OF q(1,2)] by (intro exI[of _ q]) (simp add: hd)
    qed
    show "held ?s q \<or> published N ?s q \<or> taken (cons ?s) = Some q" if "length (out ?s) \<le> q" "q < length (acc ?s)" for q
      using I(12)[of q] that hp pb[of q] by (cases "q = unat p") (auto simp: hd)
  qed (use I(1-7) in simp_all)
qed

lemma inv_publish:
  assumes inv: "mpsc_inv N s" and pc: "prods s i = PPublish p" and b: "length (acc s) < 2 ^ 64 - 1"
  shows "mpsc_inv N (s\<lparr>mring := (mring s)\<lparr>mp_ready := (mp_ready (mring s))[unat p mod N := p + 1]\<rparr>, prods := (prods s)(i := PIdle)\<rparr>)" (is "mpsc_inv N ?s")
proof -
  note I = mpsc_invD[OF inv]
  have w: "length (out s) \<le> unat p" "unat p < length (acc s)" "mp_vals (mring s) ! (unat p mod N) = acc s ! unat p" using I(8)[of i] pc by auto
  have hd: "held ?s q \<longleftrightarrow> held s q \<and> q \<noteq> unat p" for q
  proof
    assume "held ?s q"
    then obtain j where j: "j \<noteq> i" "holds (prods s j) = Some q" by (auto simp: held_def split: if_splits)
    then show "held s q \<and> q \<noteq> unat p" using I(10)[of j "unat p" i] pc by (auto simp: held_def)
  next
    assume q: "held s q \<and> q \<noteq> unat p"
    then obtain j where "holds (prods s j) = Some q" by (auto simp: held_def)
    moreover from this q have "j \<noteq> i" using pc by auto
    ultimately show "held ?s q" by (auto simp: held_def intro: exI[of _ j])
  qed
  have hp: "held s (unat p)" using pc by (auto simp: held_def intro: exI[of _ i])
  have N: "0 < N" using I(6) w by (cases N) auto
  have pp: "published N ?s (unat p)" using w(3) N I(2) by (simp add: published_def)
  have pb: "published N ?s q = published N s q" if "length (out s) \<le> q" "q < length (acc s)" "q \<noteq> unat p" for q
    unfolding published_def by (simp add: slot_other[OF inv that(1,2) w(1,2) that(3)])
  show ?thesis
  proof (rule mpsc_invI)
    show "prod_ok N ?s (prods ?s j)" for j using I(8)[of j] by (cases "j = i"; cases "prods s j") auto
    have ne: "\<not> held s (length (out s)) \<Longrightarrow> length (out s) \<noteq> unat p" using hp by metis
    show "cons_ok N ?s (cons ?s)"
      using I(9) ne pb[of "length (out s)"]
      by (cases "cons s") (simp_all add: hd slot_other[OF inv order_refl _ w(1,2)])
    show "x = y" if "holds (prods ?s x) = Some q" "holds (prods ?s y) = Some q" for x y q
      using that I(10)[of x q y] by (auto split: if_splits)
    show "\<exists>q. length (out ?s) \<le> q \<and> q < length (acc ?s) \<and> q mod N = j \<and> published N ?s q \<and> \<not> held ?s q"
      if j: "j < N" "mp_ready (mring ?s) ! j \<noteq> 0" for j
    proof (cases "j = unat p mod N")
      case True
      then show ?thesis using w pp by (intro exI[of _ "unat p"]) (simp add: hd)
    next
      case False
      then have "mp_ready (mring s) ! j \<noteq> 0" using j(2) by simp
      from I(11)[OF j(1) this] obtain q where q: "length (out s) \<le> q" "q < length (acc s)" "q mod N = j" "published N s q" "\<not> held s q" by auto
      then show ?thesis using pb[OF q(1,2)] False by (intro exI[of _ q]) (auto simp: hd)
    qed
    show "held ?s q \<or> published N ?s q \<or> taken (cons ?s) = Some q" if "length (out ?s) \<le> q" "q < length (acc ?s)" for q
      using I(12)[of q] that pp pb[of q] by (cases "q = unat p") (auto simp: hd)
  qed (use I(1-7) in simp_all)
qed

text \<open>The consumer's accesses.\<close>

lemma of_nat_u64_inj:
  assumes "(of_nat m :: u64) = of_nat n" "m < 2 ^ 64" "n < 2 ^ 64"
  shows "m = n"
proof -
  have "unat (of_nat m :: u64) = m" "unat (of_nat n :: u64) = n" 
    using of_nat_inverse[of m "of_nat m :: u64", OF refl] of_nat_inverse[of n "of_nat n :: u64", OF refl] assms(2,3) by simp_all
  then show ?thesis unfolding assms(1) by simp
qed

lemma cons_update_cong:
  "held (s\<lparr>cons := c\<rparr>) q = held s q"
  "published N (s\<lparr>cons := c\<rparr>) q = published N s q"
  "prod_ok N (s\<lparr>cons := c\<rparr>) pc = prod_ok N s pc"
  subgoal unfolding held_def by simp
  subgoal unfolding published_def by simp
  subgoal by (rule prod_ok_cong) simp_all
  done

lemma cons_ok_cong: "cons_ok N (s\<lparr>cons := c\<rparr>) d = cons_ok N s d"
  by (cases d) (simp_all add: cons_update_cong)

lemma inv_cons:
  assumes inv: "mpsc_inv N s" and c: "cons_ok N s c" and t: "taken (cons s) = None \<or> taken c = taken (cons s)"
  shows "mpsc_inv N (s\<lparr>cons := c\<rparr>)"
proof -
  note I = mpsc_invD[OF inv]
  show ?thesis
  proof (rule mpsc_invI)
    show "x = y" if "holds (prods (s\<lparr>cons := c\<rparr>) x) = Some q" "holds (prods (s\<lparr>cons := c\<rparr>) y) = Some q" for x y q
      using that I(10)[of x q y] by simp
    show "held (s\<lparr>cons := c\<rparr>) q \<or> published N (s\<lparr>cons := c\<rparr>) q \<or> taken (cons (s\<lparr>cons := c\<rparr>)) = Some q"
      if "length (out (s\<lparr>cons := c\<rparr>)) \<le> q" "q < length (acc (s\<lparr>cons := c\<rparr>))" for q
      using I(12)[of q] that t unfolding cons_update_cong by auto
  qed (use I(1-8,11) c in \<open>simp_all add: cons_update_cong cons_ok_cong\<close>)
qed

text \<open>A marker that equals the expected one is the marker of the position at the head.\<close>

lemma head_published:
  assumes inv: "mpsc_inv N s" and N: "0 < N" and b: "length (acc s) < 2 ^ 64 - 1"
    and r: "mp_ready (mring s) ! (length (out s) mod N) = mp_head (mring s) + 1"
  shows "length (out s) < length (acc s)" "published N s (length (out s))" "\<not> held s (length (out s))"
proof -
  note I = mpsc_invD[OF inv]
  have h: "unat (mp_head (mring s) + 1) = Suc (length (out s))" using I(4,5) b unat_succ[of "mp_head (mring s)"] by auto
  then have h1: "mp_head (mring s) + 1 = of_nat (length (out s) + 1)" by (metis Suc_eq_plus1 of_nat_unat ucast_id)
  have "mp_ready (mring s) ! (length (out s) mod N) \<noteq> 0" using h r by auto
  from I(11)[OF mod_less_divisor[OF N] this]
  obtain q where q: "length (out s) \<le> q" "q < length (acc s)" "q mod N = length (out s) mod N" "published N s q" "\<not> held s q" by auto
  then have "of_nat (q + 1) = (of_nat (length (out s) + 1) :: u64)" using r h1 by (simp add: published_def)
  then have "q = length (out s)" using of_nat_u64_inj[of "q + 1" "length (out s) + 1"] q(2) I(5) b by simp
  then show "length (out s) < length (acc s)" "published N s (length (out s))" "\<not> held s (length (out s))" using q by auto
qed

lemma inv_clear:
  assumes inv: "mpsc_inv N s" and pc: "cons s = CClear h v"
  shows "mpsc_inv N (s\<lparr>mring := (mring s)\<lparr>mp_ready := (mp_ready (mring s))[length (out s) mod N := 0]\<rparr>, cons := CStore h v\<rparr>)" (is "mpsc_inv N ?s")
proof -
  note I = mpsc_invD[OF inv]
  have c: "h = mp_head (mring s)" "length (out s) < length (acc s)" "\<not> held s (length (out s))" "v = acc s ! length (out s)"
    using I(9) pc by auto
  have N: "0 < N" using I(6) c(2) by (cases N) auto
  have hd: "held ?s q = held s q" for q by (simp add: held_def)
  have pb: "published N ?s q = published N s q" if "length (out s) \<le> q" "q < length (acc s)" "q \<noteq> length (out s)" for q
    unfolding published_def by (simp add: slot_other[OF inv that(1,2) order_refl c(2) that(3)])
  show ?thesis
  proof (rule mpsc_invI)
    show "prod_ok N ?s (prods ?s j)" for j using I(8)[of j] prod_ok_cong[of ?s s] by simp
    show "cons_ok N ?s (cons ?s)" using c N I(2) by (simp add: held_def)
    show "\<exists>q. length (out ?s) \<le> q \<and> q < length (acc ?s) \<and> q mod N = j \<and> published N ?s q \<and> \<not> held ?s q"
      if j: "j < N" "mp_ready (mring ?s) ! j \<noteq> 0" for j
    proof -
      have n: "j \<noteq> length (out s) mod N" using j I(2) by auto
      then have "mp_ready (mring s) ! j \<noteq> 0" using j(2) by simp
      from I(11)[OF j(1) this] obtain q where q: "length (out s) \<le> q" "q < length (acc s)" "q mod N = j" "published N s q" "\<not> held s q" by auto
      then have "q \<noteq> length (out s)" using n by auto
      then show ?thesis using q pb[OF q(1,2)] by (intro exI[of _ q]) (simp add: hd)
    qed
    show "held ?s q \<or> published N ?s q \<or> taken (cons ?s) = Some q" if "length (out ?s) \<le> q" "q < length (acc ?s)" for q
      using I(12)[of q] that pb[of q] pc c(1) I(4) unfolding hd by (cases "q = length (out s)") auto
  qed (use I(1-7,10) in simp_all)
qed

lemma inv_deliver:
  assumes inv: "mpsc_inv N s" and pc: "cons s = CStore h v" and b: "length (acc s) < 2 ^ 64 - 1"
  shows "mpsc_inv N (s\<lparr>mring := (mring s)\<lparr>mp_head := h + 1\<rparr>, cons := CIdle, out := out s @ [v]\<rparr>)" (is "mpsc_inv N ?s")
proof -
  note I = mpsc_invD[OF inv]
  have c: "h = mp_head (mring s)" "length (out s) < length (acc s)" "\<not> held s (length (out s))" "v = acc s ! length (out s)"
    "mp_ready (mring s) ! (length (out s) mod N) = 0"
    using I(9) pc by auto
  have h: "unat h = length (out s)" "unat (h + 1) = Suc (length (out s))" using I(4) c(1,2) b unat_succ[of h] by auto
  have hd: "held ?s q = held s q" "published N ?s q = published N s q" for q by (simp_all add: held_def published_def)
  have past: "Suc (length (out s)) \<le> q" if "length (out s) \<le> q" "q \<noteq> length (out s)" for q using that by simp
  show ?thesis
  proof (rule mpsc_invI)
    show "prod_ok N ?s (prods ?s j)" for j
    proof -
      have "holds (prods s j) \<noteq> Some (length (out s))" using c(3) by (auto simp: held_def)
      then show ?thesis using I(8)[of j] past by (cases "prods s j") auto
    qed
    show "take (length (out ?s)) (acc ?s) = out ?s" using I(7) c(2,4) by (simp add: take_Suc_conv_app_nth)
    show "\<exists>q. length (out ?s) \<le> q \<and> q < length (acc ?s) \<and> q mod N = j \<and> published N ?s q \<and> \<not> held ?s q"
      if j: "j < N" "mp_ready (mring ?s) ! j \<noteq> 0" for j
    proof -
      from I(11)[of j] j obtain q where q: "length (out s) \<le> q" "q < length (acc s)" "q mod N = j" "published N s q" "\<not> held s q" by auto
      then have "q \<noteq> length (out s)" using j(2) c(5) by auto
      then show ?thesis using q past[OF q(1)] by (intro exI[of _ q]) (simp add: hd)
    qed
    show "held ?s q \<or> published N ?s q \<or> taken (cons ?s) = Some q" if "length (out ?s) \<le> q" "q < length (acc ?s)" for q
      using I(12)[of q] that pc h(1) by (auto simp: hd)
  qed (use I(1-6,10) h c(2) in simp_all)
qed

section \<open>Every interleaving\<close>

lemma mp_index_mod:
  assumes "length (mp_vals r) = 2 ^ k" "k < 64"
  shows "mp_index r p = unat p mod 2 ^ k"
  using assms index_mask[of p k] by (simp add: mp_index_def)

lemma inv_start:
  assumes "mpsc_inv N s" "mpsc_push_start i v s = Some s'"
  shows "mpsc_inv N s'"
  using assms mpsc_invD(3)[OF assms(1)]
  by (auto simp: mpsc_push_start_def split: prod_pc.splits intro!: inv_same_holds)

lemma inv_push_step:
  assumes inv: "mpsc_inv (2 ^ k) s" and k: "k < 64" and b: "length (acc s) < 2 ^ 64 - 1" and st: "mpsc_push_step i weak s = Some s'"
  shows "mpsc_inv (2 ^ k) s'"
proof -
  note I = mpsc_invD[OF inv]
  note ix = mp_index_mod[OF I(1) k]
  show ?thesis
  proof (cases "prods s i")
    case PIdle
    then show ?thesis using st by (simp add: mpsc_push_step_def)
  next
    case (PTry v t)
    have "unat t < length (out s) + 2 ^ k" if "t - mp_head (mring s) \<noteq> of_nat (2 ^ k)"
    proof (rule ccontr)
      assume n: "\<not> ?thesis"
      have t: "unat t = length (out s) + 2 ^ k" using n I(8)[of i] PTry I(6) by simp
      then have "unat (t - mp_head (mring s)) = 2 ^ k" using I(4) by (simp add: unat_sub word_le_nat_alt)
      then show False using that unat_cap[OF k] by (metis word_unat_eq_iff)
    qed
    then show ?thesis using st PTry I(1) I(8)[of i]
      by (auto simp: mpsc_push_step_def split: if_splits intro!: inv_same_holds[OF inv])
  next
    case (PCas v t)
    then show ?thesis using st inv_claim[OF inv PCas _ b] I(3)
      by (auto simp: mpsc_push_step_def Let_def split: if_splits intro!: inv_same_holds[OF inv])
  next
    case (PWrite v p)
    then show ?thesis using st inv_write[OF inv PWrite] by (simp add: mpsc_push_step_def Let_def ix)
  next
    case (PPublish p)
    then show ?thesis using st inv_publish[OF inv PPublish b] by (simp add: mpsc_push_step_def Let_def ix)
  qed
qed

lemma inv_pop_step:
  assumes inv: "mpsc_inv (2 ^ k) s" and k: "k < 64" and b: "length (acc s) < 2 ^ 64 - 1"
  shows "mpsc_inv (2 ^ k) (mpsc_pop_step s)"
proof -
  note I = mpsc_invD[OF inv]
  note ix = mp_index_mod[OF I(1) k]
  show ?thesis
  proof (cases "cons s")
    case CIdle
    have "mpsc_inv (2 ^ k) (s\<lparr>cons := CRead (mp_head (mring s))\<rparr>)"
      if "mp_ready (mring s) ! (length (out s) mod 2 ^ k) = mp_head (mring s) + 1"
      using head_published[OF inv _ b that] CIdle by (intro inv_cons[OF inv]) simp_all
    then show ?thesis using CIdle inv by (simp add: mpsc_pop_step_def Let_def ix I(4))
  next
    case (CRead h)
    then have c: "h = mp_head (mring s)" "published (2 ^ k) s (length (out s))" using I(9) by auto
    then have "mpsc_inv (2 ^ k) (s\<lparr>cons := CClear h (mp_vals (mring s) ! (length (out s) mod 2 ^ k))\<rparr>)"
      using CRead I(9) by (intro inv_cons[OF inv]) (simp_all add: published_def)
    then show ?thesis using CRead c(1) by (simp add: mpsc_pop_step_def Let_def ix I(4))
  next
    case (CClear h v)
    then show ?thesis using inv_clear[OF inv CClear] I(9) by (simp add: mpsc_pop_step_def Let_def ix I(4))
  next
    case (CStore h v)
    then show ?thesis using inv_deliver[OF inv CStore b] by (simp add: mpsc_pop_step_def Let_def)
  qed
qed

lemma inv_initial: "mpsc_inv (length u) \<lparr>mring = MpscRing_new u, prods = (\<lambda>_. PIdle), cons = CIdle, acc = [], out = []\<rparr>"
  by (rule mpsc_invI) (simp_all add: MpscRing_new_def)

text \<open>The history of claims only grows, so the bound holds at every earlier state.\<close>

lemma acc_grows:
  "mpsc_push_start i v s = Some s' \<Longrightarrow> acc s' = acc s"
  "mpsc_push_step i weak s = Some s' \<Longrightarrow> length (acc s) \<le> length (acc s')"
  "acc (mpsc_pop_step s) = acc s"
  by (auto simp: mpsc_push_start_def mpsc_push_step_def mpsc_pop_step_def Let_def split: prod_pc.splits cons_pc.splits if_splits)

lemma mpsc_run_inv:
  assumes "mpsc_run u s" "length u = 2 ^ k" "k < 64" "length (acc s) < 2 ^ 64 - 1"
  shows "mpsc_inv (2 ^ k) s"
  using assms(1,4)
proof induction
  case mp_init
  show ?case using inv_initial[of u] assms(2) by simp
next
  case (mp_start s i v s')
  then show ?case using acc_grows(1) inv_start by metis
next
  case (mp_push s i weak s')
  then have b: "length (acc s) < 2 ^ 64 - 1" using acc_grows(2) le_less_trans by blast
  then show ?case using inv_push_step[OF mp_push.IH[OF b] assms(3) b mp_push.hyps(2)] by simp
next
  case (mp_pop s)
  then have b: "length (acc s) < 2 ^ 64 - 1" by (simp only: acc_grows(3))
  then show ?case using inv_pop_step[OF mp_pop.IH[OF b] assms(3) b] by simp
qed

lemma pop_when_published:
  assumes inv: "mpsc_inv (2 ^ k) s" and k: "k < 64" and c: "cons s = CIdle" and p: "published (2 ^ k) s (length (out s))"
  shows "out ((mpsc_pop_step ^^ 4) s) = out s @ [acc s ! length (out s)]"
proof -
  note I = mpsc_invD[OF inv]
  note ix = mp_index_mod[OF I(1) k]
  have "mp_head (mring s) = of_nat (length (out s))" using I(4) by (metis of_nat_unat ucast_id)
  then have h: "mp_head (mring s) + 1 = of_nat (length (out s) + 1)" by simp
  have 1: "mpsc_pop_step s = s\<lparr>cons := CRead (mp_head (mring s))\<rparr>"
    using p c h unfolding published_def by (simp only: mpsc_pop_step_def Let_def ix I(4)) simp
  have 2: "mpsc_pop_step (s\<lparr>cons := CRead (mp_head (mring s))\<rparr>) = s\<lparr>cons := CClear (mp_head (mring s)) (acc s ! length (out s))\<rparr>"
    using p unfolding published_def by (simp add: mpsc_pop_step_def Let_def ix I(4))
  have 3: "out (mpsc_pop_step (mpsc_pop_step (s\<lparr>cons := CClear h v\<rparr>))) = out s @ [v]" for h v
    by (simp add: mpsc_pop_step_def Let_def)
  have "(mpsc_pop_step ^^ 4) s = mpsc_pop_step (mpsc_pop_step (mpsc_pop_step (mpsc_pop_step s)))" by (simp add: eval_nat_numeral)
  then show ?thesis unfolding 1 2 by (simp only: 3)
qed

section \<open>Properties\<close>

text \<open>
  C10: the single-producer ring is a queue: on any schedule of pushes and pops it answers
  exactly what a list of capacity N answers, also across the wrap-around of its two
  counters, and what was accepted is what was delivered followed by what is still inside.
\<close>

theorem spsc_is_fifo:
  assumes "length uninit = 2 ^ k" "k < 64" "fifo_run spsc_push spsc_pop (SpscRing_new uninit) ops = (rs, q)"
  shows "fifo_run (list_push (2 ^ k)) list_pop [] ops = (rs, spsc_contents q) \<and> accepted rs = delivered rs @ spsc_contents q"
proof -
  have ok: "spsc_ok k (SpscRing_new uninit)" "spsc_contents (SpscRing_new uninit) = []"
    using assms(1,2) by (simp_all add: spsc_ok_def spsc_contents_def SpscRing_new_def window_def)
  show ?thesis using spsc.run_refines[OF ok(1) assms(3)] spsc.run_conserves[OF ok(1) assms(3)] ok(2) by simp
qed

theorem spsc_is_fifo_witness:
  "fifo_run spsc_push spsc_pop (SpscRing_new [0, 0 :: nat]) [Push_op 1, Push_op 2, Push_op 3, Pop_op, Push_op 4, Pop_op]
     = ([Accepted 1, Accepted 2, Rejected, Got 1, Accepted 4, Got 2],
        \<lparr>sp_head = 2, sp_tail = 3, sp_slots = [4, 2]\<rparr>) \<and>
   spsc_contents \<lparr>sp_head = 2, sp_tail = 3, sp_slots = [4, 2 :: nat]\<rparr> = [4]"
proof -
  have r: "fifo_run spsc_push spsc_pop (SpscRing_new [0, 0 :: nat]) [Push_op 1, Push_op 2, Push_op 3, Pop_op, Push_op 4, Pop_op]
     = ([Accepted 1, Accepted 2, Rejected, Got 1, Accepted 4, Got 2],
        \<lparr>sp_head = 2, sp_tail = 3, sp_slots = [4, 2]\<rparr>)" by code_simp
  show ?thesis using spsc_is_fifo[of "[0, 0]" 1, OF _ _ r] r by simp
qed

text \<open>
  C6: under every interleaving of any number of producers with the consumer, the ring
  delivers the messages in the order in which producers claimed positions, each once and
  none lost; it never holds more than N; and once no producer is between its claim and
  its publication, a waiting message is returned by the next pop.  The bound of 2^64 - 1
  messages is where the marker of a position becomes the marker of an empty slot.
\<close>

theorem mpsc_fifo:
  assumes "mpsc_run uninit s" "length uninit = 2 ^ k" "k < 64" "length (acc s) < 2 ^ 64 - 1"
  shows "out s = take (length (out s)) (acc s) \<and> length (acc s) \<le> length (out s) + 2 ^ k \<and>
    (cons s = CIdle \<and> (\<forall>i. holds (prods s i) = None) \<and> length (out s) < length (acc s) \<longrightarrow>
       out ((mpsc_pop_step ^^ 4) s) = out s @ [acc s ! length (out s)])"
proof -
  note inv = mpsc_run_inv[OF assms]
  note I = mpsc_invD[OF inv]
  have "published (2 ^ k) s (length (out s))"
    if "cons s = CIdle" "\<forall>i. holds (prods s i) = None" "length (out s) < length (acc s)"
    using I(12)[of "length (out s)"] that by (simp add: held_def)
  then show ?thesis using I(6,7) pop_when_published[OF inv assms(3)] by auto
qed

text \<open>Two producers: the one that claims second publishes first.\<close>

definition two_producers :: "nat prod_pc \<Rightarrow> nat prod_pc \<Rightarrow> u64 \<Rightarrow> u64 list \<Rightarrow> nat list \<Rightarrow> nat list \<Rightarrow> nat msys" where
  "two_producers a b tail ready vals claims =
     \<lparr>mring = \<lparr>mp_head = 0, mp_tail = tail, mp_ready = ready, mp_vals = vals\<rparr>,
      prods = (\<lambda>_. PIdle)(0 := a, 1 := b), cons = CIdle, acc = claims, out = []\<rparr>"

lemma two_producers_step:
  "mpsc_run u (two_producers a b t r vs c) \<Longrightarrow> mpsc_push_step 0 False (two_producers a b t r vs c) = Some (two_producers a' b t' r' vs' c') \<Longrightarrow>
   mpsc_run u (two_producers a' b t' r' vs' c')"
  "mpsc_run u (two_producers a b t r vs c) \<Longrightarrow> mpsc_push_step 1 False (two_producers a b t r vs c) = Some (two_producers a b' t' r' vs' c') \<Longrightarrow>
   mpsc_run u (two_producers a b' t' r' vs' c')"
  by (erule (1) mp_push)+

lemma two_producers_run: "mpsc_run [0, 0] (two_producers PIdle PIdle 2 [1, 2] [7, 8] [7, 8])"
proof -
  note ev = two_producers_def mpsc_push_step_def mpsc_push_start_def mp_index_def fun_upd_twist
  have "mpsc_run [0, 0] (two_producers PIdle PIdle 0 [0, 0] [0, 0] [])"
    using mp_init[of "[0, 0]"] by (simp add: two_producers_def MpscRing_new_def fun_upd_idem)
  then have "mpsc_run [0, 0] (two_producers (PTry 7 0) PIdle 0 [0, 0] [0, 0] [])"
    by (rule mp_start[of _ _ 0 7]) (simp add: ev)
  then have "mpsc_run [0, 0] (two_producers (PTry 7 0) (PTry 8 0) 0 [0, 0] [0, 0] [])"
    by (rule mp_start[of _ _ 1 8]) (simp add: ev)
  then have "mpsc_run [0, 0] (two_producers (PCas 7 0) (PTry 8 0) 0 [0, 0] [0, 0] [])"
    by (rule two_producers_step) (simp add: ev)
  then have "mpsc_run [0, 0] (two_producers (PWrite 7 0) (PTry 8 0) 1 [0, 0] [0, 0] [7])"
    by (rule two_producers_step) (simp add: ev)
  then have "mpsc_run [0, 0] (two_producers (PWrite 7 0) (PCas 8 0) 1 [0, 0] [0, 0] [7])"
    by (rule two_producers_step) (simp add: ev)
  then have "mpsc_run [0, 0] (two_producers (PWrite 7 0) (PTry 8 1) 1 [0, 0] [0, 0] [7])"
    by (rule two_producers_step) (simp add: ev)
  then have "mpsc_run [0, 0] (two_producers (PWrite 7 0) (PCas 8 1) 1 [0, 0] [0, 0] [7])"
    by (rule two_producers_step) (simp add: ev)
  then have "mpsc_run [0, 0] (two_producers (PWrite 7 0) (PWrite 8 1) 2 [0, 0] [0, 0] [7, 8])"
    by (rule two_producers_step) (simp add: ev)
  then have "mpsc_run [0, 0] (two_producers (PWrite 7 0) (PPublish 1) 2 [0, 0] [0, 8] [7, 8])"
    by (rule two_producers_step) (simp add: ev)
  then have "mpsc_run [0, 0] (two_producers (PWrite 7 0) PIdle 2 [0, 2] [0, 8] [7, 8])"
    by (rule two_producers_step) (simp add: ev)
  then have "mpsc_run [0, 0] (two_producers (PPublish 0) PIdle 2 [0, 2] [7, 8] [7, 8])"
    by (rule two_producers_step) (simp add: ev)
  then show ?thesis
    by (rule two_producers_step) (simp add: ev)
qed

theorem mpsc_fifo_witness:
  "mpsc_run [0, 0] (two_producers PIdle PIdle 2 [1, 2] [7, 8] [7, 8]) \<and>
   out ((mpsc_pop_step ^^ 4) (two_producers PIdle PIdle 2 [1, 2] [7, 8] [7, 8])) = [7]"
proof -
  have e: "acc (two_producers PIdle PIdle 2 [1, 2] [7, 8] [7, 8]) = [7, 8]" "out (two_producers PIdle PIdle 2 [1, 2] [7, 8] [7, 8]) = []"
    "cons (two_producers PIdle PIdle 2 [1, 2] [7, 8] [7, 8]) = CIdle" "holds (prods (two_producers PIdle PIdle 2 [1, 2] [7, 8] [7, 8]) i) = None" for i
    by (simp_all add: two_producers_def)
  show ?thesis using mpsc_fifo[OF two_producers_run, of 1] two_producers_run by (simp add: e)
qed

end
