(* ===== verification/Elf.thy ===== *)
theory Elf
  imports Frame_Alloc
begin

text \<open>
  The loader's parser for 64-bit ELF executables (\<open>proc/elf.rs\<close>).  A file is a list of
  bytes; the packed header structs are read field by field, little-endian.  The
  outer sum is a Rust panic (a slice out of range, an arithmetic overflow), the
  inner one the error the parser reports.
\<close>

section \<open>Reading packed fields\<close>

primrec le_bytes :: "u8 list \<Rightarrow> nat" where
  "le_bytes [] = 0"
| "le_bytes (b # bs) = unat b + 256 * le_bytes bs"

definition field :: "u8 list \<Rightarrow> nat \<Rightarrow> nat \<Rightarrow> nat" where
  "field data off n = le_bytes (take n (drop off data))"

definition slice :: "u8 list \<Rightarrow> nat \<Rightarrow> nat \<Rightarrow> panic + u8 list" where
  "slice data off n = (if off + n \<le> length data then Inr (take n (drop off data)) else Inl Assertion)"

definition PT_LOAD :: nat where "PT_LOAD = 1"
definition PT_NULL :: nat where "PT_NULL = 0"
definition PF_X :: u32 where "PF_X = 1"
definition PF_W :: u32 where "PF_W = 2"
definition ELFCLASS64 :: u8 where "ELFCLASS64 = 2"
definition ELFDATA2LSB :: u8 where "ELFDATA2LSB = 1"
definition ET_EXEC :: nat where "ET_EXEC = 2"
definition EM_X86_64 :: nat where "EM_X86_64 = 62"
definition ELF64_PHDR_SIZE :: nat where "ELF64_PHDR_SIZE = 56"
definition ELF64_HEADER_SIZE :: nat where "ELF64_HEADER_SIZE = 64"
definition MAX_LOAD_SEGMENTS :: nat where "MAX_LOAD_SEGMENTS = 8"
definition ELF_USER_TOP :: nat where "ELF_USER_TOP = 0x800000000000"

lemmas elf_consts = PT_LOAD_def PT_NULL_def ELFCLASS64_def ELFDATA2LSB_def ET_EXEC_def EM_X86_64_def
  ELF64_PHDR_SIZE_def ELF64_HEADER_SIZE_def MAX_LOAD_SEGMENTS_def ELF_USER_TOP_def

record Elf64Header =
  e_ident :: "u8 list"
  e_type :: nat
  e_machine :: nat
  e_entry :: nat
  e_phoff :: nat
  e_phentsize :: nat
  e_phnum :: nat

record Elf64Phdr =
  p_type :: nat
  p_flags :: nat
  p_offset :: nat
  p_vaddr :: nat
  p_filesz :: nat
  p_memsz :: nat
  p_align :: nat

record LoadSegment =
  seg_vaddr :: nat
  seg_filesz :: nat
  seg_memsz :: nat
  seg_data_off :: nat
  seg_flags :: u32

record ElfInfo =
  elf_entry :: nat
  elf_segments :: "LoadSegment list"

datatype ElfError =
  TooShort
| BadMagic
| NotElf64
| NotLittleEndian
| NotExecutable
| NotX86_64
| TooManySegments
| BadAlignment
| SegmentInKernelSpace
| OffsetOutOfBounds

definition read_header :: "u8 list \<Rightarrow> ElfError + Elf64Header" where
  "read_header data =
     (if length data < ELF64_HEADER_SIZE then Inl TooShort
      else Inr \<lparr>e_ident = take 16 data, e_type = field data 16 2, e_machine = field data 18 2,
                e_entry = field data 24 8, e_phoff = field data 32 8,
                e_phentsize = field data 54 2, e_phnum = field data 56 2\<rparr>)"

definition read_phdr :: "u8 list \<Rightarrow> ElfError + Elf64Phdr" where
  "read_phdr data =
     (if length data < ELF64_PHDR_SIZE then Inl OffsetOutOfBounds
      else Inr \<lparr>p_type = field data 0 4, p_flags = field data 4 4, p_offset = field data 8 8,
                p_vaddr = field data 16 8, p_filesz = field data 32 8, p_memsz = field data 40 8,
                p_align = field data 48 8\<rparr>)"

text \<open>\<open>is_power_of_two\<close> and \<open>checked_add\<close> of 64-bit values.\<close>

definition is_power_of_two :: "nat \<Rightarrow> bool" where
  "is_power_of_two n \<longleftrightarrow> list_ex (\<lambda>k. n = 2 ^ k) [0..<64]"

definition checked_add :: "nat \<Rightarrow> nat \<Rightarrow> nat option" where
  "checked_add a b = (if a + b < 2 ^ 64 then Some (a + b) else None)"

text \<open>An addition or subtraction that panics when it leaves the range of 64-bit values.\<close>

definition add_u64 :: "nat \<Rightarrow> nat \<Rightarrow> panic + nat" where
  "add_u64 a b = (if a + b < 2 ^ 64 then Inr (a + b) else Inl Assertion)"

text \<open>The checks of the loop of \<open>parse_elf\<close> on one loadable program header, and the segment it records.\<close>

definition load_segment :: "u8 list \<Rightarrow> Elf64Phdr \<Rightarrow> panic + (ElfError + LoadSegment)" where
  "load_segment data ph =
     (if p_align ph < PAGE_SIZE \<or> \<not> is_power_of_two (p_align ph) then Inr (Inl BadAlignment)
      else if ELF_USER_TOP \<le> p_vaddr ph then Inr (Inl SegmentInKernelSpace)
      else case checked_add (p_vaddr ph) (p_memsz ph) of
        None \<Rightarrow> Inr (Inl SegmentInKernelSpace)
      | Some mem_end \<Rightarrow>
          if ELF_USER_TOP < mem_end then Inr (Inl SegmentInKernelSpace)
          else if p_memsz ph < p_filesz ph then Inr (Inl OffsetOutOfBounds)
          else case checked_add (p_offset ph) (p_filesz ph) of
            None \<Rightarrow> Inr (Inl OffsetOutOfBounds)
          | Some file_end \<Rightarrow>
              if length data < file_end then Inr (Inl OffsetOutOfBounds)
              else let page_offset = p_vaddr ph AND (PAGE_SIZE - 1) in
                if p_offset ph < page_offset then Inr (Inl OffsetOutOfBounds)
                else and_then (add_u64 (p_filesz ph) page_offset) (\<lambda>filesz.
                     and_then (add_u64 (p_memsz ph) page_offset) (\<lambda>memsz.
                     Inr (Inr \<lparr>seg_vaddr = p_vaddr ph - page_offset, seg_filesz = filesz, seg_memsz = memsz,
                               seg_data_off = p_offset ph - page_offset, seg_flags = of_nat (p_flags ph)\<rparr>))))"

primrec parse_phdrs :: "u8 list \<Rightarrow> nat \<Rightarrow> nat \<Rightarrow> nat list \<Rightarrow> LoadSegment list \<Rightarrow> panic + (ElfError + LoadSegment list)" where
  "parse_phdrs data phoff phentsize [] segs = Inr (Inr segs)"
| "parse_phdrs data phoff phentsize (i # is) segs =
     and_then (slice data (phoff + i * phentsize) phentsize) (\<lambda>bytes.
     case read_phdr bytes of
       Inl e \<Rightarrow> Inr (Inl e)
     | Inr ph \<Rightarrow>
         if p_type ph \<noteq> PT_LOAD then parse_phdrs data phoff phentsize is segs
         else if length segs = MAX_LOAD_SEGMENTS then Inr (Inl TooManySegments)
         else and_then (load_segment data ph) (\<lambda>r.
           case r of
             Inl e \<Rightarrow> Inr (Inl e)
           | Inr seg \<Rightarrow> parse_phdrs data phoff phentsize is (segs @ [seg])))"

definition parse_elf :: "u8 list \<Rightarrow> panic + (ElfError + ElfInfo)" where
  "parse_elf data =
     (if length data < ELF64_HEADER_SIZE then Inr (Inl TooShort)
      else case read_header data of
        Inl e \<Rightarrow> Inr (Inl e)
      | Inr h \<Rightarrow>
          if take 4 (e_ident h) \<noteq> [0x7f, 0x45, 0x4c, 0x46] then Inr (Inl BadMagic)
          else if e_ident h ! 4 \<noteq> ELFCLASS64 then Inr (Inl NotElf64)
          else if e_ident h ! 5 \<noteq> ELFDATA2LSB then Inr (Inl NotLittleEndian)
          else if e_type h \<noteq> ET_EXEC then Inr (Inl NotExecutable)
          else if e_machine h \<noteq> EM_X86_64 then Inr (Inl NotX86_64)
          else if e_phentsize h \<noteq> ELF64_PHDR_SIZE then Inr (Inl OffsetOutOfBounds)
          else if MAX_LOAD_SEGMENTS < e_phnum h then Inr (Inl TooManySegments)
          else case checked_add (e_phoff h) (e_phnum h * e_phentsize h) of
            None \<Rightarrow> Inr (Inl OffsetOutOfBounds)
          | Some phdr_end \<Rightarrow>
              if length data < phdr_end then Inr (Inl OffsetOutOfBounds)
              else and_then (parse_phdrs data (e_phoff h) (e_phentsize h) [0..<e_phnum h] []) (\<lambda>r.
                case r of
                  Inl e \<Rightarrow> Inr (Inl e)
                | Inr segs \<Rightarrow> Inr (Inr \<lparr>elf_entry = e_entry h, elf_segments = segs\<rparr>)))"

section \<open>What the parser guarantees\<close>

text \<open>A segment the loader can map: page-aligned in user space, its bytes inside the file.\<close>

definition segment_ok :: "u8 list \<Rightarrow> LoadSegment \<Rightarrow> bool" where
  "segment_ok data s \<longleftrightarrow> seg_vaddr s mod PAGE_SIZE = 0 \<and> seg_vaddr s < ELF_USER_TOP \<and>
     seg_vaddr s + seg_memsz s \<le> ELF_USER_TOP \<and> seg_filesz s \<le> seg_memsz s \<and>
     seg_data_off s + seg_filesz s \<le> length data"

lemma load_segment_ok:
  "\<exists>r. load_segment data ph = Inr r \<and> (\<forall>seg. r = Inr seg \<longrightarrow> segment_ok data seg)"
proof -
  have m: "p_vaddr ph AND (PAGE_SIZE - 1) = p_vaddr ph mod PAGE_SIZE" using and_4095[of "p_vaddr ph"] by simp
  have d: "(p_vaddr ph - p_vaddr ph mod 4096) mod 4096 = 0" by (simp add: minus_mod_eq_mult_div)
  have le: "p_vaddr ph mod 4096 \<le> p_vaddr ph" "p_vaddr ph mod 4096 < 4096" by simp_all
  show ?thesis
    unfolding load_segment_def m Let_def
    by (auto simp: checked_add_def add_u64_def segment_ok_def d ELF_USER_TOP_def split: if_splits option.splits
        intro: le_less_trans[OF diff_le_self])
qed

section \<open>A declarative reference\<close>

text \<open>
  What a well-formed executable is, stated on the file alone: the header fields, and
  for every loadable entry of the program header table its alignment, address range
  and file range.
\<close>

definition phdr_at :: "u8 list \<Rightarrow> nat \<Rightarrow> Elf64Phdr" where
  "phdr_at data off =
     \<lparr>p_type = field data off 4, p_flags = field data (off + 4) 4, p_offset = field data (off + 8) 8,
      p_vaddr = field data (off + 16) 8, p_filesz = field data (off + 32) 8, p_memsz = field data (off + 40) 8,
      p_align = field data (off + 48) 8\<rparr>"

definition loads :: "u8 list \<Rightarrow> nat \<Rightarrow> nat list \<Rightarrow> Elf64Phdr list" where
  "loads data phoff is = filter (\<lambda>ph. p_type ph = PT_LOAD) (map (\<lambda>i. phdr_at data (phoff + i * ELF64_PHDR_SIZE)) is)"

definition phdr_ok :: "u8 list \<Rightarrow> Elf64Phdr \<Rightarrow> bool" where
  "phdr_ok data ph \<longleftrightarrow> PAGE_SIZE \<le> p_align ph \<and> (\<exists>k < 64. p_align ph = 2 ^ k) \<and> p_vaddr ph < ELF_USER_TOP \<and>
     p_vaddr ph + p_memsz ph \<le> ELF_USER_TOP \<and> p_filesz ph \<le> p_memsz ph \<and> p_offset ph + p_filesz ph \<le> length data \<and>
     p_vaddr ph mod PAGE_SIZE \<le> p_offset ph"

definition to_segment :: "Elf64Phdr \<Rightarrow> LoadSegment" where
  "to_segment ph = (let d = p_vaddr ph mod PAGE_SIZE in
     \<lparr>seg_vaddr = p_vaddr ph - d, seg_filesz = p_filesz ph + d, seg_memsz = p_memsz ph + d,
      seg_data_off = p_offset ph - d, seg_flags = of_nat (p_flags ph)\<rparr>)"

definition header_ok :: "u8 list \<Rightarrow> bool" where
  "header_ok data \<longleftrightarrow> ELF64_HEADER_SIZE \<le> length data \<and> take 4 data = [0x7f, 0x45, 0x4c, 0x46] \<and>
     data ! 4 = ELFCLASS64 \<and> data ! 5 = ELFDATA2LSB \<and> field data 16 2 = ET_EXEC \<and> field data 18 2 = EM_X86_64 \<and>
     field data 54 2 = ELF64_PHDR_SIZE \<and> field data 56 2 \<le> MAX_LOAD_SEGMENTS \<and>
     field data 32 8 + field data 56 2 * ELF64_PHDR_SIZE \<le> length data"

lemma load_segment_iff:
  assumes "length data < 2 ^ 63"
  shows "load_segment data ph = Inr (Inr seg) \<longleftrightarrow> phdr_ok data ph \<and> seg = to_segment ph"
proof -
  have m: "p_vaddr ph AND (PAGE_SIZE - 1) = p_vaddr ph mod PAGE_SIZE" using and_4095[of "p_vaddr ph"] by simp
  have p: "is_power_of_two (p_align ph) \<longleftrightarrow> (\<exists>k < 64. p_align ph = 2 ^ k)" by (auto simp: is_power_of_two_def list_ex_iff)
  have le: "p_vaddr ph mod 4096 < 4096" by simp
  show ?thesis
    unfolding load_segment_def m Let_def p phdr_ok_def to_segment_def
    using assms le by (auto simp: checked_add_def add_u64_def ELF_USER_TOP_def split: if_splits option.splits)
qed

lemma slice_field: "off + n \<le> length data \<Longrightarrow> a + b \<le> n \<Longrightarrow> field (take n (drop off data)) a b = field data (off + a) b"
  by (simp add: field_def drop_take min_def add.commute)

lemma read_phdr_at:
  assumes "off + ELF64_PHDR_SIZE \<le> length data"
  shows "slice data off ELF64_PHDR_SIZE = Inr (take ELF64_PHDR_SIZE (drop off data))"
    "read_phdr (take ELF64_PHDR_SIZE (drop off data)) = Inr (phdr_at data off)"
  using assms by (simp_all add: slice_def read_phdr_def phdr_at_def slice_field ELF64_PHDR_SIZE_def)

lemma parse_phdrs_iff:
  assumes "length data < 2 ^ 63" "\<forall>i \<in> set is. phoff + i * ELF64_PHDR_SIZE + ELF64_PHDR_SIZE \<le> length data"
    "length segs + length is \<le> MAX_LOAD_SEGMENTS"
  shows "\<exists>r. parse_phdrs data phoff ELF64_PHDR_SIZE is segs = Inr r \<and>
    (\<forall>out. r = Inr out \<longleftrightarrow> (\<forall>ph \<in> set (loads data phoff is). phdr_ok data ph) \<and> out = segs @ map to_segment (loads data phoff is))"
  using assms(2,3)
proof (induction "is" arbitrary: segs)
  case (Cons i "is")
  let ?ph = "phdr_at data (phoff + i * ELF64_PHDR_SIZE)"
  have b: "phoff + i * ELF64_PHDR_SIZE + ELF64_PHDR_SIZE \<le> length data" using Cons.prems(1) by simp
  note rd = read_phdr_at[OF b]
  show ?case
  proof (cases "p_type ?ph = PT_LOAD")
    case False
    then show ?thesis using Cons.IH[of segs] Cons.prems rd by (simp add: loads_def)
  next
    case True
    obtain r where r: "load_segment data ?ph = Inr r" using load_segment_ok by blast
    have full: "length segs \<noteq> MAX_LOAD_SEGMENTS" using Cons.prems(2) by simp
    show ?thesis
    proof (cases r)
      case (Inl e)
      then have "\<not> phdr_ok data ?ph" using load_segment_iff[OF assms(1), of ?ph "to_segment ?ph"] r by simp
      then show ?thesis using True Inl r rd full by (simp add: loads_def)
    next
      case (Inr seg)
      then have "phdr_ok data ?ph" "seg = to_segment ?ph" using load_segment_iff[OF assms(1)] r by blast+
      then show ?thesis using Cons.IH[of "segs @ [seg]"] Cons.prems True Inr r rd full by (simp add: loads_def)
    qed
  qed
qed (auto simp: loads_def)

lemma read_header_ok:
  assumes "ELF64_HEADER_SIZE \<le> length data"
  shows "read_header data = Inr \<lparr>e_ident = take 16 data, e_type = field data 16 2, e_machine = field data 18 2,
                e_entry = field data 24 8, e_phoff = field data 32 8, e_phentsize = field data 54 2, e_phnum = field data 56 2\<rparr>"
  using assms by (simp add: read_header_def)

lemma parse_elf_bad_header:
  assumes "\<not> header_ok data" "length data < 2 ^ 63"
  shows "\<exists>e. parse_elf data = Inr (Inl e)"
proof (cases "length data < ELF64_HEADER_SIZE")
  case False
  then have l: "ELF64_HEADER_SIZE \<le> length data" by simp
  have id: "take 4 (take 16 data) = take 4 data" "take 16 data ! 4 = data ! 4" "take 16 data ! 5 = data ! 5" by simp_all
  show ?thesis
    using assms l
    unfolding header_ok_def parse_elf_def read_header_ok[OF l] sum.case Elf64Header.simps id checked_add_def
    by (simp del: One_nat_def split del: if_split) (simp split: if_split add: not_less, blast)
qed (simp add: parse_elf_def)

section \<open>Main property\<close>

text \<open>
  C29: the parser accepts exactly the well-formed executables.  On every file the parser
  returns without a panic; it succeeds if and only if the header is that of a static
  little-endian x86-64 executable with at most eight program headers inside the file
  and every loadable header is aligned, lies in user space and has its bytes inside
  the file, and then it returns exactly the loadable segments, in order, rounded
  down to page boundaries; and every returned segment can be mapped.
\<close>

theorem parse_elf_iff_wellformed:
  assumes "length data < 2 ^ 63"
  shows "\<exists>r. parse_elf data = Inr r \<and>
    (\<forall>info. r = Inr info \<longleftrightarrow> header_ok data \<and>
       (\<forall>ph \<in> set (loads data (field data 32 8) [0..<field data 56 2]). phdr_ok data ph) \<and>
       info = \<lparr>elf_entry = field data 24 8, elf_segments = map to_segment (loads data (field data 32 8) [0..<field data 56 2])\<rparr>) \<and>
    (\<forall>info. r = Inr info \<longrightarrow> length (elf_segments info) \<le> MAX_LOAD_SEGMENTS \<and> (\<forall>seg \<in> set (elf_segments info). segment_ok data seg))"
proof (cases "header_ok data")
  case True
  let ?n = "field data 56 2" and ?o = "field data 32 8"
  have h: "ELF64_HEADER_SIZE \<le> length data" "?n \<le> MAX_LOAD_SEGMENTS" "?o + ?n * ELF64_PHDR_SIZE \<le> length data"
    using True by (auto simp: header_ok_def)
  have "?o + i * ELF64_PHDR_SIZE + ELF64_PHDR_SIZE \<le> length data" if "i < ?n" for i
  proof -
    have "Suc i * ELF64_PHDR_SIZE \<le> ?n * ELF64_PHDR_SIZE" using that by (intro mult_le_mono1) simp
    then show ?thesis using h(3) by simp
  qed
  with parse_phdrs_iff[OF assms, of "[0..<?n]" ?o "[]"] h(2)
  obtain r where r: "parse_phdrs data ?o ELF64_PHDR_SIZE [0..<?n] [] = Inr r"
      "\<And>out. r = Inr out \<longleftrightarrow> (\<forall>ph \<in> set (loads data ?o [0..<?n]). phdr_ok data ph) \<and> out = map to_segment (loads data ?o [0..<?n])"
    by auto
  have id: "data ! 4 = take 16 data ! 4" "data ! 5 = take 16 data ! 5" by simp_all
  have "parse_elf data = Inr (case r of Inl e \<Rightarrow> Inl e | Inr segs \<Rightarrow> Inr \<lparr>elf_entry = field data 24 8, elf_segments = segs\<rparr>)"
    using True h r(1) assms unfolding header_ok_def
    by (cases r) (auto simp: parse_elf_def read_header_def checked_add_def min_def elf_consts)
  note res = this
  have len: "length (loads data ?o [0..<?n]) \<le> ?n"
    using length_filter_le[of "\<lambda>ph. p_type ph = PT_LOAD" "map (\<lambda>i. phdr_at data (?o + i * ELF64_PHDR_SIZE)) [0..<?n]"] by (simp add: loads_def)
  have sok: "segment_ok data (to_segment ph)" if "phdr_ok data ph" for ph
    using load_segment_ok[of data ph] load_segment_iff[OF assms, of ph "to_segment ph"] that by auto
  show ?thesis
  proof (cases r)
    case (Inl e)
    then have "\<not> (\<forall>ph \<in> set (loads data ?o [0..<?n]). phdr_ok data ph)" using r(2)[of "map to_segment (loads data ?o [0..<?n])"] by simp
    then show ?thesis using res Inl by (intro exI[of _ "Inl e"]) simp
  next
    case (Inr segs)
    then have b: "\<forall>ph \<in> set (loads data ?o [0..<?n]). phdr_ok data ph" "segs = map to_segment (loads data ?o [0..<?n])"
      using r(2)[of segs] by blast+
    then have "length segs \<le> MAX_LOAD_SEGMENTS" "\<forall>seg \<in> set segs. segment_ok data seg" using len h(2) sok by auto
    then show ?thesis using res Inr True b
      by (intro exI[of _ "Inr \<lparr>elf_entry = field data 24 8, elf_segments = segs\<rparr>"]) auto
  qed
next
  case False
  from parse_elf_bad_header[OF False assms] obtain e where "parse_elf data = Inr (Inl e)" by blast
  then show ?thesis using False by (intro exI[of _ "Inl e"]) simp
qed

text \<open>A file with one loadable segment.\<close>

definition tiny_elf :: "u8 list" where
  "tiny_elf =
     [127, 69, 76, 70, 2, 1, 1, 0, 0, 0, 0, 0, 0, 0, 0, 0, 2, 0, 62, 0, 1, 0, 0, 0, 120, 0, 64, 0, 0, 0, 0, 0, 64, 0, 0, 0, 0, 0, 0, 0, 0, 0, 0, 0, 0, 0, 0, 0, 0, 0, 0, 0, 64, 0, 56, 0, 1, 0, 0, 0, 0, 0, 0, 0] @
     [1, 0, 0, 0, 5, 0, 0, 0, 0, 0, 0, 0, 0, 0, 0, 0, 0, 0, 64, 0, 0, 0, 0, 0, 0, 0, 64, 0, 0, 0, 0, 0, 120, 0, 0, 0, 0, 0, 0, 0, 136, 19, 0, 0, 0, 0, 0, 0, 0, 16, 0, 0, 0, 0, 0, 0]"

lemma tiny_elf_header: "header_ok tiny_elf" "field tiny_elf 32 8 = 64" "field tiny_elf 56 2 = 1" "field tiny_elf 24 8 = 0x400078" "length tiny_elf = 120"
  by (simp_all add: header_ok_def field_def tiny_elf_def elf_consts)

lemma tiny_elf_loads: "loads tiny_elf 64 [0..<1] =
  [\<lparr>p_type = 1, p_flags = 5, p_offset = 0, p_vaddr = 0x400000, p_filesz = 120, p_memsz = 5000, p_align = 4096\<rparr>]"
  by (simp add: loads_def phdr_at_def field_def tiny_elf_def elf_consts)

theorem parse_elf_iff_wellformed_witness:
  "parse_elf tiny_elf = Inr (Inr \<lparr>elf_entry = 0x400078,
     elf_segments = [\<lparr>seg_vaddr = 0x400000, seg_filesz = 120, seg_memsz = 5000, seg_data_off = 0, seg_flags = 5\<rparr>]\<rparr>)"
proof -
  let ?ph = "\<lparr>p_type = 1, p_flags = 5, p_offset = 0, p_vaddr = 0x400000, p_filesz = 120, p_memsz = 5000, p_align = 4096\<rparr>"
  have "phdr_ok tiny_elf ?ph"
    by (auto simp: phdr_ok_def ELF_USER_TOP_def tiny_elf_header intro!: exI[of _ 12])
  moreover have "to_segment ?ph = \<lparr>seg_vaddr = 0x400000, seg_filesz = 120, seg_memsz = 5000, seg_data_off = 0, seg_flags = 5\<rparr>"
    by (simp add: to_segment_def)
  moreover have "length tiny_elf < 2 ^ 63" unfolding tiny_elf_header by simp
  note parse_elf_iff_wellformed[OF this, unfolded tiny_elf_header(2-4) tiny_elf_loads]
  ultimately show ?thesis using tiny_elf_header(1) unfolding list.set list.map by (elim exE conjE) simp
qed

end
