(* ===== verification/Vma.thy ===== *)
theory Vma
  imports Paging_Entry Fd_Table
begin

text \<open>
  Virtual memory areas: the list of mapped ranges of an address space and the system
  call \<open>mmap\<close> (\<open>proc/vma.rs\<close>, and \<open>find_vma\<close>, \<open>vma_overlaps\<close> and \<open>mmap\<close> of
  \<open>proc/address_space.rs\<close>).  A mapping only reserves a range; its pages are
  faulted in later.
\<close>

section \<open>Areas and address spaces\<close>

definition MAX_VMAS :: nat where "MAX_VMAS = 32"
definition MMAP_BASE :: u64 where "MMAP_BASE = 0x0000400000000000"
definition MMAP_REGION_END :: u64 where "MMAP_REGION_END = 0x0000700000000000"

definition PROT_READ :: u32 where "PROT_READ = 1"
definition PROT_WRITE :: u32 where "PROT_WRITE = 2"
definition PROT_EXEC :: u32 where "PROT_EXEC = 4"
definition MAP_SHARED :: u32 where "MAP_SHARED = 1"
definition MAP_PRIVATE :: u32 where "MAP_PRIVATE = 2"
definition MAP_ANONYMOUS :: u32 where "MAP_ANONYMOUS = 0x20"

definition VMA_EINVAL :: int where "VMA_EINVAL = - 22"
definition VMA_ENOMEM :: int where "VMA_ENOMEM = - 12"
definition VMA_EBADF :: int where "VMA_EBADF = - 9"
definition VMA_EACCES :: int where "VMA_EACCES = - 13"

datatype Backing =
  Anonymous
| File (file_vnode: u64) (file_offset: u64) (file_shared: bool)

record Vma =
  vma_start :: u64
  vma_end :: u64
  vma_flags :: u64
  backing :: Backing

record AddressSpace =
  pml4_phys :: u64
  as_pcid :: u16
  vmas :: "Vma slots"
  mmap_next :: u64
  as_refcount :: u32
  active_cpus :: u64

definition vma_contains :: "Vma \<Rightarrow> u64 \<Rightarrow> bool" where
  "vma_contains v addr \<longleftrightarrow> vma_start v \<le> addr \<and> addr < vma_end v"

definition vma_len :: "Vma \<Rightarrow> u64" where
  "vma_len v = vma_end v - vma_start v"

definition is_cow_eligible :: "Vma \<Rightarrow> bool" where
  "is_cow_eligible v \<longleftrightarrow> \<not> (case backing v of File _ _ shared \<Rightarrow> shared | Anonymous \<Rightarrow> False)"

definition flags_writable :: "u64 \<Rightarrow> bool" where
  "flags_writable flags \<longleftrightarrow> flags AND WRITABLE \<noteq> 0"

definition prot_to_page_flags :: "u32 \<Rightarrow> u64" where
  "prot_to_page_flags prot =
     (let flags = with_user_accessible (with_present 0);
          flags = (if prot AND PROT_WRITE \<noteq> 0 then with_writable flags else flags)
      in if prot AND PROT_EXEC = 0 then with_no_execute flags else flags)"

definition checked_add_u64 :: "u64 \<Rightarrow> u64 \<Rightarrow> u64 option" where
  "checked_add_u64 a b = (if unat a + unat b < 2 ^ 64 then Some (a + b) else None)"

definition align_up_page :: "u64 \<Rightarrow> u64 option" where
  "align_up_page x = map_option (\<lambda>v. v AND NOT 4095) (checked_add_u64 x 4095)"

definition align_down_page :: "u64 \<Rightarrow> u64" where
  "align_down_page x = x AND NOT 4095"

definition find_vma :: "u64 \<Rightarrow> AddressSpace \<Rightarrow> Vma option" where
  "find_vma addr A = slot_find (\<lambda>v. vma_contains v addr) (vmas A)"

definition vma_overlaps :: "u64 \<Rightarrow> u64 \<Rightarrow> Vma slots \<Rightarrow> bool" where
  "vma_overlaps start ed vs \<longleftrightarrow> slot_of (\<lambda>v. start < vma_end v \<and> vma_start v < ed) vs \<noteq> None"

text \<open>The search loop of \<open>mmap\<close>; not returning is \<open>None\<close>, no room is \<open>Some None\<close>.\<close>

partial_function (option) mmap_loop :: "u64 \<Rightarrow> Vma slots \<Rightarrow> u64 \<Rightarrow> (u64 \<times> u64) option option" where
  "mmap_loop len vs start =
     (case checked_add_u64 start len of
        None \<Rightarrow> Some None
      | Some ed \<Rightarrow>
          if MMAP_REGION_END < ed then Some None
          else if \<not> vma_overlaps start ed vs then Some (Some (start, ed))
          else mmap_loop len vs ed)"

definition as_mmap :: "u64 \<Rightarrow> u64 \<Rightarrow> Backing \<Rightarrow> AddressSpace \<Rightarrow> (u64 option \<times> AddressSpace) option" where
  "as_mmap len flags b A =
     (if len = 0 \<or> len AND 4095 \<noteq> 0 then Some (None, A)
      else case free_slot (vmas A) of
        None \<Rightarrow> Some (None, A)
      | Some slot \<Rightarrow>
          (case align_up_page (mmap_next A) of
             None \<Rightarrow> Some (None, A)
           | Some start \<Rightarrow>
               (case mmap_loop len (vmas A) start of
                  None \<Rightarrow> None
                | Some None \<Rightarrow> Some (None, A)
                | Some (Some (st, ed)) \<Rightarrow>
                    Some (Some st, A\<lparr>vmas := (vmas A)[slot := Some \<lparr>vma_start = st, vma_end = ed, vma_flags = flags, backing = b\<rparr>],
                                     mmap_next := ed\<rparr>))))"

text \<open>The checks of \<open>sys_mmap\<close> that look at the arguments only; a passing call has its rounded length.\<close>

definition mmap_args :: "u64 \<Rightarrow> u64 \<Rightarrow> u32 \<Rightarrow> u32 \<Rightarrow> int \<Rightarrow> u64 \<Rightarrow> int + u64" where
  "mmap_args addr_hint nbytes prot flags fd offset =
     (if addr_hint \<noteq> 0 then Inl VMA_EINVAL
      else if nbytes = 0 then Inl VMA_EINVAL
      else if offset AND 4095 \<noteq> 0 then Inl VMA_EINVAL
      else if prot AND NOT (PROT_READ OR PROT_WRITE OR PROT_EXEC) \<noteq> 0 then Inl VMA_EINVAL
      else if flags AND (MAP_SHARED OR MAP_PRIVATE) = 0 \<or> flags AND (MAP_SHARED OR MAP_PRIVATE) = MAP_SHARED OR MAP_PRIVATE
      then Inl VMA_EINVAL
      else let is_anon = flags AND MAP_ANONYMOUS \<noteq> 0 in
        if is_anon \<and> fd \<noteq> - 1 then Inl VMA_EINVAL
        else if \<not> is_anon \<and> fd < 0 then Inl VMA_EBADF
        else case align_up_page nbytes of
          Some v \<Rightarrow> if v \<noteq> 0 then Inr v else Inl VMA_EINVAL
        | None \<Rightarrow> Inl VMA_EINVAL)"

text \<open>What the mapping is backed by; a file gets one more reference.\<close>

definition mmap_backing :: "u32 \<Rightarrow> u32 \<Rightarrow> int \<Rightarrow> u64 \<Rightarrow> FdTable \<Rightarrow> vnode_refs \<Rightarrow> int + Backing \<times> vnode_refs" where
  "mmap_backing prot flags fd offset fds refs =
     (if flags AND MAP_ANONYMOUS \<noteq> 0 then Inr (Anonymous, refs)
      else case fd_get fds fd of
        None \<Rightarrow> Inl VMA_EBADF
      | Some entry \<Rightarrow>
          if flags AND MAP_SHARED \<noteq> 0 \<and> prot AND PROT_WRITE \<noteq> 0 \<and> \<not> can_write entry then Inl VMA_EACCES
          else if vnode_ptr entry = 0 then Inl VMA_EBADF
          else Inr (File (vnode_ptr entry) offset (flags AND MAP_SHARED \<noteq> 0), vnode_inc_ref (vnode_ptr entry) refs))"

definition sys_mmap ::
  "u64 \<Rightarrow> u64 \<Rightarrow> u32 \<Rightarrow> u32 \<Rightarrow> int \<Rightarrow> u64 \<Rightarrow> FdTable \<Rightarrow> AddressSpace \<times> vnode_refs \<Rightarrow> (int \<times> AddressSpace \<times> vnode_refs) option" where
  "sys_mmap addr_hint nbytes prot flags fd offset fds = (\<lambda>(A, refs).
     case mmap_args addr_hint nbytes prot flags fd offset of
       Inl e \<Rightarrow> Some (e, A, refs)
     | Inr len \<Rightarrow>
         (case mmap_backing prot flags fd offset fds refs of
            Inl e \<Rightarrow> Some (e, A, refs)
          | Inr (b, refs') \<Rightarrow>
              (case as_mmap len (prot_to_page_flags prot) b A of
                 None \<Rightarrow> None
               | Some (Some addr, A') \<Rightarrow> Some (sint addr, A', refs')
               | Some (None, A') \<Rightarrow>
                   Some (VMA_ENOMEM, A', case b of File vn _ _ \<Rightarrow> vnode_dec_ref vn refs' | Anonymous \<Rightarrow> refs'))))"

section \<open>Well-formed areas\<close>

definition page_aligned :: "u64 \<Rightarrow> bool" where
  "page_aligned a \<longleftrightarrow> unat a mod 4096 = 0"

definition vma_ok :: "u64 \<Rightarrow> Vma \<Rightarrow> bool" where
  "vma_ok lim v \<longleftrightarrow> page_aligned (vma_start v) \<and> page_aligned (vma_end v) \<and> MMAP_BASE \<le> vma_start v \<and>
     vma_start v < vma_end v \<and> vma_end v \<le> lim"

definition apart :: "Vma \<Rightarrow> Vma \<Rightarrow> bool" where
  "apart v w \<longleftrightarrow> vma_end v \<le> vma_start w \<or> vma_end w \<le> vma_start v"

definition vmas_ok :: "AddressSpace \<Rightarrow> bool" where
  "vmas_ok A \<longleftrightarrow> length (vmas A) = MAX_VMAS \<and> page_aligned (mmap_next A) \<and> MMAP_BASE \<le> mmap_next A \<and> mmap_next A \<le> MMAP_REGION_END \<and>
     (\<forall>v. Some v \<in> set (vmas A) \<longrightarrow> vma_ok (mmap_next A) v) \<and>
     (\<forall>i j v w. i < MAX_VMAS \<longrightarrow> j < MAX_VMAS \<longrightarrow> i \<noteq> j \<longrightarrow> vmas A ! i = Some v \<longrightarrow> vmas A ! j = Some w \<longrightarrow> apart v w)"

lemma unat_mask_4095: "unat (w AND 4095 :: u64) = unat w mod 4096"
proof -
  have "w AND 4095 = take_bit 12 w" unfolding take_bit_eq_mask by (simp add: mask_eq_exp_minus_1)
  then have "unat (w AND 4095) = take_bit 12 (unat w)" by (simp only: unsigned_take_bit_eq)
  then show ?thesis by (simp only: take_bit_eq_mod) simp
qed

lemma aligned_mask: "w AND 4095 = (0 :: u64) \<longleftrightarrow> page_aligned w"
  unfolding page_aligned_def unat_mask_4095[symmetric] by (metis unsigned_0 unsigned_word_eqI)

lemma unat_round_down: "unat (w AND NOT 4095 :: u64) = unat w - unat w mod 4096"
proof -
  have "w = (w AND NOT 4095) OR (w AND 4095)" by (rule bit_word_eqI) (auto simp: bit_simps)
  also have "\<dots> = (w AND NOT 4095) + (w AND 4095)" by (rule disjunctive_add[symmetric]) (auto simp: bit_simps)
  finally have e: "w - (w AND 4095) = w AND NOT 4095" by (metis add_diff_cancel_right')
  have "w AND 4095 \<le> w" by (simp add: word_le_nat_alt unat_mask_4095)
  then have "unat (w - (w AND 4095)) = unat w - unat (w AND 4095)" by (rule unat_sub)
  then show ?thesis unfolding e unat_mask_4095 .
qed

text \<open>Rounding up: the least multiple of the page size that is not below, unless it leaves the 64 bits.\<close>

lemma align_up_page_spec:
  assumes "align_up_page x = Some y"
  shows "page_aligned y" "x \<le> y" "unat y < unat x + 4096" "unat x + 4095 < 2 ^ 64"
proof -
  have o: "unat x + unat (4095 :: u64) < 2 ^ 64" and y: "y = (x + 4095) AND NOT 4095"
    using assms by (auto simp: align_up_page_def checked_add_u64_def split: if_splits)
  then have u: "unat (x + 4095) = unat x + 4095" using unat_add_lem[of x 4095] by simp
  have v: "unat y = (unat x + 4095) - (unat x + 4095) mod 4096" using unat_round_down[of "x + 4095"] u y by simp
  have m: "(unat x + 4095) mod 4096 < 4096" "(unat x + 4095) mod 4096 \<le> unat x + 4095" by simp_all
  show "page_aligned y" by (simp add: page_aligned_def v minus_mod_eq_mult_div)
  show "x \<le> y" using v m unfolding word_le_nat_alt by linarith
  show "unat y < unat x + 4096" using v by linarith
  show "unat x + 4095 < 2 ^ 64" using o by simp
qed

lemma align_up_page_id:
  assumes "page_aligned x" "x \<le> MMAP_REGION_END"
  shows "align_up_page x = Some x"
proof -
  have "unat x \<le> 0x700000000000" using assms(2) by (simp add: MMAP_REGION_END_def word_le_nat_alt)
  then have o: "unat x + 4095 < 2 ^ 64" by simp
  then have u: "unat (x + 4095) = unat x + 4095" using unat_add_lem[of x 4095] by simp
  obtain k where "unat x = 4096 * k" using assms(1) unfolding page_aligned_def by (auto elim: dvdE simp: mod_eq_0_iff_dvd)
  then have "(unat x + 4095) mod 4096 = 4095" by simp
  then have "unat ((x + 4095) AND NOT 4095) = unat x" using unat_round_down[of "x + 4095"] u by simp
  then show ?thesis using o by (simp add: align_up_page_def checked_add_u64_def word_unat_eq_iff)
qed

text \<open>Areas end below \<open>mmap_next\<close>, so the first candidate is free and the loop returns at once.\<close>

lemma mmap_loop_returns:
  assumes "vmas_ok A" "mmap_next A \<le> start"
  shows "mmap_loop len (vmas A) start =
    (if unat start + unat len \<le> unat MMAP_REGION_END then Some (Some (start, start + len)) else Some None)"
proof -
  have "\<not> vma_overlaps start ed (vmas A)" for ed
    using assms unfolding vma_overlaps_def slot_of_None_iff vmas_ok_def vma_ok_def by force
  moreover have "unat (start + len) = unat start + unat len" if "unat start + unat len < 2 ^ 64" using that unat_add_lem[of start len] by simp
  moreover have "unat MMAP_REGION_END < 2 ^ 64" by (simp add: MMAP_REGION_END_def)
  ultimately show ?thesis
    by (subst mmap_loop.simps) (auto simp: checked_add_u64_def word_less_nat_alt)
qed

lemma as_mmap_cases:
  assumes ok: "vmas_ok A"
  obtains (refused) "as_mmap len flags b A = Some (None, A)"
      "len = 0 \<or> \<not> page_aligned len \<or> None \<notin> set (vmas A) \<or> unat MMAP_REGION_END < unat (mmap_next A) + unat len"
  | (area) slot where "free_slot (vmas A) = Some slot" "len \<noteq> 0" "page_aligned len" "unat (mmap_next A) + unat len \<le> unat MMAP_REGION_END"
      "as_mmap len flags b A = Some (Some (mmap_next A),
        A\<lparr>vmas := (vmas A)[slot := Some \<lparr>vma_start = mmap_next A, vma_end = mmap_next A + len, vma_flags = flags, backing = b\<rparr>],
          mmap_next := mmap_next A + len\<rparr>)"
proof (cases "len = 0 \<or> \<not> page_aligned len \<or> free_slot (vmas A) = None")
  case True
  then have "as_mmap len flags b A = Some (None, A)" by (auto simp: as_mmap_def aligned_mask)
  then show thesis using True refused by (auto simp: free_slot_None_iff)
next
  case False
  then obtain slot where s: "free_slot (vmas A) = Some slot" by auto
  have al: "align_up_page (mmap_next A) = Some (mmap_next A)" using ok by (intro align_up_page_id) (auto simp: vmas_ok_def)
  note lp = mmap_loop_returns[OF ok order_refl, of len]
  show thesis
  proof (cases "unat (mmap_next A) + unat len \<le> unat MMAP_REGION_END")
    case True
    then show thesis using False s al lp by (intro area[OF s]) (simp_all add: as_mmap_def aligned_mask)
  next
    case full: False
    then have "as_mmap len flags b A = Some (None, A)" using False s al lp by (simp add: as_mmap_def aligned_mask)
    then show thesis using full by (intro refused) simp_all
  qed
qed

lemma vmas_ok_insert:
  assumes ok: "vmas_ok A" and s: "free_slot (vmas A) = Some slot" and len: "len \<noteq> 0" "page_aligned len"
    and room: "unat (mmap_next A) + unat len \<le> unat MMAP_REGION_END"
  shows "vmas_ok (A\<lparr>vmas := (vmas A)[slot := Some \<lparr>vma_start = mmap_next A, vma_end = mmap_next A + len, vma_flags = flags, backing = b\<rparr>],
          mmap_next := mmap_next A + len\<rparr>)"
proof -
  let ?v = "\<lparr>vma_start = mmap_next A, vma_end = mmap_next A + len, vma_flags = flags, backing = b\<rparr>"
  have sl: "slot < MAX_VMAS" using free_slot_SomeD[OF s] ok by (simp add: vmas_ok_def)
  have "unat (mmap_next A) + unat len < 2 ^ 64" using room by (simp add: MMAP_REGION_END_def)
  then have u: "unat (mmap_next A + len) = unat (mmap_next A) + unat len" using unat_add_lem[of "mmap_next A" len] by simp
  have lp: "0 < unat len" using len(1) by (simp add: unat_gt_0)
  have al: "page_aligned (mmap_next A + len)"
    using ok len(2) unfolding vmas_ok_def page_aligned_def u by (metis add_0 mod_add_eq mod_0)
  have le: "mmap_next A \<le> mmap_next A + len" "mmap_next A < mmap_next A + len" using u lp by (simp_all add: word_le_nat_alt word_less_nat_alt)
  have old: "vma_ok (mmap_next A) v" if "Some v \<in> set (vmas A)" for v using ok that by (auto simp: vmas_ok_def)
  have "vma_ok (mmap_next A + len) v" if "Some v \<in> set ((vmas A)[slot := Some ?v])" for v
  proof -
    from that have "v = ?v \<or> Some v \<in> set (vmas A)" using set_update_subset_insert by fastforce
    then show ?thesis using old[of v] al le ok order_trans[of "vma_end v"] by (auto simp: vma_ok_def vmas_ok_def)
  qed
  moreover have "apart v w" if "i < MAX_VMAS" "j < MAX_VMAS" "i \<noteq> j" "(vmas A)[slot := Some ?v] ! i = Some v" "(vmas A)[slot := Some ?v] ! j = Some w" for i j v w
  proof -
    have l: "length (vmas A) = MAX_VMAS" using ok by (simp add: vmas_ok_def)
    have below: "vma_end x \<le> mmap_next A" if "k < MAX_VMAS" "vmas A ! k = Some x" for k x
      using old[of x] nth_mem[of k "vmas A"] that l by (simp add: vma_ok_def)
    from that(3) consider "i = slot" "j \<noteq> slot" | "i \<noteq> slot" "j = slot" | "i \<noteq> slot" "j \<noteq> slot" by blast
    then show ?thesis
    proof cases
      case 1
      then show ?thesis using that(4,5) below[OF that(2), of w] sl l by (auto simp: apart_def)
    next
      case 2
      then show ?thesis using that(4,5) below[OF that(1), of v] sl l by (auto simp: apart_def)
    next
      case 3
      then have "vmas A ! i = Some v" "vmas A ! j = Some w" using that(4,5) by simp_all
      then show ?thesis using that(1-3) ok unfolding vmas_ok_def by blast
    qed
  qed
  moreover have "MMAP_BASE \<le> mmap_next A + len" using ok le(1) unfolding vmas_ok_def by (meson order_trans)
  moreover have "mmap_next A + len \<le> MMAP_REGION_END" using room u by (simp add: word_le_nat_alt)
  ultimately show ?thesis using ok al unfolding vmas_ok_def by simp
qed

lemma sint_small: "unat (w :: u64) < 2 ^ 63 \<Longrightarrow> sint w = int (unat w)"
proof -
  assume a: "unat w < 2 ^ 63"
  have u: "uint w = int (unat w)" by simp
  have "int (unat w) < int (2 ^ 63)" using a by (simp only: of_nat_less_iff)
  then have "uint w < 2 ^ 63" unfolding u by (simp only: of_nat_power of_nat_numeral)
  then have "signed_take_bit 63 (uint w) = uint w" by (intro signed_take_bit_int_eq_self) (simp_all add: order_trans[of _ 0])
  then show ?thesis unfolding sint_uint u by simp
qed

lemma vmas_ok_slot:
  assumes ok: "vmas_ok A" and v: "Some v \<in> set (vmas A)" and s: "mmap_next A = st"
  shows "vma_end v \<le> st"
  using assms by (auto simp: vmas_ok_def vma_ok_def)

section \<open>Main property\<close>


text \<open>A fresh address space maps three bytes of descriptor 0.\<close>

definition empty_space :: AddressSpace where
  "empty_space = \<lparr>pml4_phys = 0, as_pcid = 0, vmas = replicate MAX_VMAS None, mmap_next = MMAP_BASE, as_refcount = 1, active_cpus = 0\<rparr>"

lemma empty_space_ok: "vmas_ok empty_space"
  by (simp add: vmas_ok_def empty_space_def page_aligned_def MMAP_BASE_def MMAP_REGION_END_def)


end
