(* ===== verification/Address_Space.thy ===== *)
theory Address_Space
  imports Page_Table Cow Vma Elf Pcid
begin

text \<open>
  User address spaces (\<open>proc/address_space.rs\<close>, \<open>proc/pagefault.rs\<close>): building the
  image of a program, the page-fault resolvers, copy-on-write cloning at \<open>fork\<close>,
  unmapping and tear-down.  Page tables live in the table memory of \<open>Page_Table\<close>, the
  contents of user pages in \<open>frame_bytes\<close>; frames come from the kernel's frame
  allocator and share counts are those of \<open>Cow\<close>.  The file side of a mapping is reached through
  hooks that the file system registers at boot, so they are parameters.
\<close>

section \<open>State\<close>

text \<open>
  \<open>flushes\<close> lists the shootdowns sent, latest first: the CPUs that have the address space
  active and the page.  \<open>cur_pml4\<close> is the table the CPU runs on, \<open>fs\<close> the state of the file system.
\<close>

record 'f mm =
  tabs :: pt_mem
  frame_bytes :: "u64 \<Rightarrow> u8 list"
  cowt :: cow_table
  galc :: galloc
  pcids :: PcidAllocator
  pcide :: bool
  cur_pml4 :: u64
  flushes :: "(u64 \<times> u64) list"
  fs :: 'f

record 'f fs_hooks =
  page_cache_get_or_fill :: "u64 \<Rightarrow> u64 \<Rightarrow> 'f mm \<Rightarrow> u64 option \<times> 'f mm"
  page_cache_mark_dirty :: "u64 \<Rightarrow> u64 \<Rightarrow> 'f mm \<Rightarrow> 'f mm"
  page_cache_writeback :: "u64 \<Rightarrow> 'f mm \<Rightarrow> 'f mm"
  hook_vnode_dec_ref :: "u64 \<Rightarrow> 'f mm \<Rightarrow> 'f mm"

definition USER_PML4_ENTRIES :: nat where "USER_PML4_ENTRIES = 256"
definition DIRECT_MAP_BASE :: u64 where "DIRECT_MAP_BASE = 0xffff800000000000"

definition USTACK_TOP :: u64 where "USTACK_TOP = 0x00007fffffff0000"
definition USTACK_SIZE :: u64 where "USTACK_SIZE = 256 * 1024"
definition USTACK_PAGES :: nat where "USTACK_PAGES = 64"

definition SIGRETURN_TRAMPOLINE_VA :: u64 where "SIGRETURN_TRAMPOLINE_VA = 0x10000000"
definition SIGRETURN_TRAMPOLINE_CODE :: "u8 list" where
  "SIGRETURN_TRAMPOLINE_CODE = [0x48, 0xc7, 0xc0, 0x0f, 0, 0, 0, 0x0f, 0x05]"

text \<open>A loop over a list of indices whose body may panic.\<close>

primrec for_each :: "('i \<Rightarrow> 's \<Rightarrow> 'e + 's) \<Rightarrow> 'i list \<Rightarrow> 's \<Rightarrow> 'e + 's" where
  "for_each f [] s = Inr s"
| "for_each f (i # is) s = and_then (f i s) (for_each f is)"

definition alloc_page :: "'f mm \<Rightarrow> panic + u64 \<times> 'f mm" where
  "alloc_page m = and_then (kernel_alloc (galc m)) (\<lambda>(f, g). Inr (f, m\<lparr>galc := g\<rparr>))"

definition free_page :: "u64 \<Rightarrow> 'f mm \<Rightarrow> panic + 'f mm" where
  "free_page f m = and_then (free_frame (unat f) (galc m)) (\<lambda>g. Inr (m\<lparr>galc := g\<rparr>))"

definition get_entry :: "u64 \<Rightarrow> nat \<Rightarrow> 'f mm \<Rightarrow> panic + u64" where
  "get_entry t index m = PageTable_get (tabs m) t index"

definition set_entry :: "u64 \<Rightarrow> nat \<Rightarrow> u64 \<Rightarrow> 'f mm \<Rightarrow> panic + 'f mm" where
  "set_entry t index e m = and_then (PageTable_set (tabs m) t index e) (\<lambda>T. Inr (m\<lparr>tabs := T\<rparr>))"

definition shootdown :: "u64 \<Rightarrow> u64 \<Rightarrow> 'f mm \<Rightarrow> 'f mm" where
  "shootdown cpus page m = m\<lparr>flushes := (cpus, page) # flushes m\<rparr>"

section \<open>Table walks\<close>

definition ensure_next_table :: "bool \<Rightarrow> u64 \<Rightarrow> nat \<Rightarrow> 'f mm \<Rightarrow> panic + u64 \<times> 'f mm" where
  "ensure_next_table user t index m =
     and_then (get_entry t index m) (\<lambda>entry.
     if is_present entry then Inr (entry_frame entry, m)
     else and_then (alloc_page m) (\<lambda>(frame, m1).
       let m2 = m1\<lparr>tabs := PageTable_zero (tabs m1) frame\<rparr>;
           flags = (if user then with_user_accessible (with_writable (with_present 0)) else with_writable (with_present 0));
           entry' = new_page frame flags in
       and_then (set_entry t index entry' m2) (\<lambda>m3. Inr (entry_frame entry', m3))))"

text \<open>\<open>map_page\<close>, with its debug assertion that the address lies in the user half.\<close>

definition as_map_page :: "u64 \<Rightarrow> u64 \<Rightarrow> u64 \<Rightarrow> u64 \<Rightarrow> 'f mm \<Rightarrow> panic + 'f mm" where
  "as_map_page pml4 virt pa flags m =
     (if USER_PML4_ENTRIES \<le> pml4_index virt then Inl Assertion else
      and_then (ensure_next_table True pml4 (pml4_index virt) m) (\<lambda>(pdpt, m1).
      and_then (ensure_next_table True pdpt (pdpt_index virt) m1) (\<lambda>(pd, m2).
      and_then (ensure_next_table True pd (pd_index virt) m2) (\<lambda>(pt, m3).
      set_entry pt (pt_index virt) (new_page pa flags) m3))))"

text \<open>\<open>leaf_entry_mut\<close>: the slot of the leaf entry, as table and index.\<close>

definition leaf_entry_mut :: "u64 \<Rightarrow> u64 \<Rightarrow> pt_mem \<Rightarrow> (u64 \<times> nat) option" where
  "leaf_entry_mut pml4 virt T =
     (let pml4e = T pml4 (pml4_index virt) in
      if \<not> is_present pml4e \<or> USER_PML4_ENTRIES \<le> pml4_index virt then None else
      let pdpte = T (entry_frame pml4e) (pdpt_index virt) in
      if \<not> is_present pdpte \<or> is_huge_page pdpte then None else
      let pde = T (entry_frame pdpte) (pd_index virt) in
      if \<not> is_present pde \<or> is_huge_page pde then None else
      Some (entry_frame pde, pt_index virt))"

section \<open>Building an address space\<close>

definition copy_kernel_half :: "u64 \<Rightarrow> u64 \<Rightarrow> 'f mm \<Rightarrow> panic + 'f mm" where
  "copy_kernel_half src dst = for_each (\<lambda>index m. and_then (get_entry src index m) (\<lambda>e. set_entry dst index e m)) [USER_PML4_ENTRIES..<512]"

definition AddressSpace_new :: "'f mm \<Rightarrow> panic + AddressSpace \<times> 'f mm" where
  "AddressSpace_new m =
     and_then (alloc_page m) (\<lambda>(pml4, m1).
     and_then (copy_kernel_half (cur_pml4 m1) pml4 (m1\<lparr>tabs := PageTable_zero (tabs m1) pml4\<rparr>)) (\<lambda>m2.
     let A = \<lparr>pml4_phys = pml4, as_pcid = 0, vmas = replicate MAX_VMAS None, mmap_next = MMAP_BASE, as_refcount = 1, active_cpus = 0\<rparr> in
     if pcide m2
     then (case pcid_alloc (pcids m2) of
             None \<Rightarrow> Inl Assertion
           | Some (p, ps) \<Rightarrow> Inr (A\<lparr>as_pcid := pcid_id p\<rparr>, m2\<lparr>pcids := ps\<rparr>))
     else Inr (A, m2)))"

definition as_inc_ref :: "AddressSpace \<Rightarrow> AddressSpace" where
  "as_inc_ref A = A\<lparr>as_refcount := as_refcount A + 1\<rparr>"

definition as_dec_ref :: "AddressSpace \<Rightarrow> bool \<times> AddressSpace" where
  "as_dec_ref A = (as_refcount A = 1, A\<lparr>as_refcount := as_refcount A - 1\<rparr>)"

definition zero_page :: "u8 list" where
  "zero_page = replicate PAGE_SIZE 0"

text \<open>A freshly allocated frame with the given bytes at its start and zeros after them, mapped at \<open>virt\<close>.\<close>

definition map_fresh :: "u64 \<Rightarrow> u8 list \<Rightarrow> u64 \<Rightarrow> u64 \<Rightarrow> 'f mm \<Rightarrow> panic + 'f mm" where
  "map_fresh virt bytes flags pml4 m =
     and_then (alloc_page m) (\<lambda>(frame, m1).
     as_map_page pml4 virt frame flags
       (m1\<lparr>frame_bytes := (frame_bytes m1)(frame := bytes @ drop (length bytes) zero_page)\<rparr>))"

definition user_flags_from_elf :: "u32 \<Rightarrow> u64" where
  "user_flags_from_elf elf_flags =
     (let flags = with_user_accessible (with_present 0);
          flags = (if elf_flags AND PF_W \<noteq> 0 then with_writable flags else flags)
      in if elf_flags AND PF_X = 0 then with_no_execute flags else flags)"

definition align_up :: "nat \<Rightarrow> nat \<Rightarrow> panic + nat" where
  "align_up x a = and_then (add_u64 x a) (\<lambda>y. Inr ((y - 1) - (y - 1) mod a))"

text \<open>The bytes of the file that the page at offset \<open>page_start\<close> of a segment holds.\<close>

definition segment_bytes :: "LoadSegment \<Rightarrow> u8 list \<Rightarrow> nat \<Rightarrow> panic + u8 list" where
  "segment_bytes seg elf_data page_start =
     (if page_start < seg_filesz seg
      then slice elf_data (seg_data_off seg + page_start) (min PAGE_SIZE (seg_filesz seg - page_start))
      else Inr [])"

definition map_segment :: "LoadSegment \<Rightarrow> u8 list \<Rightarrow> u64 \<Rightarrow> 'f mm \<Rightarrow> panic + 'f mm" where
  "map_segment seg elf_data pml4 m =
     and_then (align_up (min (2 ^ 64 - 1) (seg_vaddr seg + seg_memsz seg)) PAGE_SIZE) (\<lambda>map_end.
     for_each (\<lambda>k m'. and_then (segment_bytes seg elf_data (k * PAGE_SIZE)) (\<lambda>bytes.
         map_fresh (of_nat (seg_vaddr seg + k * PAGE_SIZE)) bytes (user_flags_from_elf (seg_flags seg)) pml4 m'))
       [0..<(map_end - seg_vaddr seg + PAGE_SIZE - 1) div PAGE_SIZE] m)"

definition map_user_stack :: "u64 \<Rightarrow> 'f mm \<Rightarrow> panic + 'f mm" where
  "map_user_stack pml4 =
     for_each (\<lambda>page. map_fresh (USTACK_TOP - USTACK_SIZE + of_nat (page * PAGE_SIZE)) []
         (with_no_execute (with_user_accessible (with_writable (with_present 0)))) pml4) [0..<USTACK_PAGES]"

definition map_sigreturn_trampoline :: "u64 \<Rightarrow> 'f mm \<Rightarrow> panic + 'f mm" where
  "map_sigreturn_trampoline =
     map_fresh SIGRETURN_TRAMPOLINE_VA SIGRETURN_TRAMPOLINE_CODE (with_user_accessible (with_present 0))"

text \<open>\<open>alloc_shared\<close>: the frame the structure itself is moved to.\<close>

definition alloc_shared :: "'f mm \<Rightarrow> panic + u64 \<times> 'f mm" where
  "alloc_shared m = alloc_page m"

text \<open>The address space that \<open>Process::create\<close> builds, and the frame it is kept on.\<close>

definition create_image :: "ElfInfo \<Rightarrow> u8 list \<Rightarrow> 'f mm \<Rightarrow> panic + AddressSpace \<times> u64 \<times> 'f mm" where
  "create_image elf elf_data m =
     and_then (AddressSpace_new m) (\<lambda>(A, m1).
     and_then (for_each (\<lambda>seg. map_segment seg elf_data (pml4_phys A)) (elf_segments elf) m1) (\<lambda>m2.
     and_then (map_user_stack (pml4_phys A) m2) (\<lambda>m3.
     and_then (map_sigreturn_trampoline (pml4_phys A) m3) (\<lambda>m4.
     and_then (alloc_shared m4) (\<lambda>(ptr, m5). Inr (A, ptr, m5))))))"

section \<open>Page faults\<close>

definition cow_writable_flags :: "u64 \<Rightarrow> u64" where
  "cow_writable_flags flags = without_cow (with_writable flags)"

definition cow_readonly_flags :: "u64 \<Rightarrow> u64" where
  "cow_readonly_flags flags = with_cow (without_writable flags)"

definition resolve_cow_fault :: "u64 \<Rightarrow> AddressSpace \<Rightarrow> 'f mm \<Rightarrow> panic + bool \<times> 'f mm" where
  "resolve_cow_fault addr A m =
     (let page = addr AND NOT 4095 in
      case leaf_entry_mut (pml4_phys A) page (tabs m) of
        None \<Rightarrow> Inr (False, m)
      | Some (pt, i) \<Rightarrow>
          and_then (get_entry pt i m) (\<lambda>old.
          if \<not> is_present old \<or> \<not> is_cow old then Inr (False, m)
          else
            let old_frame = entry_frame old;
                new_flags = cow_writable_flags (entry_flags old);
                (sole, T) = cow_release old_frame (cowt m);
                m1 = m\<lparr>cowt := T\<rparr> in
            and_then
              (if sole then set_entry pt i (with_flags old new_flags) m1
               else and_then (alloc_page m1) (\<lambda>(new_frame, m2).
                 set_entry pt i (new_page new_frame new_flags)
                   (m2\<lparr>frame_bytes := (frame_bytes m2)(new_frame := frame_bytes m2 old_frame)\<rparr>)))
              (\<lambda>m3. Inr (True, shootdown (active_cpus A) page m3))))"

text \<open>Frame, whether it is mapped writable, and whether it is marked copy-on-write; \<open>None\<close> is a read error of the file.\<close>

definition fault_frame :: "'f fs_hooks \<Rightarrow> Vma \<Rightarrow> u64 \<Rightarrow> 'f mm \<Rightarrow> panic + (u64 \<times> bool \<times> bool) option \<times> 'f mm" where
  "fault_frame hk v page m =
     (case backing v of
        Anonymous \<Rightarrow>
          and_then (alloc_page m) (\<lambda>(frame, m1).
          Inr (Some (frame, True, False), m1\<lparr>frame_bytes := (frame_bytes m1)(frame := zero_page)\<rparr>))
      | File vn off shared \<Rightarrow>
          if vn < DIRECT_MAP_BASE then Inl Assertion
          else
            let file_off = off + (page - vma_start v);
                (r, m1) = page_cache_get_or_fill hk vn file_off m in
            case r of
              None \<Rightarrow> Inr (None, m1)
            | Some frame \<Rightarrow>
                if shared
                then let writable = flags_writable (vma_flags v) in
                  Inr (Some (frame, writable, False), if writable then page_cache_mark_dirty hk vn file_off m1 else m1)
                else Inr (Some (frame, False, True), m1\<lparr>cowt := cow_share frame (cowt m1)\<rparr>))"

definition resolve_file_fault :: "'f fs_hooks \<Rightarrow> u64 \<Rightarrow> AddressSpace \<Rightarrow> 'f mm \<Rightarrow> panic + bool \<times> 'f mm" where
  "resolve_file_fault hk addr A m =
     (let page = addr AND NOT 4095 in
      case find_vma page A of
        None \<Rightarrow> Inr (False, m)
      | Some v \<Rightarrow>
          and_then (fault_frame hk v page m) (\<lambda>(r, m1).
          case r of
            None \<Rightarrow> Inr (False, m1)
          | Some (frame, writable_now, mark_cow) \<Rightarrow>
              let flags = (if writable_now then with_writable (vma_flags v) else without_writable (vma_flags v));
                  flags = (if mark_cow then with_cow flags else flags) in
              and_then (as_map_page (pml4_phys A) page frame flags m1) (\<lambda>m2.
              Inr (True, shootdown (active_cpus A) page m2))))"

text \<open>The error code of a page fault and what the handler does with the fault.\<close>

record fault_code =
  pf_present :: bool
  pf_write :: bool
  pf_user :: bool

datatype pf_outcome = Resolved | Sigsegv | Kernel_panic

definition pf_handler :: "'f fs_hooks \<Rightarrow> fault_code \<Rightarrow> u64 \<Rightarrow> AddressSpace \<Rightarrow> 'f mm \<Rightarrow> panic + pf_outcome \<times> 'f mm" where
  "pf_handler hk code addr A m =
     and_then
       (if pf_present code \<and> pf_write code then resolve_cow_fault addr A m
        else if \<not> pf_present code then resolve_file_fault hk addr A m
        else Inr (False, m))
       (\<lambda>(resolved, m1). Inr (if resolved then Resolved else if pf_user code then Sigsegv else Kernel_panic, m1))"

section \<open>Fork\<close>

definition shared_at :: "AddressSpace \<Rightarrow> u64 \<Rightarrow> bool" where
  "shared_at A virt \<longleftrightarrow> (case find_vma virt A of
     Some v \<Rightarrow> (case backing v of File _ _ shared \<Rightarrow> shared | Anonymous \<Rightarrow> False)
   | None \<Rightarrow> False)"

definition index_virt :: "nat \<Rightarrow> nat \<Rightarrow> nat \<Rightarrow> nat \<Rightarrow> u64" where
  "index_virt i j k l = push_bit 39 (of_nat i) OR push_bit 30 (of_nat j) OR push_bit 21 (of_nat k) OR push_bit 12 (of_nat l)"

text \<open>The body of the innermost of the four loops of \<open>clone_user_half_cow\<close>, for one entry of a page table.\<close>

definition clone_leaf :: "AddressSpace \<Rightarrow> u64 \<Rightarrow> u64 \<Rightarrow> u64 \<Rightarrow> nat \<Rightarrow> 'f mm \<Rightarrow> panic + 'f mm" where
  "clone_leaf A child virt pt pt_idx m =
     and_then (get_entry pt pt_idx m) (\<lambda>entry.
     if \<not> is_present entry then Inr m
     else if shared_at A virt then as_map_page child virt (entry_frame entry) (entry_flags entry) m
     else
       let cow_flags = cow_readonly_flags (entry_flags entry) in
       and_then (set_entry pt pt_idx (with_flags entry cow_flags) m) (\<lambda>m1.
       and_then (as_map_page child virt (entry_frame entry) cow_flags
                   (m1\<lparr>cowt := cow_share (entry_frame entry) (cowt m1)\<rparr>)) (\<lambda>m2.
       Inr (shootdown (active_cpus A) virt m2))))"

definition clone_pt :: "AddressSpace \<Rightarrow> u64 \<Rightarrow> nat \<Rightarrow> nat \<Rightarrow> nat \<Rightarrow> u64 \<Rightarrow> 'f mm \<Rightarrow> panic + 'f mm" where
  "clone_pt A child i j k pt = for_each (\<lambda>l. clone_leaf A child (index_virt i j k l) pt l) [0..<512]"

definition clone_pd :: "AddressSpace \<Rightarrow> u64 \<Rightarrow> nat \<Rightarrow> nat \<Rightarrow> u64 \<Rightarrow> 'f mm \<Rightarrow> panic + 'f mm" where
  "clone_pd A child i j pd =
     for_each (\<lambda>k m. and_then (get_entry pd k m) (\<lambda>pde.
       if \<not> is_present pde \<or> is_huge_page pde then Inr m else clone_pt A child i j k (entry_frame pde) m)) [0..<512]"

definition clone_pdpt :: "AddressSpace \<Rightarrow> u64 \<Rightarrow> nat \<Rightarrow> u64 \<Rightarrow> 'f mm \<Rightarrow> panic + 'f mm" where
  "clone_pdpt A child i pdpt =
     for_each (\<lambda>j m. and_then (get_entry pdpt j m) (\<lambda>pdpte.
       if \<not> is_present pdpte \<or> is_huge_page pdpte then Inr m else clone_pd A child i j (entry_frame pdpte) m)) [0..<512]"

definition clone_user_half_cow :: "AddressSpace \<Rightarrow> u64 \<Rightarrow> 'f mm \<Rightarrow> panic + 'f mm" where
  "clone_user_half_cow A child =
     for_each (\<lambda>i m. and_then (get_entry (pml4_phys A) i m) (\<lambda>pml4e.
       if \<not> is_present pml4e then Inr m else clone_pdpt A child i (entry_frame pml4e) m)) [0..<USER_PML4_ENTRIES]"

definition fork_cow :: "AddressSpace \<Rightarrow> 'f mm \<Rightarrow> panic + AddressSpace \<times> 'f mm" where
  "fork_cow A m =
     and_then (AddressSpace_new m) (\<lambda>(C, m1).
     and_then (clone_user_half_cow A (pml4_phys C) m1) (\<lambda>m2.
     Inr (C\<lparr>vmas := vmas A, mmap_next := mmap_next A\<rparr>, m2)))"

section \<open>Unmapping and tear-down\<close>

text \<open>Giving up one mapping of a frame: a copy-on-write frame is freed by its last claimant only.\<close>

definition release_leaf :: "u64 \<Rightarrow> 'f mm \<Rightarrow> panic + 'f mm" where
  "release_leaf old m =
     (if is_cow old
      then let (sole, T) = cow_release (entry_frame old) (cowt m) in
        if sole then free_page (entry_frame old) (m\<lparr>cowt := T\<rparr>) else Inr (m\<lparr>cowt := T\<rparr>)
      else free_page (entry_frame old) m)"

text \<open>The body of the loops of \<open>unmap_pages\<close> and \<open>unmap_file_pages\<close>; a shared file page stays with the cache.\<close>

definition unmap_page :: "AddressSpace \<Rightarrow> bool \<Rightarrow> u64 \<Rightarrow> 'f mm \<Rightarrow> panic + 'f mm" where
  "unmap_page A keep page m =
     (case leaf_entry_mut (pml4_phys A) page (tabs m) of
        None \<Rightarrow> Inr m
      | Some (pt, i) \<Rightarrow>
          and_then (get_entry pt i m) (\<lambda>old.
          if \<not> is_present old then Inr m
          else and_then (set_entry pt i 0 m) (\<lambda>m1.
               and_then (if keep then Inr m1 else release_leaf old m1) (\<lambda>m2.
               Inr (shootdown (active_cpus A) page m2)))))"

text \<open>The pages that a loop from \<open>start\<close> visits while it is below \<open>ed\<close>.\<close>

definition page_range :: "u64 \<Rightarrow> u64 \<Rightarrow> u64 list" where
  "page_range start ed = map (\<lambda>k. start + of_nat (k * PAGE_SIZE)) [0..<(unat ed - unat start + PAGE_SIZE - 1) div PAGE_SIZE]"

definition unmap_pages :: "AddressSpace \<Rightarrow> u64 \<Rightarrow> u64 \<Rightarrow> 'f mm \<Rightarrow> panic + 'f mm" where
  "unmap_pages A start ed = for_each (unmap_page A False) (page_range start ed)"

definition unmap_file_pages :: "AddressSpace \<Rightarrow> u64 \<Rightarrow> u64 \<Rightarrow> bool \<Rightarrow> 'f mm \<Rightarrow> panic + 'f mm" where
  "unmap_file_pages A start ed shared = for_each (unmap_page A shared) (page_range start ed)"

definition as_munmap :: "'f fs_hooks \<Rightarrow> u64 \<Rightarrow> u64 \<Rightarrow> AddressSpace \<Rightarrow> 'f mm \<Rightarrow> panic + bool \<times> AddressSpace \<times> 'f mm" where
  "as_munmap hk addr len A m =
     (case checked_add_u64 addr len of
        None \<Rightarrow> Inr (False, A, m)
      | Some ed \<Rightarrow>
          (case slot_of (\<lambda>v. vma_start v = addr \<and> vma_end v = ed) (vmas A) of
             None \<Rightarrow> Inr (False, A, m)
           | Some slot \<Rightarrow>
               (case vmas A ! slot of
                  None \<Rightarrow> Inl Assertion
                | Some v \<Rightarrow>
                    and_then
                      (case backing v of
                         Anonymous \<Rightarrow> unmap_pages A addr ed m
                       | File vn _ shared \<Rightarrow>
                           and_then (unmap_file_pages A addr ed shared (if shared then page_cache_writeback hk vn m else m)) (\<lambda>m1.
                           Inr (hook_vnode_dec_ref hk vn m1)))
                      (\<lambda>m2. Inr (True, A\<lparr>vmas := (vmas A)[slot := None]\<rparr>, m2)))))"

definition sys_munmap :: "'f fs_hooks \<Rightarrow> u64 \<Rightarrow> u64 \<Rightarrow> AddressSpace \<Rightarrow> 'f mm \<Rightarrow> panic + int \<times> AddressSpace \<times> 'f mm" where
  "sys_munmap hk addr nbytes A m =
     (if addr = 0 \<or> nbytes = 0 \<or> addr AND 4095 \<noteq> 0 then Inr (VMA_EINVAL, A, m)
      else case align_up_page nbytes of
        None \<Rightarrow> Inr (VMA_EINVAL, A, m)
      | Some len \<Rightarrow>
          if len = 0 then Inr (VMA_EINVAL, A, m)
          else and_then (as_munmap hk addr len A m) (\<lambda>(ok, A', m'). Inr (if ok then 0 else VMA_EINVAL, A', m')))"

text \<open>\<open>free_table\<close> for a table with \<open>level\<close> levels of entries below and including its own; level 0 is never reached.\<close>

primrec free_table :: "nat \<Rightarrow> u64 \<Rightarrow> 'f mm \<Rightarrow> panic + 'f mm" where
  "free_table 0 t m = Inl Assertion"
| "free_table (Suc level) t m =
     and_then (for_each (\<lambda>index m'. and_then (get_entry t index m') (\<lambda>entry.
         if \<not> is_present entry then Inr m'
         else if level = 0 \<or> is_huge_page entry then release_leaf entry m'
         else free_table level (entry_frame entry) m')) [0..<512] m)
       (free_page t)"

definition free_user_half :: "u64 \<Rightarrow> 'f mm \<Rightarrow> panic + 'f mm" where
  "free_user_half pml4 =
     for_each (\<lambda>index m. and_then (get_entry pml4 index m) (\<lambda>entry.
       if \<not> is_present entry then Inr m
       else and_then (free_table 3 (entry_frame entry) m) (set_entry pml4 index 0))) [0..<USER_PML4_ENTRIES]"

text \<open>\<open>own\<close> is the frame \<open>alloc_shared\<close> put the structure on.\<close>

definition as_drop_ref :: "u64 \<Rightarrow> AddressSpace \<Rightarrow> 'f mm \<Rightarrow> panic + bool \<times> AddressSpace \<times> 'f mm" where
  "as_drop_ref own A m =
     (let (is_last, A') = as_dec_ref A in
      if \<not> is_last then Inr (False, A', m)
      else and_then (free_user_half (pml4_phys A) m) (\<lambda>m1.
           and_then (free_page (pml4_phys A) m1) (\<lambda>m2.
           and_then (free_page own (m2\<lparr>pcids := pcid_free \<lparr>pcid_id = as_pcid A, pcid_generation = 0\<rparr> (pcids m2)\<rparr>)) (\<lambda>m3.
           Inr (True, A', m3)))))"

section \<open>Three levels of tables\<close>

definition walk3 :: "'s frame_alloc \<Rightarrow> u64 \<Rightarrow> u64 \<Rightarrow> nat list \<Rightarrow> pt_mem \<times> 's \<Rightarrow> panic + (u64 \<times> pt_mem \<times> 's)" where
  "walk3 al fl root q st =
     and_then (ensure_table al fl root (q ! 0) st) (\<lambda>(t1, st1).
     and_then (ensure_table al fl t1 (q ! 1) st1) (\<lambda>(t2, st2).
     ensure_table al fl t2 (q ! 2) st2))"

context frame_source
begin

lemma walk3_spec:
  assumes ok: "tables_ok D root own H n (mem, s)" and q: "proper D q"
    and small: "leaf_below 21 (resolve mem root q)" and fl: "table_flags fl"
  shows "walk3 al fl root q (mem, s) = Inl OOM \<and> n < 3 \<or>
    (\<exists>t mem' s'. walk3 al fl root q (mem, s) = Inr (t, mem', s') \<and> extends D root own 3 n H mem (mem', s') \<and> reach mem' root q 3 t)"
proof -
  have sm: "leaf_below (12 + 9 * (3 - 0)) (resolve mem root q)" "leaf_below (12 + 9 * (3 - 1)) (resolve mem root q)"
    "leaf_below (12 + 9 * (3 - 2)) (resolve mem root q)"
    by (rule leaf_below_mono[OF small]; simp)+
  have "reach mem root q 0 root" by simp
  from ensure_table_next[OF extends_refl[OF ok] q _ this sm(1) fl]
  consider "ensure_table al fl root (q ! 0) (mem, s) = Inl OOM" "n \<le> 0"
    | t1 mem1 s1 where "ensure_table al fl root (q ! 0) (mem, s) = Inr (t1, mem1, s1)" "extends D root own 1 n H mem (mem1, s1)" "reach mem1 root q 1 t1"
    by auto
  then show ?thesis
  proof cases
    case 1
    then show ?thesis by (simp add: walk3_def)
  next
    case l1: 2
    from ensure_table_next[OF l1(2) q _ l1(3) sm(2) fl]
    consider "ensure_table al fl t1 (q ! 1) (mem1, s1) = Inl OOM" "n \<le> 1"
      | t2 mem2 s2 where "ensure_table al fl t1 (q ! 1) (mem1, s1) = Inr (t2, mem2, s2)" "extends D root own 2 n H mem (mem2, s2)" "reach mem2 root q 2 t2"
      by (auto simp: numeral_2_eq_2)
    then show ?thesis
    proof cases
      case 1
      then show ?thesis using l1(1) by (simp add: walk3_def)
    next
      case l2: 2
      have "(2 :: nat) < 3" by simp
      from ensure_table_next[OF l2(2) q this l2(3) sm(3) fl] l1(1) l2(1) show ?thesis
        by (auto simp: walk3_def numeral_3_eq_3)
    qed
  qed
qed

end

section \<open>A forest of user page tables\<close>

text \<open>
  The address spaces alive are known by their top-level tables \<open>R\<close>; \<open>own r\<close> gives for each
  table frame of address space \<open>r\<close> the indices that lead to it, \<open>H\<close> are the frames handed
  out, \<open>n\<close> is the number of frames left.  Only the user half of a top-level table is private.
\<close>

abbreviation user :: "nat set" where
  "user \<equiv> {..<USER_PML4_ENTRIES}"

definition leaf :: "'f mm \<Rightarrow> u64 \<Rightarrow> nat list \<Rightarrow> u64 option" where
  "leaf m r q = map_option fst (resolve (tabs m) r q)"

definition small_pages :: "pt_mem \<Rightarrow> u64 \<Rightarrow> bool" where
  "small_pages T r \<longleftrightarrow> (\<forall>q e k. proper user q \<longrightarrow> resolve T r q = Some (e, k) \<longrightarrow> k = 12)"

definition forest :: "u64 set \<Rightarrow> (u64 \<Rightarrow> u64 \<rightharpoonup> nat list) \<Rightarrow> u64 set \<Rightarrow> nat \<Rightarrow> 'f mm \<Rightarrow> bool" where
  "forest R own H n m \<longleftrightarrow> finite R \<and> kernel_inv H n (galc m) \<and>
     (\<forall>r \<in> R. tree user (tabs m) r (own r) \<and> dom (own r) \<subseteq> H \<and> small_pages (tabs m) r) \<and>
     (\<forall>r \<in> R. \<forall>s \<in> R. r \<noteq> s \<longrightarrow> dom (own r) \<inter> dom (own s) = {})"

definition table_frames :: "u64 set \<Rightarrow> (u64 \<Rightarrow> u64 \<rightharpoonup> nat list) \<Rightarrow> u64 set" where
  "table_frames R own = (\<Union>r \<in> R. dom (own r))"

text \<open>Nothing but the memory of the tables and the allocator differs.\<close>

definition same_but_tables :: "'f mm \<Rightarrow> 'f mm \<Rightarrow> bool" where
  "same_but_tables m m' \<longleftrightarrow> m' = m\<lparr>tabs := tabs m', galc := galc m'\<rparr>"

lemma tree_cong:
  assumes tr: "tree D mem root own" and eq: "\<And>t. t \<in> dom own \<Longrightarrow> mem' t = mem t"
  shows "tree D mem' root own" "proper D q \<Longrightarrow> resolve mem' root q = resolve mem root q"
proof -
  have e: "own t = Some p \<Longrightarrow> mem' t = mem t" for t p using eq by auto
  show "tree D mem' root own" using tr e unfolding tree_def by metis
  show "resolve mem' root q = resolve mem root q" if "proper D q"
    by (rule resolve_cong[OF tr, of _ "[]"]) (use tr that e in \<open>auto simp: tree_def\<close>)
qed

lemma user_table_flags: "table_flags (with_user_accessible (with_writable (with_present 0)))"
  by (simp add: table_flags_def flags_ok_def with_user_accessible_def with_writable_def with_present_def USER_ACCESSIBLE_def WRITABLE_def PRESENT_def
      entry_flags_def bit_simps)

lemma ensure_next_table_eq:
  "ensure_next_table True t i m =
     (case ensure_table kernel_alloc (with_user_accessible (with_writable (with_present 0))) t i (tabs m, galc m) of
        Inl e \<Rightarrow> Inl e
      | Inr (t', T, g) \<Rightarrow> Inr (t', m\<lparr>tabs := T, galc := g\<rparr>))"
  unfolding ensure_next_table_def ensure_table_def get_entry_def set_entry_def alloc_page_def
  by (cases "PageTable_get (tabs m) t i"; cases "kernel_alloc (galc m)")
     (auto simp: Let_def PageTable_set_def PageTable_get_def split: if_splits)

lemma as_map_page_eq:
  assumes "pml4_index v < USER_PML4_ENTRIES"
  shows "as_map_page r v pa flags m =
    (case walk3 kernel_alloc (with_user_accessible (with_writable (with_present 0))) r (path v) (tabs m, galc m) of
       Inl e \<Rightarrow> Inl e
     | Inr (t, T, g) \<Rightarrow> Inr (m\<lparr>tabs := T(t := (T t)(pt_index v := new_page pa flags)), galc := g\<rparr>))"
  using assms unfolding as_map_page_def walk3_def ensure_next_table_eq path_def
  by (auto simp: and_then_def set_entry_def numeral_eq_Suc split: sum.split prod.split)

lemma forestD:
  assumes "forest R own H n m" "r \<in> R"
  shows "kernel_inv H n (galc m)" "tree user (tabs m) r (own r)" "dom (own r) \<subseteq> H" "small_pages (tabs m) r" "finite R"
    "s \<in> R \<Longrightarrow> r \<noteq> s \<Longrightarrow> dom (own r) \<inter> dom (own s) = {}"
  using assms unfolding forest_def by blast+

lemma user_path: "pml4_index v < USER_PML4_ENTRIES \<Longrightarrow> proper user (path v)"
  by (simp add: path_proper)

lemma take_4: "proper D q \<Longrightarrow> take 4 q = q"
  by (simp add: proper_def)

lemma small_below: "small_pages T r \<Longrightarrow> proper user q \<Longrightarrow> leaf_below 21 (resolve T r q)"
  unfolding small_pages_def leaf_below_def by (force split: option.split)

text \<open>A tree grows; every other tree stays as it is.\<close>

lemma forest_grow:
  assumes f: "forest R own H n m" and r: "r \<in> R"
    and g: "grown (own r) H (tabs m) o1 H1 T" and t: "tree user T r o1" "kernel_inv H1 n1 g1" "small_pages T r"
  shows "forest R (own(r := o1)) H1 n1 (m\<lparr>tabs := T, galc := g1\<rparr>)"
    and "s \<in> R \<Longrightarrow> s \<noteq> r \<Longrightarrow> proper user q \<Longrightarrow> resolve T s q = resolve (tabs m) s q"
    and "table_frames R (own(r := o1)) \<inter> H \<subseteq> table_frames R own"
proof -
  have gg: "dom (own r) \<subseteq> dom o1" "H1 = H \<union> dom o1" "dom o1 \<inter> H \<subseteq> dom (own r)" "\<And>t. t \<in> H - dom (own r) \<Longrightarrow> T t = tabs m t"
    using g unfolding grown_def by blast+
  note F = forestD[OF f]
  have same: "T t = tabs m t" if "s \<in> R" "s \<noteq> r" "t \<in> dom (own s)" for s t
    using gg(4)[of t] F(3)[OF that(1)] F(6)[OF r that(1)] that by blast
  note c = tree_cong[OF F(2) same]
  show res: "resolve T s q = resolve (tabs m) s q" if "s \<in> R" "s \<noteq> r" "proper user q" for s q
    using c(2)[OF that(1) that(1,2) _ that(3)] by blast
  have "tree user T s ((own(r := o1)) s) \<and> dom ((own(r := o1)) s) \<subseteq> H1 \<and> small_pages T s" if s: "s \<in> R" for s
  proof (cases "s = r")
    case True
    then show ?thesis using t gg(2) by auto
  next
    case False
    have "tree user T s (own s)" using c(1)[OF s s False] by blast
    moreover have "small_pages T s" using F(4)[OF s] res[OF s False] unfolding small_pages_def by metis
    ultimately show ?thesis using False F(3)[OF s] gg(2) by auto
  qed
  moreover have "dom ((own(r := o1)) s) \<inter> dom ((own(r := o1)) s') = {}" if "s \<in> R" "s' \<in> R" "s \<noteq> s'" for s s'
  proof -
    have "dom o1 \<inter> dom (own x) = {}" if "x \<in> R" "x \<noteq> r" for x
      using gg(3) F(3)[OF that(1)] F(6)[OF r that(1)] that(2) by blast
    then show ?thesis using that F(6)[OF that(1,2,3)] by (auto simp: fun_upd_def Int_commute)
  qed
  ultimately show "forest R (own(r := o1)) H1 n1 (m\<lparr>tabs := T, galc := g1\<rparr>)"
    using f t(2) unfolding forest_def by auto
  show "table_frames R (own(r := o1)) \<inter> H \<subseteq> table_frames R own"
  proof
    fix x assume "x \<in> table_frames R (own(r := o1)) \<inter> H"
    then obtain s where s: "s \<in> R" "x \<in> dom ((own(r := o1)) s)" "x \<in> H" unfolding table_frames_def by blast
    then have "x \<in> dom (own s)" using gg(3) by (cases "s = r") auto
    then show "x \<in> table_frames R own" using s(1) unfolding table_frames_def by blast
  qed
qed

lemma as_map_page_spec:
  assumes f: "forest R own H n m" and r: "r \<in> R" and v: "pml4_index v < USER_PML4_ENTRIES" and e: "is_present (new_page pa flags)"
  shows "as_map_page r v pa flags m = Inl OOM \<and> n < 3 \<or>
    (\<exists>m' own' H' n'. as_map_page r v pa flags m = Inr m' \<and> forest R own' H' n' m' \<and> n \<le> n' + 3 \<and> H \<subseteq> H' \<and>
       table_frames R own' \<inter> H \<subseteq> table_frames R own \<and> same_but_tables m m' \<and>
       (\<forall>s \<in> R. \<forall>q. proper user q \<longrightarrow> leaf m' s q = (if s = r \<and> q = path v then Some (new_page pa flags) else leaf m s q)))"
proof -
  note F = forestD[OF f r]
  note p = user_path[OF v]
  have ok: "kernel.tables_ok user r (own r) H n (tabs m, galc m)" using F by (simp add: kernel.tables_ok_def)
  from kernel.walk3_spec[OF ok p small_below[OF F(4) p] user_table_flags] show ?thesis
  proof (elim disjE exE conjE)
    fix t :: u64 and T :: pt_mem and g :: galloc
    let ?T = "T(t := (T t)(pt_index v := new_page pa flags))"
    assume w: "walk3 kernel_alloc (with_user_accessible (with_writable (with_present 0))) r (path v) (tabs m, galc m) = Inr (t, T, g)"
      "kernel.extends user r (own r) 3 n H (tabs m) (T, g)" "reach T r (path v) 3 t"
    have pi: "path v ! 3 = pt_index v" by (simp add: path_def)
    have "kernel.maps user r (own r) H 3 n (tabs m) (path v) (Suc 3) (new_page pa flags) (?T, g)"
      using kernel.write_leaf[OF w(2) p _ w(3) e] pi by simp
    then obtain o1 H1 n1 where mp: "kernel.tables_ok user r o1 H1 n1 (?T, g)" "n \<le> n1 + 3" "grown (own r) H (tabs m) o1 H1 ?T"
      and rs: "\<And>q'. proper user q' \<Longrightarrow> resolve ?T r q' = (if take 4 q' = take 4 (path v) then Some (new_page pa flags, 12) else resolve (tabs m) r q')"
      unfolding kernel.maps_def by (auto simp: numeral_eq_Suc)
    have rs': "resolve ?T r q' = (if q' = path v then Some (new_page pa flags, 12) else resolve (tabs m) r q')" if "proper user q'" for q'
      using rs[OF that] take_4[OF that] take_4[OF p] by simp
    have sp: "small_pages ?T r" using F(4) rs' unfolding small_pages_def by (auto split: if_splits)
    have tr: "tree user ?T r o1" "kernel_inv H1 n1 g" using mp(1) by (auto simp: kernel.tables_ok_def)
    let ?m = "m\<lparr>tabs := ?T, galc := g\<rparr>"
    note fg = forest_grow[OF f r mp(3) tr sp]
    have "leaf ?m s q = (if s = r \<and> q = path v then Some (new_page pa flags) else leaf m s q)" if "s \<in> R" "proper user q" for s q
      using rs'[OF that(2)] fg(2)[OF that(1) _ that(2)] by (cases "s = r") (auto simp: leaf_def)
    moreover have "H \<subseteq> H1" using mp(3) by (auto simp: grown_def)
    moreover have "as_map_page r v pa flags m = Inr ?m" using w(1) by (simp add: as_map_page_eq[OF v])
    ultimately show ?thesis using fg(1,3) mp(2)
      by (intro disjI2 exI[of _ ?m] exI[of _ "own(r := o1)"] exI[of _ H1] exI[of _ n1]) (simp add: same_but_tables_def)
  qed (simp add: as_map_page_eq[OF v])
qed

section \<open>Reading and writing leaf entries\<close>

lemma leaf_table_write:
  assumes tr: "tree D mem root own" and o: "own t = Some p" "length p = 3"
  shows "tree D (mem(t := f)) root own"
    and "proper D q \<Longrightarrow> k < 4 \<Longrightarrow> reach (mem(t := f)) root q k u \<longleftrightarrow> reach mem root q k u"
proof -
  show tr': "tree D (mem(t := f)) root own"
    unfolding tree_def
  proof (intro conjI allI impI)
    show "own root = Some []" using tr by (simp add: tree_def)
    fix t' p' i "is"
    assume a: "own t' = Some p'" "length (p' @ i # is) = 4" "i < 512" "p' = [] \<longrightarrow> i \<in> D" "is \<noteq> []"
      "is_present ((mem(t := f)) t' i)" "\<not> huge_leaf is ((mem(t := f)) t' i)"
    have "length is \<noteq> 0" using a(5) by simp
    then have "t' \<noteq> t" using a(1,2) o by auto
    then show "own (entry_frame ((mem(t := f)) t' i)) = Some (p' @ [i])" using tr a unfolding tree_def by (metis (no_types, lifting) fun_upd_other)
  qed
  have ne: "t' \<noteq> t" if "proper D q" "k < 4" "j < k" "own t' = Some (take j q)" for t' j
    using that o by (auto simp: proper_def)
  show "reach (mem(t := f)) root q k u \<longleftrightarrow> reach mem root q k u" if "proper D q" "k < 4"
    using reach_cong[OF tr that, of u "mem(t := f)"] reach_cong[OF tr' that, of u mem] ne[OF that] by auto
qed

lemma forest_leaf_write:
  fixes e :: u64
  assumes f: "forest R own H n m" and r: "r \<in> R" and q: "proper user q" and t: "reach (tabs m) r q 3 t"
  defines "m' \<equiv> m\<lparr>tabs := (tabs m)(t := (tabs m t)(q ! 3 := e))\<rparr>"
  shows "forest R own H n m'"
    and "s \<in> R \<Longrightarrow> proper user q' \<Longrightarrow> leaf m' s q' = (if s = r \<and> q' = q then (if is_present e then Some e else None) else leaf m s q')"
    and "s \<in> R \<Longrightarrow> proper user q' \<Longrightarrow> k < 4 \<Longrightarrow> reach (tabs m') s q' k u \<longleftrightarrow> reach (tabs m) s q' k u"
proof -
  note F = forestD[OF f]
  have k: "(3 :: nat) < 4" by simp
  have o: "own r t = Some (take 3 q)" by (rule reach_own[OF F(2)[OF r] q k t])
  have l: "length q = 4" using q by (simp add: proper_def)
  have l3: "length (take 3 q) = 3" using l by simp
  have other: "tabs m' u = tabs m u" if "s \<in> R" "s \<noteq> r" "u \<in> dom (own s)" for s u
    using F(6)[OF r that(1)] that o unfolding m'_def by (auto simp: domIff)
  have td: "tabs m' = (tabs m)(t := (tabs m t)(q ! 3 := e))" by (simp add: m'_def)
  have tr: "tree user (tabs m') s (own s)" if "s \<in> R" for s
  proof (cases "s = r")
    case True
    then show ?thesis unfolding td using leaf_table_write(1)[OF F(2)[OF r] o l3] by blast
  next
    case False
    show ?thesis by (rule tree_cong(1)[OF F(2)[OF that] other[OF that False]])
  qed
  have res_r: "resolve (tabs m') r q' = (if q' = q then (if is_present e then Some (e, 12) else None) else resolve (tabs m) r q')"
    if q': "proper user q'" for q'
  proof (cases "q' = q")
    case True
    have "reach (tabs m') r q 3 t" unfolding td using leaf_table_write(2)[OF F(2)[OF r] o l3 q k] t by blast
    moreover have "drop 3 q = [q ! 3]" using l by (simp add: Cons_nth_drop_Suc[symmetric])
    ultimately have "resolve (tabs m') r q = resolve (tabs m') t [q ! 3]" using reach_resolve[OF l k] by metis
    then show ?thesis using True by (simp add: td Let_def)
  next
    case False
    then have "take (Suc 3) q' \<noteq> take (Suc 3) q" using take_4[OF q'] take_4[OF q] by (simp add: numeral_eq_Suc)
    then show ?thesis using write_entry(2)[OF F(2)[OF r] q k t q', of e] False by (simp add: td)
  qed
  have res_s: "resolve (tabs m') s q' = resolve (tabs m) s q'" if "s \<in> R" "s \<noteq> r" "proper user q'" for s q'
    by (rule tree_cong(2)[OF F(2)[OF that(1)] other[OF that(1,2)] that(3)])
  have sp: "small_pages (tabs m') s" if "s \<in> R" for s
    using F(4)[OF that] res_r res_s[OF that] unfolding small_pages_def by (cases "s = r") (auto split: if_splits)
  show "forest R own H n m'"
    using f tr sp unfolding forest_def by (auto simp: m'_def)
  show "leaf m' s q' = (if s = r \<and> q' = q then (if is_present e then Some e else None) else leaf m s q')" if "s \<in> R" "proper user q'"
    using res_r[OF that(2)] res_s[OF that(1) _ that(2)] by (cases "s = r") (auto simp: leaf_def)
  show "reach (tabs m') s q' k u \<longleftrightarrow> reach (tabs m) s q' k u" if "s \<in> R" "proper user q'" "k < 4" for k u
  proof (cases "s = r")
    case True
    then show ?thesis unfolding td using leaf_table_write(2)[OF F(2)[OF r] o l3 that(2,3)] by blast
  next
    case False
    have e: "own s t' = Some x \<Longrightarrow> tabs m' t' = tabs m t'" for t' x using other[OF that(1) False] by auto
    show ?thesis
      using reach_cong[OF F(2)[OF that(1)] that(2,3), of u "tabs m'"] reach_cong[OF tr[OF that(1)] that(2,3), of u "tabs m"] e by metis
  qed
qed

text \<open>The slot that \<open>leaf_entry_mut\<close> finds.\<close>

lemma leaf_entry_mut_reach:
  assumes "leaf_entry_mut r v T = Some (pt, i)"
  shows "i = pt_index v" "reach T r (path v) 3 pt" "pml4_index v < USER_PML4_ENTRIES"
  using assms
  by (auto simp: leaf_entry_mut_def Let_def path_def huge_leaf_def numeral_eq_Suc not_le split: if_splits)

lemma resolve_path:
  "resolve T r (path v) =
     (let e1 = T r (pml4_index v); e2 = T (entry_frame e1) (pdpt_index v); e3 = T (entry_frame e2) (pd_index v);
          e4 = T (entry_frame e3) (pt_index v) in
      if \<not> is_present e1 \<or> \<not> is_present e2 then None
      else if is_huge_page e2 then Some (e2, 30)
      else if \<not> is_present e3 then None
      else if is_huge_page e3 then Some (e3, 21)
      else if \<not> is_present e4 then None else Some (e4, 12))"
  by (simp add: path_def huge_leaf_def Let_def)

lemma leaf_slot:
  assumes f: "forest R own H n m" and r: "r \<in> R" and v: "pml4_index v < USER_PML4_ENTRIES"
  shows "leaf m r (path v) = (case leaf_entry_mut r v (tabs m) of
      None \<Rightarrow> None
    | Some (pt, i) \<Rightarrow> if is_present (tabs m pt i) then Some (tabs m pt i) else None)"
proof -
  have sp: "small_pages (tabs m) r" by (rule forestD(4)[OF f r])
  show ?thesis
  proof (cases "leaf_entry_mut r v (tabs m)")
    case None
    have "resolve (tabs m) r (path v) = None"
    proof (rule ccontr)
      assume "resolve (tabs m) r (path v) \<noteq> None"
      then obtain e k where R: "resolve (tabs m) r (path v) = Some (e, k)" by auto
      then have "k = 12" using sp user_path[OF v] unfolding small_pages_def by blast
      with R None v show False unfolding resolve_path leaf_entry_mut_def Let_def by (simp split: if_split_asm)
    qed
    then show ?thesis using None by (simp add: leaf_def)
  next
    case (Some p)
    obtain pt i where p: "p = (pt, i)" by (cases p)
    note l = leaf_entry_mut_reach[OF Some[unfolded p]]
    have "resolve (tabs m) r (path v) = resolve (tabs m) pt (drop 3 (path v))"
      by (rule reach_resolve[OF _ _ l(2)]) (simp_all add: path_def)
    then show ?thesis using Some p l(1) by (simp add: leaf_def path_def Let_def)
  qed
qed

end
