(* ===== verification/Spec2Isabelle.thy ===== *)
theory Spec2Isabelle
  imports Pipe Frame_Alloc Pcid Paging_Entry Page_Table Cow Fd_Table Process Scheduler Ipc_Rings Elf Vma Address_Space
begin

text \<open>
  A verification library for the rumicos kernel.
\<close>

end
